(* ===== verification/Prelude.thy ===== *)
theory Prelude
  imports Main "HOL-Library.Word" "HOL-Library.Monad_Syntax"
begin

text \<open>
  What the component theories share.
  \<^item> The machine types of \<^verbatim>\<open>src/xv6/types.h\<close> and the constants of \<^verbatim>\<open>param.h\<close>,
    \<^verbatim>\<open>memlayout.h\<close> and \<^verbatim>\<open>mmu.h\<close> that more than one component uses.
  \<^item> The convention for effects: an operation takes the state and returns
    \<open>(result \<times> state) option\<close>. \<open>None\<close> means that the call does not return in a
    run of this thread alone: the code called \<^verbatim>\<open>panic\<close>, left the range of an array,
    loops for ever, or waits for something only another thread can do. A theorem that
    says an operation gives \<open>Some\<close> is therefore a statement of total correctness.
    The \<open>do\<close> blocks are those of the option monad; the state is passed explicitly.
  \<^item> Generic facts on the option monad, on lists that are scanned and updated by index,
    and on aligned machine addresses.
\<close>

unbundle bit_operations_syntax

type_synonym u8 = "8 word"
type_synonym u16 = "16 word"
type_synonym u32 = "32 word"

named_theorems page_simps "normalisation of page-aligned addresses and page table entries"
named_theorems op_defs "unfolding of the operations of the components"

section \<open>Constants of param.h, memlayout.h and mmu.h\<close>

definition PGSIZE :: u32 where "PGSIZE = 4096"
definition EXTMEM :: u32 where "EXTMEM = 0x100000"
definition PHYSTOP :: u32 where "PHYSTOP = 0xE000000"
definition DEVSPACE :: u32 where "DEVSPACE = 0xFE000000"
definition KERNBASE :: u32 where "KERNBASE = 0x80000000"
definition KERNLINK :: u32 where "KERNLINK = KERNBASE + EXTMEM"

definition V2P :: "u32 \<Rightarrow> u32" where "V2P a = a - KERNBASE"
definition P2V :: "u32 \<Rightarrow> u32" where "P2V a = a + KERNBASE"

definition PGROUNDUP :: "u32 \<Rightarrow> u32" where
  "PGROUNDUP sz = (sz + PGSIZE - 1) AND NOT (PGSIZE - 1)"
definition PGROUNDDOWN :: "u32 \<Rightarrow> u32" where
  "PGROUNDDOWN a = a AND NOT (PGSIZE - 1)"

definition NPROC :: nat where "NPROC = 64"
definition NOFILE :: nat where "NOFILE = 16"
definition NFILE :: nat where "NFILE = 100"
definition MAXOPBLOCKS :: int where "MAXOPBLOCKS = 10"
definition LOGSIZE :: int where "LOGSIZE = MAXOPBLOCKS * 3"
definition NBUF :: nat where "NBUF = 30"

definition O_RDONLY :: int where "O_RDONLY = 0"
definition O_WRONLY :: int where "O_WRONLY = 1"
definition O_CREATE :: int where "O_CREATE = 0x200"
definition O_RDWR :: int where "O_RDWR = 2"

lemmas layout_defs =
  PGSIZE_def EXTMEM_def PHYSTOP_def DEVSPACE_def KERNBASE_def KERNLINK_def

section \<open>The option monad\<close>

lemma bind_eq_SomeE:
  assumes "Option.bind m f = Some r"
  obtains x where "m = Some x" and "f x = Some r"
  using assms by (cases m) auto

lemma bind_Some_iff: "Option.bind m f = Some r \<longleftrightarrow> (\<exists>x. m = Some x \<and> f x = Some r)"
  by (cases m) auto

lemma bind_neq_None_iff: "Option.bind m f \<noteq> None \<longleftrightarrow> (\<exists>x. m = Some x \<and> f x \<noteq> None)"
  by (cases m) auto

section \<open>Scanning arrays\<close>

text \<open>
  The kernel's tables are arrays scanned from the first entry by
  \<^verbatim>\<open>for(p = tab; p < tab + N; p++) if(...) ...\<close>. \<open>first_index P xs\<close> is the index of
  the first entry that satisfies the test, if there is one.
\<close>

fun first_index :: "('a \<Rightarrow> bool) \<Rightarrow> 'a list \<Rightarrow> nat option" where
  "first_index P [] = None"
| "first_index P (x # xs) = (if P x then Some 0 else map_option Suc (first_index P xs))"

lemma first_index_None_iff: "first_index P xs = None \<longleftrightarrow> (\<forall>x\<in>set xs. \<not> P x)"
  by (induction xs) auto

lemma first_index_SomeD:
  "first_index P xs = Some i \<Longrightarrow> i < length xs \<and> P (xs ! i) \<and> (\<forall>j<i. \<not> P (xs ! j))"
proof (induction xs arbitrary: i)
  case Nil
  then show ?case by simp
next
  case (Cons x xs)
  then show ?case
    by (cases i) (auto split: if_splits simp: less_Suc_eq_0_disj)
qed

lemma first_index_Some_length [dest]: "first_index P xs = Some i \<Longrightarrow> i < length xs"
  by (drule first_index_SomeD) simp

lemma first_index_ex: "x \<in> set xs \<Longrightarrow> P x \<Longrightarrow> \<exists>i. first_index P xs = Some i"
  by (metis first_index_None_iff option.exhaust)

lemma nth_list_update_if: "i < length xs \<Longrightarrow> (xs[i := v]) ! j = (if i = j then v else xs ! j)"
  by simp

lemma set_list_update_subset: "y \<in> set (xs[i := v]) \<Longrightarrow> y = v \<or> y \<in> set xs"
  using set_update_subset_insert by fastforce

section \<open>Aligned addresses\<close>

definition page_aligned :: "u32 \<Rightarrow> bool" where
  "page_aligned a \<longleftrightarrow> a AND 0xFFF = 0"

lemma word_add_eq_or:
  fixes a b :: "'a::len word"
  assumes "a AND b = 0"
  shows "a + b = a OR b"
proof (rule disjunctive_add)
  fix n
  from assms have "\<not> bit (a AND b) n" by simp
  then show "\<not> bit a n \<or> \<not> bit b n" by (simp add: bit_and_iff)
qed

lemma low12_iff: "(x :: u32) < 4096 \<longleftrightarrow> x AND 0xFFF = x"
proof -
  have "x AND mask 12 = x \<longleftrightarrow> uint x < 2 ^ 12" by (rule mask_eq_iff)
  then show ?thesis by (simp add: mask_eq_exp_minus_1 word_less_def)
qed

lemma aligned_disjoint:
  assumes "page_aligned p" and "d < 4096"
  shows "p AND d = 0"
proof -
  from assms(2) have "d AND 0xFFF = d" by (simp add: low12_iff)
  then have "p AND d = (p AND 0xFFF) AND d"
    by (metis and.assoc and.commute)
  with assms(1) show ?thesis by (simp add: page_aligned_def)
qed

lemma page_parts: "(a AND - 0x1000) OR (a AND 0xFFF) = (a :: u32)"
proof -
  have masks: "(0xFFF :: u32) = mask 12" "(- 0x1000 :: u32) = NOT (mask 12)"
    by (simp_all add: mask_eq_exp_minus_1)
  show ?thesis unfolding masks
    by (rule bit_word_eqI) (auto simp: bit_simps)
qed

lemma page_parts_disjoint: "(a AND - 0x1000) AND (a AND 0xFFF) = (0 :: u32)"
  by (simp add: and.assoc and.left_commute)

lemma page_aligned_high: "page_aligned a \<Longrightarrow> a AND - 0x1000 = a"
  using page_parts [of a] by (simp add: page_aligned_def)

lemma low12_high: "d < 4096 \<Longrightarrow> d AND - 0x1000 = (0 :: u32)"
  using page_parts_disjoint [of d] by (simp add: low12_iff and.commute and.left_commute)

lemma low12_less [simp]: "(a :: u32) AND 0xFFF < 4096"
  by (simp add: low12_iff and.assoc)

lemma PGROUNDDOWN_eq: "PGROUNDDOWN a = a AND - 0x1000"
  by (simp add: PGROUNDDOWN_def PGSIZE_def)

lemma page_aligned_PGROUNDDOWN [page_simps, simp]: "page_aligned (PGROUNDDOWN a)"
  by (simp add: page_aligned_def PGROUNDDOWN_eq and.assoc)

lemma page_split: "PGROUNDDOWN a + (a AND 0xFFF) = a"
  by (simp add: PGROUNDDOWN_eq word_add_eq_or page_parts_disjoint page_parts)

lemma PGROUNDDOWN_offset:
  assumes "page_aligned p" and "d < 4096"
  shows "PGROUNDDOWN (p + d) = p"
  using assms by (simp add: PGROUNDDOWN_eq word_add_eq_or aligned_disjoint
    bit.conj_disj_distrib2 page_aligned_high low12_high)

lemma page_offset_low:
  assumes "page_aligned p" and "d < 4096"
  shows "(p + d) AND 0xFFF = d"
proof -
  from assms have "p + d = p OR d" by (simp add: word_add_eq_or aligned_disjoint)
  with assms show ?thesis
    by (simp add: bit.conj_disj_distrib2 page_aligned_def low12_iff)
qed

lemma page_offset_eq:
  assumes "page_aligned p" and "page_aligned q" and "d < 4096" and "e < 4096"
  shows "p + d = q + e \<longleftrightarrow> p = q \<and> d = e"
  using assms by (metis PGROUNDDOWN_offset page_offset_low)

end
