(* ===== verification/KString.thy ===== *)
theory KString
  imports Prelude
begin

text \<open>
  Byte-addressed memory and the kernel's string routines, \<^verbatim>\<open>src/xv6/string.c\<close> (with the
  two string instructions of \<^verbatim>\<open>x86.h\<close> it uses). Memory is a total function from 32-bit
  addresses to bytes; pointer arithmetic wraps. \<open>load32\<close> and \<open>store32\<close> are the
  little-endian 32-bit accesses every other theory reads and writes structures with.
\<close>

type_synonym memory = "u32 \<Rightarrow> u8"

section \<open>32-bit accesses\<close>

definition load32 :: "memory \<Rightarrow> u32 \<Rightarrow> u32" where
  "load32 m a = word_cat (word_cat (m (a + 3)) (m (a + 2)) :: u16)
                         (word_cat (m (a + 1)) (m a) :: u16)"

definition store32 :: "memory \<Rightarrow> u32 \<Rightarrow> u32 \<Rightarrow> memory" where
  "store32 m a w = m(a := ucast w, a + 1 := ucast (drop_bit 8 w),
                     a + 2 := ucast (drop_bit 16 w), a + 3 := ucast (drop_bit 24 w))"

section \<open>String instructions and string.c\<close>

fun stosb :: "memory \<Rightarrow> u32 \<Rightarrow> u8 \<Rightarrow> nat \<Rightarrow> memory" where
  "stosb m addr data 0 = m"
| "stosb m addr data (Suc cnt) = stosb (m(addr := data)) (addr + 1) data cnt"

fun stosl :: "memory \<Rightarrow> u32 \<Rightarrow> u32 \<Rightarrow> nat \<Rightarrow> memory" where
  "stosl m addr data 0 = m"
| "stosl m addr data (Suc cnt) = stosl (store32 m addr data) (addr + 4) data cnt"

definition memset :: "memory \<Rightarrow> u32 \<Rightarrow> u32 \<Rightarrow> u32 \<Rightarrow> memory" where
  "memset m dst c n =
     (if dst mod 4 = 0 \<and> n mod 4 = 0 then
        let c = c AND 0xFF in
        stosl m dst (push_bit 24 c OR push_bit 16 c OR push_bit 8 c OR c) (unat (n div 4))
      else stosb m dst (ucast c) (unat n))"

fun memcmp_loop :: "memory \<Rightarrow> u32 \<Rightarrow> u32 \<Rightarrow> nat \<Rightarrow> int" where
  "memcmp_loop m s1 s2 0 = 0"
| "memcmp_loop m s1 s2 (Suc n) =
     (if m s1 \<noteq> m s2 then uint (m s1) - uint (m s2)
      else memcmp_loop m (s1 + 1) (s2 + 1) n)"

definition memcmp :: "memory \<Rightarrow> u32 \<Rightarrow> u32 \<Rightarrow> u32 \<Rightarrow> int" where
  "memcmp m v1 v2 n = memcmp_loop m v1 v2 (unat n)"

text \<open>The two loops of \<open>memmove\<close>: from the last byte down, from the first byte up.\<close>

fun move_down :: "memory \<Rightarrow> u32 \<Rightarrow> u32 \<Rightarrow> nat \<Rightarrow> memory" where
  "move_down m d s 0 = m"
| "move_down m d s (Suc n) = move_down (m(d - 1 := m (s - 1))) (d - 1) (s - 1) n"

fun move_up :: "memory \<Rightarrow> u32 \<Rightarrow> u32 \<Rightarrow> nat \<Rightarrow> memory" where
  "move_up m d s 0 = m"
| "move_up m d s (Suc n) = move_up (m(d := m s)) (d + 1) (s + 1) n"

definition memmove :: "memory \<Rightarrow> u32 \<Rightarrow> u32 \<Rightarrow> u32 \<Rightarrow> memory" where
  "memmove m dst src n =
     (if src < dst \<and> src + n > dst then move_down m (dst + n) (src + n) (unat n)
      else move_up m dst src (unat n))"

fun strncmp_loop :: "memory \<Rightarrow> u32 \<Rightarrow> u32 \<Rightarrow> nat \<Rightarrow> int" where
  "strncmp_loop m p q 0 = 0"
| "strncmp_loop m p q (Suc n) =
     (if m p \<noteq> 0 \<and> m p = m q then strncmp_loop m (p + 1) (q + 1) n
      else uint (m p) - uint (m q))"

definition strncmp :: "memory \<Rightarrow> u32 \<Rightarrow> u32 \<Rightarrow> u32 \<Rightarrow> int" where
  "strncmp m p q n = strncmp_loop m p q (unat n)"

text \<open>
  \<open>strncpy\<close>: copy up to and including the terminator, then pad with zero bytes.
  The signed length \<open>n\<close> counts as 0 when it is not positive.
\<close>

fun strncpy_loop :: "memory \<Rightarrow> u32 \<Rightarrow> u32 \<Rightarrow> nat \<Rightarrow> memory" where
  "strncpy_loop m s t 0 = m"
| "strncpy_loop m s t (Suc n) =
     (let m' = m(s := m t) in
      if m t \<noteq> 0 then strncpy_loop m' (s + 1) (t + 1) n else stosb m' (s + 1) 0 n)"

definition strncpy :: "memory \<Rightarrow> u32 \<Rightarrow> u32 \<Rightarrow> int \<Rightarrow> memory" where
  "strncpy m s t n = strncpy_loop m s t (nat n)"

fun safestrcpy_loop :: "memory \<Rightarrow> u32 \<Rightarrow> u32 \<Rightarrow> nat \<Rightarrow> memory" where
  "safestrcpy_loop m s t 0 = m(s := 0)"
| "safestrcpy_loop m s t (Suc n) =
     (let m' = m(s := m t) in
      if m t \<noteq> 0 then safestrcpy_loop m' (s + 1) (t + 1) n else m'(s + 1 := 0))"

definition safestrcpy :: "memory \<Rightarrow> u32 \<Rightarrow> u32 \<Rightarrow> int \<Rightarrow> memory" where
  "safestrcpy m s t n = (if n \<le> 0 then m else safestrcpy_loop m s t (nat (n - 1)))"

partial_function (option) strlen_from :: "memory \<Rightarrow> u32 \<Rightarrow> nat \<Rightarrow> nat option" where
  "strlen_from m s n = (if m (s + of_nat n) = 0 then Some n else strlen_from m s (Suc n))"

definition strlen :: "memory \<Rightarrow> u32 \<Rightarrow> nat option" where
  "strlen m s = strlen_from m s 0"

section \<open>Closed forms of the loops\<close>

lemma word_sub_Suc_range: "unat (a - d) < Suc n \<longleftrightarrow> a = d \<or> unat (a - (d + 1) :: u32) < n"
proof (cases "a = d")
  case False
  then have "a - d \<noteq> 0" by simp
  then have "unat (a - d) = Suc (unat (a - d - 1))"
    using unat_minus_one [of "a - d"] unat_gt_0 [of "a - d"] by simp
  with False show ?thesis by (simp add: diff_diff_eq)
qed simp

lemma stosb_apply: "stosb m d v n a = (if unat (a - d) < n then v else m a)"
  by (induction n arbitrary: m d) (auto simp: word_sub_Suc_range)

lemma word_sub_quad_range:
  "unat (a - d) < 4 * Suc n \<longleftrightarrow> unat (a - d) < 4 \<or> unat (a - (d + 4) :: u32) < 4 * n"
proof (cases "unat (a - d) < 4")
  case False
  then have "unat (a - d - 4) = unat (a - d) - 4"
    by (subst unat_sub) (auto simp: word_le_nat_alt)
  with False show ?thesis by (simp add: diff_diff_eq) linarith
qed simp

lemma unat_less_4: "unat (x :: u32) < 4 \<longleftrightarrow> x = 0 \<or> x = 1 \<or> x = 2 \<or> x = 3"
  by (auto simp: unat_arith_simps)

lemma store32_apply:
  "store32 m a w b = (if b = a + 3 then ucast (drop_bit 24 w) else if b = a + 2 then ucast (drop_bit 16 w)
     else if b = a + 1 then ucast (drop_bit 8 w) else if b = a then ucast w else m b)"
  by (simp add: store32_def)

lemma store32_outside: "4 \<le> unat (b - a) \<Longrightarrow> store32 m a w b = m b"
  by (auto simp: store32_def)

lemma load32_store32_same [simp]: "load32 (store32 m a w) a = w"
proof -
  have "load32 (store32 m a w) a = word_cat (word_cat (ucast (drop_bit 24 w) :: u8) (ucast (drop_bit 16 w) :: u8) :: u16) (word_cat (ucast (drop_bit 8 w) :: u8) (ucast w :: u8) :: u16)"
    by (simp add: load32_def store32_apply)
  also have "\<dots> = w"
    by (rule bit_word_eqI) (auto simp: bit_word_cat_iff bit_simps less_diff_conv2)
  finally show ?thesis .
qed

definition aligned4 :: "u32 \<Rightarrow> bool" where "aligned4 a \<longleftrightarrow> a mod 4 = 0"

lemma aligned4_eq:
  assumes "aligned4 a" "aligned4 b" "a + i = b + j" "i < 4" "j < 4"
  shows "a = b"
proof -
  have m: "unat (x + k) = unat x + unat k \<and> unat x mod 4 = 0" if "aligned4 x" "k < 4" for x k :: u32
  proof -
    from that(1) have "unat x mod 4 = 0"
      using unat_mod [of x 4] by (simp add: aligned4_def)
    moreover have "unat k < 4" using that(2) by (simp add: word_less_nat_alt)
    moreover have "unat x < 4294967296"
      using unsigned_less [of x, where ?'a = nat] by simp
    moreover from calculation have "unat x + unat k < 4294967296" by presburger
    ultimately show ?thesis by (simp add: unat_word_ariths)
  qed
  have "unat a + unat i = unat b + unat j" "unat i < 4" "unat j < 4" "unat a mod 4 = 0" "unat b mod 4 = 0"
    using m [OF assms(1,4)] m [OF assms(2,5)] assms(3-5) by (simp_all add: word_less_nat_alt)
  then have "unat a = unat b" by presburger
  then show ?thesis by (simp add: word_unat_eq_iff)
qed

lemma load32_store32_other [simp]:
  assumes "aligned4 a" "aligned4 b" "a \<noteq> b"
  shows "load32 (store32 m a w) b = load32 m b"
proof -
  have "store32 m a w (b + i) = m (b + i)" if "i < 4" for i
    using aligned4_eq [OF assms(1,2), of 0 i] aligned4_eq [OF assms(1,2), of 1 i] 
     aligned4_eq [OF assms(1,2), of 2 i] aligned4_eq [OF assms(1,2), of 3 i] that assms(3)
    by (auto simp: store32_apply)
  from this [of 0] this [of 1] this [of 2] this [of 3] show ?thesis by (simp add: load32_def)
qed

lemma move_up_apply:
  "d = s \<or> n \<le> unat (d - s) \<Longrightarrow>
   move_up m d s n a = (if unat (a - d) < n then m (s + (a - d)) else m a)"
proof (induction n arbitrary: m d s)
  case (Suc n)
  have "d + 1 = s + 1 \<or> n \<le> unat (d + 1 - (s + 1))" using Suc.prems by auto
  note IH = Suc.IH [OF this, of "m(d := m s)"]
  have "s + (a - d) \<noteq> d" if "unat (a - d) < Suc n" "a \<noteq> d"
  proof
    assume "s + (a - d) = d"
    then have "a - d = d - s" by (simp add: algebra_simps)
    with that Suc.prems show False by auto
  qed
  moreover have "s + 1 + (a - (d + 1)) = s + (a - d)" by simp
  ultimately show ?case
    unfolding move_up.simps IH word_sub_Suc_range by (cases "a = d") auto
qed simp

lemma move_down_apply:
  "d = s \<or> n \<le> unat (s - d) \<Longrightarrow> n < 2 ^ 32 \<Longrightarrow>
   move_down m (d + of_nat n) (s + of_nat n) n a = (if unat (a - d) < n then m (s + (a - d)) else m a)"
proof (induction n arbitrary: m)
  case (Suc n)
  have "d = s \<or> n \<le> unat (s - d)" "n < 2 ^ 32" using Suc.prems by auto
  note IH = Suc.IH [OF this, of "m(d + of_nat n := m (s + of_nat n))"]
  have n: "unat (of_nat n :: u32) = n" using Suc.prems by (simp add: unat_of_nat take_bit_nat_eq_self)
  have top: "a - d = of_nat n" if "unat (a - d) = n" 
    using that by (metis n word_unat_eq_iff)
  have ne: "s + (a - d) \<noteq> d + of_nat n" if "unat (a - d) < n"
  proof
    assume "s + (a - d) = d + of_nat n"
    then have "s - d = of_nat n - (a - d)" by (simp add: algebra_simps)
    moreover have "unat (of_nat n - (a - d)) = n - unat (a - d)"
      using that n by (simp add: unat_sub word_le_nat_alt)
    ultimately have "unat (s - d) = n - unat (a - d)" by metis
    with Suc.prems(1) that show False by auto
  qed
  have ne2: "a \<noteq> d + of_nat n" if "\<not> unat (a - d) < Suc n"
    using that n by auto
  have tt: "s + (a - d) = s + of_nat n \<and> a = d + of_nat n" if "unat (a - d) = n"
    using top [OF that] by (metis add.commute diff_add_cancel)
  have "move_down m (d + of_nat (Suc n)) (s + of_nat (Suc n)) (Suc n) a
     = move_down (m(d + of_nat n := m (s + of_nat n))) (d + of_nat n) (s + of_nat n) n a"
    by (simp add: algebra_simps)
  also have "\<dots> = (if unat (a - d) < Suc n then m (s + (a - d)) else m a)"
    unfolding IH using ne ne2 tt by (auto simp: less_Suc_eq)
  finally show ?case .
qed simp

theorem memmove_apply:
  assumes "unat src + unat n < 2 ^ 32" "unat dst + unat n < 2 ^ 32"
  shows "memmove m dst src n a = (if a - dst < n then m (src + (a - dst)) else m a)"
proof -
  have n: "of_nat (unat n) = n" by simp
  have sn: "unat (src + n) = unat src + unat n" using assms by (simp add: unat_word_ariths)
  show ?thesis
  proof (cases "src < dst \<and> src + n > dst")
    case True
    then have "unat (src - dst) = 2 ^ 32 + unat src - unat dst"
      by (auto simp: unat_sub_if' word_less_nat_alt)
    then have "unat n \<le> unat (src - dst)" using assms by simp
    then have "dst = src \<or> unat n \<le> unat (src - dst)" ..
    from move_down_apply [OF this, of m a] assms True show ?thesis
      by (simp add: memmove_def n word_less_nat_alt)
  next
    case False
    have "dst = src \<or> unat n \<le> unat (dst - src)"
    proof (cases "src < dst")
      case True
      with False have "unat src + unat n \<le> unat dst" using sn by (simp add: word_less_nat_alt)
      then have "unat n \<le> unat (dst - src)"
        using True by (simp add: unat_sub word_less_nat_alt word_le_nat_alt)
      then show ?thesis ..
    next
      case False
      then show ?thesis
        using assms by (cases "dst = src") (auto simp: unat_sub_if' word_less_nat_alt word_unat_eq_iff)
    qed
    from move_up_apply [OF this, of m a] False show ?thesis
      by (auto simp: memmove_def word_less_nat_alt)
  qed
qed


lemma store32_fill:
  assumes "ucast w = v" "ucast (drop_bit 8 w) = v" "ucast (drop_bit 16 w) = v" "ucast (drop_bit 24 w) = v"
  shows "store32 m d w b = (if unat (b - d) < 4 then v else m b)"
proof -
  have "unat (b - d) < 4 \<longleftrightarrow> b = d \<or> b = d + 1 \<or> b = d + 2 \<or> b = d + 3"
    by (simp add: unat_less_4 diff_eq_eq add.commute)
  with assms show ?thesis by (auto simp: store32_apply)
qed

lemma stosl_fill:
  assumes "ucast w = v" "ucast (drop_bit 8 w) = v" "ucast (drop_bit 16 w) = v" "ucast (drop_bit 24 w) = v"
  shows "stosl m d w n b = (if unat (b - d) < 4 * n then v else m b)"
proof (induction n arbitrary: m d)
  case (Suc n)
  show ?case
    unfolding stosl.simps Suc.IH word_sub_quad_range store32_fill [OF assms] by simp
qed simp

definition fill_word :: "u32 \<Rightarrow> u32" where
  "fill_word c = push_bit 24 c OR push_bit 16 c OR push_bit 8 c OR c"

lemma fill_word_bytes:
  assumes "c = c' AND 0xFF"
  shows "(ucast (fill_word c) :: u8) = ucast c'" "(ucast (drop_bit 8 (fill_word c)) :: u8) = ucast c'"
    "(ucast (drop_bit 16 (fill_word c)) :: u8) = ucast c'" "(ucast (drop_bit 24 (fill_word c)) :: u8) = ucast c'"
proof -
  have m: "(0xFF :: u32) = mask 8" by (simp add: mask_eq_exp_minus_1)
  show "(ucast (fill_word c) :: u8) = ucast c'" "(ucast (drop_bit 8 (fill_word c)) :: u8) = ucast c'"
    "(ucast (drop_bit 16 (fill_word c)) :: u8) = ucast c'" "(ucast (drop_bit 24 (fill_word c)) :: u8) = ucast c'"
    unfolding assms fill_word_def m
    by (rule bit_word_eqI, auto simp: bit_simps)+
qed

lemma memset_apply: "memset m dst c n a = (if a - dst < n then ucast c else m a)"
proof (cases "dst mod 4 = 0 \<and> n mod 4 = 0")
  case True
  then have "unat n mod 4 = 0" using unat_mod [of n 4] by simp
  then have "4 * unat (n div 4) = unat n" by (simp add: unat_div) presburger
  with True show ?thesis
    using stosl_fill [OF fill_word_bytes [OF refl], of m dst c "unat (n div 4)" a]
    by (simp add: memset_def Let_def fill_word_def word_less_nat_alt)
next
  case False
  then show ?thesis by (auto simp: memset_def stosb_apply word_less_nat_alt)
qed


lemma word_sub_next: "a \<noteq> s \<Longrightarrow> unat (a - s) = Suc (unat (a - (s + 1) :: u32))"
proof -
  assume "a \<noteq> s"
  then have "a - s \<noteq> 0" by simp
  then have "unat (a - s) = Suc (unat (a - s - 1))"
    using unat_minus_one [of "a - s"] unat_gt_0 [of "a - s"] by simp
  then show ?thesis by (simp add: diff_diff_eq)
qed

lemma safestrcpy_loop_outside:
  "Suc n \<le> unat (a - s) \<Longrightarrow> safestrcpy_loop m s t n a = m a"
proof (induction n arbitrary: m s t)
  case (Suc n)
  then have "a \<noteq> s" by auto
  with Suc.prems have "Suc n \<le> unat (a - (s + 1))" by (simp add: word_sub_next)
  then have "a \<noteq> s + 1" by auto
  with \<open>a \<noteq> s\<close> Suc.IH [OF \<open>Suc n \<le> unat (a - (s + 1))\<close>] show ?case by (simp add: Let_def)
qed auto

lemma safestrcpy_loop_terminated: "\<exists>k\<le>n. safestrcpy_loop m s t n (s + of_nat k) = 0"
proof (induction n arbitrary: m s t)
  case (Suc n)
  show ?case
  proof (cases "m t = 0")
    case True
    then show ?thesis by (intro exI [of _ 0]) (simp add: Let_def)
  next
    case False
    from Suc.IH [of "m(s := m t)" "s + 1" "t + 1"] obtain k
      where "k \<le> n" and "safestrcpy_loop (m(s := m t)) (s + 1) (t + 1) n (s + 1 + of_nat k) = 0" by blast
    with False show ?thesis by (intro exI [of _ "Suc k"]) (simp add: Let_def algebra_simps)
  qed
qed (auto intro: exI [of _ 0])

lemma strlen_from_Some:
  "m (s + of_nat (n + k)) = 0 \<Longrightarrow> (\<forall>i<k. m (s + of_nat (n + i)) \<noteq> 0) \<Longrightarrow> strlen_from m s n = Some (n + k)"
proof (induction k arbitrary: n)
  case 0
  then show ?case by (subst strlen_from.simps) simp
next
  case (Suc k)
  have "m (s + of_nat n) \<noteq> 0" using Suc.prems(2) by (auto dest: spec [of _ 0])
  moreover have "strlen_from m s (Suc n) = Some (Suc n + k)"
  proof (rule Suc.IH)
    show "m (s + of_nat (Suc n + k)) = 0" using Suc.prems(1) by simp
    show "\<forall>i<k. m (s + of_nat (Suc n + i)) \<noteq> 0"
      using Suc.prems(2) by (metis Suc_mono add_Suc_shift)
  qed
  ultimately show ?case by (subst strlen_from.simps) simp
qed

lemma strlen_Some: "m (s + of_nat k) = 0 \<Longrightarrow> (\<forall>i<k. m (s + of_nat i) \<noteq> 0) \<Longrightarrow> strlen m s = Some k"
  using strlen_from_Some [of m s 0 k] by (simp add: strlen_def)

lemma strlen_from_SomeD:
  assumes "strlen_from m s n = Some k"
  shows "n \<le> k \<and> m (s + of_nat k) = 0 \<and> (\<forall>i. n \<le> i \<longrightarrow> i < k \<longrightarrow> m (s + of_nat i) \<noteq> 0)"
proof (rule strlen_from.raw_induct [where P = "\<lambda>m s n k. n \<le> k \<and> m (s + of_nat k) = 0 \<and>
    (\<forall>i. n \<le> i \<longrightarrow> i < k \<longrightarrow> m (s + of_nat i) \<noteq> 0)", OF _ assms])
  fix f m s n k
  assume IH: "\<And>m s n k. f m s n = Some k \<Longrightarrow> n \<le> k \<and> m (s + of_nat k) = 0 \<and>
      (\<forall>i. n \<le> i \<longrightarrow> i < k \<longrightarrow> m (s + of_nat i) \<noteq> 0)"
    and eq: "(if m (s + of_nat n) = 0 then Some n else f m s (Suc n)) = Some k"
  show "n \<le> k \<and> m (s + of_nat k) = 0 \<and> (\<forall>i. n \<le> i \<longrightarrow> i < k \<longrightarrow> m (s + of_nat i) \<noteq> 0)"
  proof (cases "m (s + of_nat n) = 0")
    case False
    with eq have "f m s (Suc n) = Some k" by simp
    from IH [OF this] False show ?thesis
      by (metis Suc_leD Suc_leI le_neq_implies_less)
  qed (use eq in auto)
qed

lemma strlen_SomeD: "strlen m s = Some k \<Longrightarrow> m (s + of_nat k) = 0 \<and> (\<forall>i<k. m (s + of_nat i) \<noteq> 0)"
  using strlen_from_SomeD [of m s 0 k] by (simp add: strlen_def)

text \<open>Equal on the first \<open>n\<close> bytes or up to a common terminator.\<close>
definition str_eq_n :: "memory \<Rightarrow> u32 \<Rightarrow> u32 \<Rightarrow> nat \<Rightarrow> bool" where
  "str_eq_n m p q n \<longleftrightarrow>
     (\<forall>i<n. (\<forall>j<i. m (p + of_nat j) \<noteq> 0) \<longrightarrow> m (p + of_nat i) = m (q + of_nat i))"

lemma all_less_Suc_shift: "(\<forall>i<Suc n. P i) \<longleftrightarrow> P 0 \<and> (\<forall>i<n. P (Suc i))"
  by (auto simp: less_Suc_eq_0_disj)

lemma strncmp_loop_eq_0: "strncmp_loop m p q n = 0 \<longleftrightarrow> str_eq_n m p q n"
proof (induction n arbitrary: p q)
  case (Suc n)
  have step: "str_eq_n m p q (Suc n) \<longleftrightarrow> m p = m q \<and> (m p \<noteq> 0 \<longrightarrow> str_eq_n m (p + 1) (q + 1) n)"
    unfolding str_eq_n_def all_less_Suc_shift by (auto simp: algebra_simps)
  show ?case unfolding step using Suc.IH by (auto simp: word_uint_eq_iff)
qed (simp add: str_eq_n_def)

lemma memcmp_loop_eq_0: "memcmp_loop m p q n = 0 \<longleftrightarrow> (\<forall>i<n. m (p + of_nat i) = m (q + of_nat i))"
proof (induction n arbitrary: p q)
  case (Suc n)
  show ?case unfolding all_less_Suc_shift using Suc.IH [of "p + 1" "q + 1"]
    by (auto simp: word_uint_eq_iff algebra_simps)
qed simp


lemma safestrcpy_loop_copies:
  assumes "k \<le> n" and "n < 2 ^ 32 - 1"
    and "\<forall>i<k. m (t + of_nat i) \<noteq> 0" and "k = n \<or> m (t + of_nat k) = 0"
    and "\<forall>i\<le>k. Suc n \<le> unat (t + of_nat i - s)"
  shows "(\<forall>i<k. safestrcpy_loop m s t n (s + of_nat i) = m (t + of_nat i)) \<and>
         safestrcpy_loop m s t n (s + of_nat k) = 0"
  using assms
proof (induction k arbitrary: n m s t)
  case 0
  then show ?case by (cases n) (auto simp: Let_def)
next
  case (Suc k)
  then obtain n' where n: "n = Suc n'" by (cases n) auto
  let ?m = "m(s := m t)"
  have nz: "m t \<noteq> 0" using Suc.prems(3) by (auto dest: spec [of _ 0])
  have far: "t + of_nat i \<noteq> s" if "i \<le> Suc k" for i
    using Suc.prems(5) that by fastforce
  have tail: "?m (t + 1 + of_nat i) = m (t + of_nat (Suc i))" if "i \<le> k" for i
    using far [of "Suc i"] that by (simp add: algebra_simps)
  have "(\<forall>i<k. safestrcpy_loop ?m (s + 1) (t + 1) n' (s + 1 + of_nat i) = ?m (t + 1 + of_nat i)) \<and>
         safestrcpy_loop ?m (s + 1) (t + 1) n' (s + 1 + of_nat k) = 0"
  proof (rule Suc.IH)
    show "\<forall>i\<le>k. Suc n' \<le> unat (t + 1 + of_nat i - (s + 1))"
      using Suc.prems(5) n by (auto simp: algebra_simps word_sub_next)
         (metis (no_types, lifting) Suc_le_mono add.commute far le_SucI not_less_eq_eq of_nat_Suc diff_diff_eq)
  qed (use Suc.prems tail n in auto)
  moreover have "safestrcpy_loop m s t n = safestrcpy_loop ?m (s + 1) (t + 1) n'"
    using nz n by (simp add: Let_def fun_eq_iff)
  moreover have "safestrcpy_loop ?m (s + 1) (t + 1) n' s = m t"
  proof -
    have "unat (s - (s + 1)) = 2 ^ 32 - 1"
      by (simp add: unsigned_minus_1_eq_mask mask_eq_exp_minus_1)
    then show ?thesis using safestrcpy_loop_outside [of n' s "s + 1" ?m "t + 1"] Suc.prems(2) n by simp
  qed
  ultimately show ?case
    using tail by (auto simp: all_less_Suc_shift algebra_simps)
qed

section \<open>Properties of string.c\<close>

text \<open>C15: \<open>memmove\<close> copies correctly whatever the overlap of source and destination:
  as long as neither region runs past the end of the address space, every byte of the
  destination afterwards is the byte the source held before the call, and no other byte of
  memory changes.\<close>
theorem memmove_correct:
  assumes "unat src + unat n < 2 ^ 32" and "unat dst + unat n < 2 ^ 32"
  shows "memmove m dst src n = (\<lambda>a. if a - dst < n then m (src + (a - dst)) else m a)"
  using memmove_apply [OF assms] by (simp add: fun_eq_iff)

theorem memmove_correct_witness:
  "memmove (\<lambda>a. ucast a) 12 10 4 = (\<lambda>a. if a - 12 < 4 then ucast (10 + (a - 12)) else ucast a)"
  by (rule memmove_correct [of 10 4 12]) simp_all

text \<open>C16: \<open>memset\<close> fills exactly \<open>n\<close> bytes with the low byte of \<open>c\<close>, whether the
  alignment makes it take the word loop (\<open>stosl\<close>) or the byte loop (\<open>stosb\<close>).\<close>
theorem memset_correct:
  "memset m dst c n = (\<lambda>a. if a - dst < n then ucast c else m a)"
  by (simp add: memset_apply fun_eq_iff)

text \<open>C17: \<open>safestrcpy\<close> copies the source string up to its terminator or to \<open>n - 1\<close> bytes,
  always terminates the destination, and writes nothing outside the \<open>n\<close> bytes of the
  destination buffer.\<close>
theorem safestrcpy_correct:
  assumes "0 < n" and "n < 2 ^ 31" and "strlen m t = Some len"
    and "\<forall>i\<le>min len (nat (n - 1)). nat n \<le> unat (t + of_nat i - s)"
  shows "(\<forall>i<min len (nat (n - 1)). safestrcpy m s t n (s + of_nat i) = m (t + of_nat i)) \<and>
         safestrcpy m s t n (s + of_nat (min len (nat (n - 1)))) = 0 \<and>
         (\<forall>a. nat n \<le> unat (a - s) \<longrightarrow> safestrcpy m s t n a = m a)"
proof -
  let ?n = "nat (n - 1)"
  have n: "nat n = Suc ?n" "?n < 2 ^ 32 - 1" using assms(1,2) by auto
  have "(\<forall>i<min len ?n. safestrcpy_loop m s t ?n (s + of_nat i) = m (t + of_nat i)) \<and>
        safestrcpy_loop m s t ?n (s + of_nat (min len ?n)) = 0"
    by (rule safestrcpy_loop_copies)
      (use assms n strlen_SomeD [OF assms(3)] in \<open>auto simp: min_def\<close>)
  with assms(1) n show ?thesis
    by (auto simp: safestrcpy_def safestrcpy_loop_outside)
qed


theorem safestrcpy_correct_witness:
  "safestrcpy (\<lambda>a. if a = 100 then 0x73 else if a = 101 then 0x68 else 0) 0 100 16 (0 + of_nat 1) = 0x68"
proof -
  let ?m = "\<lambda>a :: u32. if a = 100 then 0x73 else if a = 101 then 0x68 else (0 :: u8)"
  have len: "strlen ?m 100 = Some 2"
    by (rule strlen_Some) (auto dest!: less_2_cases)
  have far: "\<forall>i\<le>min 2 (nat (16 - 1)). nat 16 \<le> unat (100 + of_nat i - 0 :: u32)"
    by (auto simp: le_less dest!: less_2_cases)
  have "\<forall>i<min 2 (nat (16 - 1)). safestrcpy ?m 0 100 16 (0 + of_nat i) = ?m (100 + of_nat i)"
    using safestrcpy_correct [of 16 ?m 100 2 0, OF _ _ len far] by simp
  then have "safestrcpy ?m 0 100 16 (0 + of_nat 1) = ?m (100 + of_nat 1)"
    by (rule allE [where x = 1]) simp
  then show ?thesis by simp
qed

end
