(* ===== verification/Spinlock.thy ===== *)
theory Spinlock
  imports KString
begin

text \<open>
  Spin locks, \<^verbatim>\<open>src/xv6/spinlock.c\<close>, at two levels.
  \<^item> The detailed level has every CPU's \<open>ncli\<close>, \<open>intena\<close> and interrupt flag and
    every lock's \<open>locked\<close> word, owner and recorded call stack. \<open>acquire\<close> and
    \<open>release\<close> are cut at the points where another CPU can interfere: before and after
    the atomic \<open>xchg\<close> and before the store that clears the lock. \<open>spin_step\<close>
    interleaves the pieces of all CPUs.
  \<^item> The client level is the view of the code that runs on one CPU: the list of the
    locks it holds, the last one first. Every other theory locks through it.
  \<open>lock_ops\<close> is the contract both levels satisfy.
\<close>

section \<open>The detailed level\<close>

datatype lock = LKmem | LPtable | LFtable | LIcache | LBcache | LLog | LCons | LTicks | LIde
  | LPipe u32 | LSleep nat

record spinlock =
  locked :: bool
  lcpu :: "nat option"
  pcs :: "u32 list"

record cpu =
  ncli :: int
  intena :: bool
  eflags_IF :: bool

text \<open>Where a CPU is inside \<open>acquire\<close> or \<open>release\<close>.\<close>

datatype lock_pc = Outside | Spinning lock | Got lock | Releasing lock

record smp =
  cpus :: "nat \<Rightarrow> cpu"
  locks :: "lock \<Rightarrow> spinlock"
  lpc :: "nat \<Rightarrow> lock_pc"

definition upd_cpu :: "nat \<Rightarrow> (cpu \<Rightarrow> cpu) \<Rightarrow> smp \<Rightarrow> smp" where
  "upd_cpu c f s = s\<lparr>cpus := (cpus s)(c := f (cpus s c))\<rparr>"

definition upd_lock :: "lock \<Rightarrow> (spinlock \<Rightarrow> spinlock) \<Rightarrow> smp \<Rightarrow> smp" where
  "upd_lock l f s = s\<lparr>locks := (locks s)(l := f (locks s l))\<rparr>"

definition set_lpc :: "nat \<Rightarrow> lock_pc \<Rightarrow> smp \<Rightarrow> smp" where
  "set_lpc c p s = s\<lparr>lpc := (lpc s)(c := p)\<rparr>"

definition initlock :: "lock \<Rightarrow> smp \<Rightarrow> smp" where
  "initlock l = upd_lock l (\<lambda>k. k\<lparr>locked := False, lcpu := None\<rparr>)"

text \<open>\<open>mycpu\<close> panics when interrupts are enabled.\<close>

definition holding :: "nat \<Rightarrow> lock \<Rightarrow> smp \<Rightarrow> bool option" where
  "holding c l s =
     (if \<not> locked (locks s l) then Some False
      else if eflags_IF (cpus s c) then None
      else Some (lcpu (locks s l) = Some c))"

definition pushcli :: "nat \<Rightarrow> smp \<Rightarrow> smp" where
  "pushcli c = upd_cpu c (\<lambda>k. k\<lparr>eflags_IF := False,
      intena := (if ncli k = 0 then eflags_IF k else intena k), ncli := ncli k + 1\<rparr>)"

definition popcli :: "nat \<Rightarrow> smp \<Rightarrow> smp option" where
  "popcli c s =
     (if eflags_IF (cpus s c) then None
      else if ncli (cpus s c) - 1 < 0 then None
      else Some (upd_cpu c (\<lambda>k. k\<lparr>ncli := ncli k - 1,
             eflags_IF := (ncli k - 1 = 0 \<and> intena k)\<rparr>) s))"

text \<open>\<open>getcallerpcs\<close> follows the saved frame pointers in memory, at most ten frames.\<close>

fun callerpcs :: "memory \<Rightarrow> u32 \<Rightarrow> nat \<Rightarrow> u32 list" where
  "callerpcs m ebp 0 = []"
| "callerpcs m ebp (Suc n) =
     (if ebp = 0 \<or> ebp < KERNBASE \<or> ebp = 0xFFFFFFFF then []
      else load32 m (ebp + 4) # callerpcs m (load32 m ebp) n)"

definition getcallerpcs :: "memory \<Rightarrow> u32 \<Rightarrow> u32 list" where
  "getcallerpcs m v =
     (let p = callerpcs m (v - 8) 10 in p @ replicate (10 - length p) 0)"

definition acquire_enter :: "nat \<Rightarrow> lock \<Rightarrow> smp \<Rightarrow> smp option" where
  "acquire_enter c l s = do {
     let s = pushcli c s;
     h \<leftarrow> holding c l s;
     if h then None else Some (set_lpc c (Spinning l) s) }"

text \<open>One \<open>xchg\<close>: it stores 1 in any case; the lock is ours when the old value was 0.\<close>

definition acquire_xchg :: "nat \<Rightarrow> lock \<Rightarrow> smp \<Rightarrow> bool \<times> smp" where
  "acquire_xchg c l s =
     (let old = locked (locks s l); s' = upd_lock l (\<lambda>k. k\<lparr>locked := True\<rparr>) s in
      if old then (False, s') else (True, set_lpc c (Got l) s'))"

definition acquire_exit :: "u32 list \<Rightarrow> nat \<Rightarrow> lock \<Rightarrow> smp \<Rightarrow> smp" where
  "acquire_exit stack c l s =
     set_lpc c Outside (upd_lock l (\<lambda>k. k\<lparr>lcpu := Some c, pcs := stack\<rparr>) s)"

text \<open>The whole \<open>acquire\<close> on a CPU that is not interfered with: while the lock is taken
  the loop does not end.\<close>

definition spin_acquire :: "u32 list \<Rightarrow> nat \<Rightarrow> lock \<Rightarrow> smp \<Rightarrow> smp option" where
  "spin_acquire stack c l s = do {
     s \<leftarrow> acquire_enter c l s;
     let (ok, s) = acquire_xchg c l s;
     if ok then Some (acquire_exit stack c l s) else None }"

definition release_enter :: "nat \<Rightarrow> lock \<Rightarrow> smp \<Rightarrow> smp option" where
  "release_enter c l s = do {
     h \<leftarrow> holding c l s;
     if \<not> h then None
     else Some (set_lpc c (Releasing l)
       (upd_lock l (\<lambda>k. k\<lparr>pcs := (pcs k)[0 := 0], lcpu := None\<rparr>) s)) }"

definition release_exit :: "nat \<Rightarrow> lock \<Rightarrow> smp \<Rightarrow> smp option" where
  "release_exit c l s = popcli c (set_lpc c Outside (upd_lock l (\<lambda>k. k\<lparr>locked := False\<rparr>) s))"

definition spin_release :: "nat \<Rightarrow> lock \<Rightarrow> smp \<Rightarrow> smp option" where
  "spin_release c l s = do { s \<leftarrow> release_enter c l s; release_exit c l s }"

section \<open>The client level\<close>

record kcpu =
  held :: "lock list"

definition acquire :: "lock \<Rightarrow> 'z kcpu_scheme \<Rightarrow> 'z kcpu_scheme option" where
  "acquire l s = (if l \<in> set (held s) then None else Some (s\<lparr>held := l # held s\<rparr>))"

definition release :: "lock \<Rightarrow> 'z kcpu_scheme \<Rightarrow> 'z kcpu_scheme option" where
  "release l s = (if l \<in> set (held s) then Some (s\<lparr>held := remove1 l (held s)\<rparr>) else None)"

section \<open>Interleavings of the detailed level\<close>

inductive spin_step :: "smp \<Rightarrow> smp \<Rightarrow> bool" where
  enter: "lpc s c = Outside \<Longrightarrow> acquire_enter c l s = Some t \<Longrightarrow> spin_step s t"
| xchg: "lpc s c = Spinning l \<Longrightarrow> acquire_xchg c l s = (ok, t) \<Longrightarrow> spin_step s t"
| got: "lpc s c = Got l \<Longrightarrow> spin_step s (acquire_exit stack c l s)"
| drop: "lpc s c = Outside \<Longrightarrow> release_enter c l s = Some t \<Longrightarrow> spin_step s t"
| clear: "lpc s c = Releasing l \<Longrightarrow> release_exit c l s = Some t \<Longrightarrow> spin_step s t"
| push: "lpc s c = Outside \<Longrightarrow> spin_step s (pushcli c s)"
| pop: "lpc s c = Outside \<Longrightarrow> popcli c s = Some t \<Longrightarrow> spin_step s t"

definition smp_init :: smp where
  "smp_init = \<lparr>cpus = (\<lambda>_. \<lparr>ncli = 0, intena = False, eflags_IF = True\<rparr>),
     locks = (\<lambda>_. \<lparr>locked = False, lcpu = None, pcs = replicate 10 0\<rparr>), lpc = (\<lambda>_. Outside)\<rparr>"

inductive spin_reachable :: "smp \<Rightarrow> bool" where
  start: "spin_reachable smp_init"
| step: "spin_reachable s \<Longrightarrow> spin_step s t \<Longrightarrow> spin_reachable t"

text \<open>A CPU owns a lock from the winning \<open>xchg\<close> to the store that clears it.\<close>

definition owns :: "smp \<Rightarrow> nat \<Rightarrow> lock \<Rightarrow> bool" where
  "owns s c l \<longleftrightarrow> lcpu (locks s l) = Some c \<or> lpc s c = Got l \<or> lpc s c = Releasing l"

definition spin_inv :: "smp \<Rightarrow> bool" where
  "spin_inv s \<longleftrightarrow>
     (\<forall>l. \<not> locked (locks s l) \<longrightarrow> (\<forall>c. \<not> owns s c l)) \<and>
     (\<forall>l. locked (locks s l) \<longrightarrow> (\<exists>c. \<forall>d. owns s d l \<longleftrightarrow> d = c)) \<and>
     (\<forall>l c. lpc s c = Got l \<or> lpc s c = Releasing l \<longrightarrow> lcpu (locks s l) = None)"

lemmas smp_defs = upd_cpu_def upd_lock_def set_lpc_def

lemma holding_SomeD: "holding c l s = Some True \<Longrightarrow> locked (locks s l) \<and> lcpu (locks s l) = Some c"
  by (auto simp: holding_def split: if_splits)

lemma spin_inv_init: "spin_inv smp_init"
  by (simp add: spin_inv_def smp_init_def owns_def)

text \<open>Steps that touch neither the locks nor the ownership keep the invariant.\<close>

lemma spin_inv_cong:
  assumes "\<And>l. locked (locks t l) = locked (locks s l)" "\<And>c l. owns t c l = owns s c l"
    and "\<And>l c. lpc t c = Got l \<or> lpc t c = Releasing l \<Longrightarrow> lcpu (locks t l) = None" "spin_inv s"
  shows "spin_inv t"
  using assms unfolding spin_inv_def by simp

lemma spin_inv_unique: "spin_inv s \<Longrightarrow> owns s c l \<Longrightarrow> owns s d l \<Longrightarrow> c = d"
  unfolding spin_inv_def by metis

lemma spin_inv_pc: "spin_inv s \<Longrightarrow> lpc s c = Got l \<or> lpc s c = Releasing l \<Longrightarrow> lcpu (locks s l) = None"
  unfolding spin_inv_def by blast

lemmas spin_inv_pcs = spin_inv_pc [OF _ disjI1] spin_inv_pc [OF _ disjI2]

lemma acquire_enter_eq:
  "acquire_enter c l s = Some t \<Longrightarrow> t = set_lpc c (Spinning l) (pushcli c s)"
  by (auto simp: acquire_enter_def Let_def bind_Some_iff split: if_splits)

lemma release_enter_eq:
  "release_enter c l s = Some t \<Longrightarrow> lcpu (locks s l) = Some c \<and> locked (locks s l) \<and>
     t = set_lpc c (Releasing l) (upd_lock l (\<lambda>k. k\<lparr>pcs := (pcs k)[0 := 0], lcpu := None\<rparr>) s)"
  by (auto simp: release_enter_def bind_Some_iff split: if_splits dest!: holding_SomeD)

lemma release_exit_eq:
  "release_exit c l s = Some t \<Longrightarrow> \<exists>f. t = upd_cpu c f (set_lpc c Outside (upd_lock l (\<lambda>k. k\<lparr>locked := False\<rparr>) s))"
  by (auto simp: release_exit_def popcli_def split: if_splits)

lemma spin_inv_free: "spin_inv s \<Longrightarrow> \<not> locked (locks s l) \<Longrightarrow> \<not> owns s c l"
  by (simp add: spin_inv_def)

lemma spin_inv_owner: "spin_inv s \<Longrightarrow> locked (locks s l) \<Longrightarrow> \<exists>c. \<forall>d. owns s d l \<longleftrightarrow> d = c"
  by (simp add: spin_inv_def)

lemma spin_step_inv: "spin_step s t \<Longrightarrow> spin_inv s \<Longrightarrow> spin_inv t"
proof (induction rule: spin_step.induct)
  case (enter s c l t)
  have t: "t = set_lpc c (Spinning l) (pushcli c s)" using enter(2) by (rule acquire_enter_eq)
  show ?case
    by (rule spin_inv_cong [OF _ _ _ enter(3)])
      (use enter(1) spin_inv_pcs [OF enter(3)] in \<open>auto simp: t owns_def smp_defs pushcli_def split: if_splits\<close>)
next
  case (xchg s c l ok t)
  show ?case
  proof (cases "locked (locks s l)")
    case True
    with xchg(2) have t: "t = upd_lock l (\<lambda>k. k\<lparr>locked := True\<rparr>) s"
      by (simp add: acquire_xchg_def Let_def)
    show ?thesis
      by (rule spin_inv_cong [OF _ _ _ xchg(3)])
        (use True spin_inv_pcs [OF xchg(3)] in \<open>auto simp: t owns_def smp_defs\<close>)
  next
    case False
    with xchg(2) have t: "t = set_lpc c (Got l) (upd_lock l (\<lambda>k. k\<lparr>locked := True\<rparr>) s)"
      by (simp add: acquire_xchg_def Let_def)
    have own: "owns t d k \<longleftrightarrow> (if k = l then d = c else owns s d k)" for d k
      using xchg(1) spin_inv_free [OF xchg(3) False] by (auto simp: t owns_def smp_defs)
    have free: "lcpu (locks s l) = None"
      using spin_inv_free [OF xchg(3) False] by (metis not_None_eq owns_def)
    have "lcpu (locks t k) = None" if "lpc t d = Got k \<or> lpc t d = Releasing k" for d k
      using that free spin_inv_pc [OF xchg(3), of d k] by (cases "d = c") (auto simp: t smp_defs)
    then show ?thesis
      using spin_inv_free [OF xchg(3)] spin_inv_owner [OF xchg(3)]
      unfolding spin_inv_def own by (auto simp: t smp_defs)
  qed
next
  case (got s c l stack)
  have free: "lcpu (locks s l) = None" using got spin_inv_pc by blast
  have mine: "owns s c l" using got(1) by (simp add: owns_def)
  have s_l: "owns s d l \<longleftrightarrow> d = c" for d using spin_inv_unique [OF got(2) mine] mine by blast
  have other: "lpc s d \<noteq> Got l \<and> lpc s d \<noteq> Releasing l" if "d \<noteq> c" for d
    using s_l [of d] that by (simp add: owns_def)
  have own: "owns (acquire_exit stack c l s) d k \<longleftrightarrow> owns s d k" for d k
    using got(1) other [of d] s_l [of d]
    by (cases "k = l"; cases "d = c") (auto simp: acquire_exit_def owns_def smp_defs)
  show ?case
  proof (rule spin_inv_cong [OF _ own _ got(2)])
    fix k d
    assume pc: "lpc (acquire_exit stack c l s) d = Got k \<or> lpc (acquire_exit stack c l s) d = Releasing k"
    then have "d \<noteq> c" by (auto simp: acquire_exit_def smp_defs)
    with pc other [of d] have "k \<noteq> l" and "lpc s d = Got k \<or> lpc s d = Releasing k"
      by (auto simp: acquire_exit_def smp_defs)
    with spin_inv_pc [OF got(2)] show "lcpu (locks (acquire_exit stack c l s) k) = None"
      by (simp add: acquire_exit_def smp_defs)
  qed (simp add: acquire_exit_def smp_defs)
next
  case (drop s c l t)
  note t = release_enter_eq [OF drop(2)]
  then have mine: "owns s c l" by (simp add: owns_def)
  have s_l: "owns s d l \<longleftrightarrow> d = c" for d using spin_inv_unique [OF drop(3) mine] mine by blast
  have own: "owns t d k \<longleftrightarrow> owns s d k" for d k
    using drop(1) t s_l [of d] by (cases "k = l"; cases "d = c") (auto simp: owns_def smp_defs)
  show ?case
  proof (rule spin_inv_cong [OF _ own _ drop(3)])
    fix k d
    assume "lpc t d = Got k \<or> lpc t d = Releasing k"
    then show "lcpu (locks t k) = None"
      using t spin_inv_pc [OF drop(3), of d k] by (cases "d = c") (auto simp: smp_defs)
  qed (use t in \<open>simp add: smp_defs\<close>)
next
  case (clear s c l t)
  obtain f where t: "t = upd_cpu c f (set_lpc c Outside (upd_lock l (\<lambda>k. k\<lparr>locked := False\<rparr>) s))"
    using release_exit_eq [OF clear(2)] by blast
  have mine: "owns s c l" using clear(1) by (simp add: owns_def)
  have s_l: "owns s d l \<longleftrightarrow> d = c" for d using spin_inv_unique [OF clear(3) mine] mine by blast
  have free: "lcpu (locks s l) = None" using clear(1,3) spin_inv_pc by blast
  have own: "owns t d k \<longleftrightarrow> k \<noteq> l \<and> owns s d k" for d k
    using clear(1) free s_l [of d] by (cases "k = l"; cases "d = c") (auto simp: t owns_def smp_defs)
  have "lcpu (locks t k) = None" if "lpc t d = Got k \<or> lpc t d = Releasing k" for d k
    using that spin_inv_pc [OF clear(3), of d k] by (cases "d = c") (auto simp: t smp_defs)
  then show ?case
    using spin_inv_free [OF clear(3)] spin_inv_owner [OF clear(3)]
    unfolding spin_inv_def own by (auto simp: t smp_defs)
next
  case (push s c)
  show ?case
    by (rule spin_inv_cong [OF _ _ _ push(2)])
      (use spin_inv_pcs [OF push(2)] in \<open>auto simp: owns_def smp_defs pushcli_def\<close>)
next
  case (pop s c t)
  then show ?case
    by (intro spin_inv_cong [OF _ _ _ pop(3)])
      (use spin_inv_pcs [OF pop(3)] in \<open>auto simp: owns_def smp_defs popcli_def split: if_splits\<close>)
qed

lemma spin_reachable_inv: "spin_reachable s \<Longrightarrow> spin_inv s"
  by (induction rule: spin_reachable.induct) (auto intro: spin_inv_init spin_step_inv)

section \<open>The contract of a lock\<close>

locale lock_ops =
  fixes acq rel :: "'l \<Rightarrow> 's \<Rightarrow> 's option"
    and avail holds :: "'l \<Rightarrow> 's \<Rightarrow> bool"
    and inv :: "'s \<Rightarrow> bool"
  assumes acq_avail: "inv s \<Longrightarrow> avail l s \<Longrightarrow>
      \<exists>t. acq l s = Some t \<and> inv t \<and> holds l t \<and> (\<forall>k. k \<noteq> l \<longrightarrow> holds k t = holds k s)"
    and acq_held: "inv s \<Longrightarrow> holds l s \<Longrightarrow> acq l s = None"
    and rel_held: "inv s \<Longrightarrow> holds l s \<Longrightarrow>
      \<exists>t. rel l s = Some t \<and> inv t \<and> avail l t \<and> \<not> holds l t \<and> (\<forall>k. k \<noteq> l \<longrightarrow> holds k t = holds k s)"
    and rel_not_held: "inv s \<Longrightarrow> \<not> holds l s \<Longrightarrow> rel l s = None"
begin

lemma avail_not_held: "inv s \<Longrightarrow> avail l s \<Longrightarrow> \<not> holds l s"
  using acq_avail acq_held by fastforce

text \<open>A critical section whose body leaves the locks alone gives every lock back.\<close>

lemma critical_section:
  assumes "inv s" and "avail l s"
    and body: "\<And>t. inv t \<Longrightarrow> holds l t \<Longrightarrow>
      \<exists>u. body t = Some u \<and> inv u \<and> (\<forall>k. holds k u = holds k t)"
  shows "\<exists>u. Option.bind (Option.bind (acq l s) body) (rel l) = Some u \<and> inv u \<and> avail l u \<and>
           (\<forall>k. holds k u = holds k s)"
proof -
  obtain t where t: "acq l s = Some t" "inv t" "holds l t" "\<forall>k. k \<noteq> l \<longrightarrow> holds k t = holds k s"
    using acq_avail [OF assms(1,2)] by blast
  obtain u where u: "body t = Some u" "inv u" "\<forall>k. holds k u = holds k t"
    using body [OF t(2,3)] by blast
  then have "holds l u" using t by simp
  with rel_held [OF u(2)] obtain v where v: "rel l u = Some v" "inv v" "avail l v" "\<not> holds l v"
      "\<forall>k. k \<noteq> l \<longrightarrow> holds k v = holds k u" by blast
  have "\<not> holds l s" using avail_not_held assms by blast
  then have "holds k v = holds k s" for k using t u v by (cases "k = l") auto
  with t u v show ?thesis by simp
qed

end

interpretation client: lock_ops acquire release "\<lambda>l s. l \<notin> set (held s)"
    "\<lambda>l s. l \<in> set (held s)" "\<lambda>s. distinct (held s)"
  by unfold_locales (auto simp: acquire_def release_def)

text \<open>What one CPU of the detailed level relies on between its own lock operations.\<close>

definition cpu_inv :: "nat \<Rightarrow> smp \<Rightarrow> bool" where
  "cpu_inv c s \<longleftrightarrow> spin_inv s \<and> lpc s c = Outside \<and>
     (ncli (cpus s c) > 0 \<longrightarrow> \<not> eflags_IF (cpus s c)) \<and>
     finite {l. lcpu (locks s l) = Some c} \<and>
     int (card {l. lcpu (locks s l) = Some c}) \<le> ncli (cpus s c)"

lemma cpu_inv_locked: "cpu_inv c s \<Longrightarrow> lcpu (locks s l) = Some c \<Longrightarrow> locked (locks s l)"
  unfolding cpu_inv_def using spin_inv_free owns_def by metis

lemma spin_acquire_eq:
  assumes "cpu_inv c s" and "\<not> locked (locks s l)"
  shows "spin_acquire stack c l s =
    Some (acquire_exit stack c l (set_lpc c (Got l) (upd_lock l (\<lambda>k. k\<lparr>locked := True\<rparr>)
      (set_lpc c (Spinning l) (pushcli c s)))))"
proof -
  have "holding c l (pushcli c s) = Some False"
    using assms(2) by (simp add: holding_def pushcli_def smp_defs)
  then show ?thesis
    using assms(2) by (simp add: spin_acquire_def acquire_enter_def acquire_xchg_def Let_def
      pushcli_def smp_defs)
qed

lemma spin_acquire_inv:
  assumes "cpu_inv c s" and "\<not> locked (locks s l)" and "spin_acquire stack c l s = Some t"
  shows "spin_inv t"
proof -
  let ?a = "set_lpc c (Spinning l) (pushcli c s)"
  let ?b = "set_lpc c (Got l) (upd_lock l (\<lambda>k. k\<lparr>locked := True\<rparr>) ?a)"
  have free: "\<not> locked (locks ?a l)" using assms(2) by (simp add: pushcli_def smp_defs)
  have "holding c l (pushcli c s) = Some False"
    using assms(2) by (simp add: holding_def pushcli_def smp_defs)
  then have enter: "acquire_enter c l s = Some ?a" by (simp add: acquire_enter_def Let_def)
  have "spin_inv ?a"
    using spin_step_inv [OF spin_step.enter [OF _ enter]] assms(1) by (simp add: cpu_inv_def)
  moreover have "spin_step ?a ?b"
    by (rule spin_step.xchg [of _ c l True]) (use free in \<open>simp_all add: acquire_xchg_def set_lpc_def Let_def\<close>)
  moreover have "spin_step ?b (acquire_exit stack c l ?b)"
    by (rule spin_step.got) (simp add: set_lpc_def)
  ultimately show ?thesis
    using assms spin_acquire_eq [OF assms(1,2), of stack] by (auto dest: spin_step_inv)
qed

lemma held_set_insert:
  "{k. lcpu (locks (acquire_exit stack c l s) k) = Some c} = insert l {k. lcpu (locks s k) = Some c}"
  by (auto simp: acquire_exit_def smp_defs)

lemma spin_acquire_cpu_inv:
  assumes "cpu_inv c s" and "\<not> locked (locks s l)" and "spin_acquire stack c l s = Some t"
  shows "cpu_inv c t"
proof -
  have t: "t = acquire_exit stack c l (set_lpc c (Got l) (upd_lock l (\<lambda>k. k\<lparr>locked := True\<rparr>)
      (set_lpc c (Spinning l) (pushcli c s))))"
    using assms spin_acquire_eq [OF assms(1,2), of stack] by simp
  have same: "{k. lcpu (locks (set_lpc c (Got l) (upd_lock l (\<lambda>k. k\<lparr>locked := True\<rparr>)
      (set_lpc c (Spinning l) (pushcli c s)))) k) = Some c} = {k. lcpu (locks s k) = Some c}"
    by (auto simp: smp_defs pushcli_def)
  have new: "lcpu (locks s l) \<noteq> Some c" using cpu_inv_locked [OF assms(1)] assms(2) by blast
  have "card (insert l {k. lcpu (locks s k) = Some c}) = Suc (card {k. lcpu (locks s k) = Some c})"
    using assms(1) new by (simp add: cpu_inv_def)
  then show ?thesis
    using assms(1) spin_acquire_inv [OF assms]
    unfolding cpu_inv_def t held_set_insert same
    by (simp add: acquire_exit_def smp_defs pushcli_def)
qed

lemma spin_release_step:
  assumes "cpu_inv c s" and "lcpu (locks s l) = Some c"
  shows "\<exists>t. spin_release c l s = Some t \<and> cpu_inv c t \<and> \<not> locked (locks t l) \<and>
           (\<forall>k. lcpu (locks t k) = Some c \<longleftrightarrow> k \<noteq> l \<and> lcpu (locks s k) = Some c)"
proof -
  let ?H = "{k. lcpu (locks s k) = Some c}"
  have fin: "finite ?H" and "l \<in> ?H" using assms by (simp_all add: cpu_inv_def)
  then have card: "card ?H = Suc (card (?H - {l}))" by (metis card_Suc_Diff1)
  have pos: "1 \<le> ncli (cpus s c)" using assms(1) card by (simp add: cpu_inv_def)
  then have IF: "\<not> eflags_IF (cpus s c)" using assms(1) by (simp add: cpu_inv_def)
  have lk: "locked (locks s l)" using cpu_inv_locked assms by blast
  let ?r = "set_lpc c (Releasing l) (upd_lock l (\<lambda>k. k\<lparr>pcs := (pcs k)[0 := 0], lcpu := None\<rparr>) s)"
  let ?q = "set_lpc c Outside (upd_lock l (\<lambda>k. k\<lparr>locked := False\<rparr>) ?r)"
  let ?t = "upd_cpu c (\<lambda>k. k\<lparr>ncli := ncli k - 1, eflags_IF := (ncli k - 1 = 0 \<and> intena k)\<rparr>) ?q"
  have enter: "release_enter c l s = Some ?r"
    using lk IF assms(2) by (simp add: release_enter_def holding_def)
  have exit: "release_exit c l ?r = Some ?t"
    using pos IF by (simp add: release_exit_def popcli_def smp_defs)
  have "spin_step s ?r" using spin_step.drop [OF _ enter] assms(1) by (simp add: cpu_inv_def)
  moreover have "spin_step ?r ?t" by (rule spin_step.clear [OF _ exit]) (simp add: set_lpc_def)
  ultimately have inv: "spin_inv ?t" using assms(1) spin_step_inv by (auto simp: cpu_inv_def)
  have H: "{k. lcpu (locks ?t k) = Some c} = ?H - {l}" by (auto simp: smp_defs)
  have "cpu_inv c ?t"
    using inv fin card assms(1) unfolding cpu_inv_def H by (simp add: smp_defs)
  moreover have "spin_release c l s = Some ?t" using enter exit by (simp add: spin_release_def)
  moreover have "\<not> locked (locks ?t l)" by (simp add: smp_defs)
  ultimately show ?thesis using H by (intro exI [of _ ?t]) blast
qed

interpretation detailed: lock_ops "spin_acquire stack c" "spin_release c"
    "\<lambda>l s. \<not> locked (locks s l)" "\<lambda>l s. lcpu (locks s l) = Some c" "cpu_inv c"
  for stack c
proof unfold_locales
  fix l s
  assume s: "cpu_inv c s" "\<not> locked (locks s l)"
  note eq = spin_acquire_eq [OF s, of stack]
  from spin_acquire_cpu_inv [OF s eq] eq
  show "\<exists>t. spin_acquire stack c l s = Some t \<and> cpu_inv c t \<and> lcpu (locks t l) = Some c \<and>
      (\<forall>k. k \<noteq> l \<longrightarrow> (lcpu (locks t k) = Some c) = (lcpu (locks s k) = Some c))"
    by (auto simp: acquire_exit_def smp_defs pushcli_def)
next
  fix l s
  assume s: "cpu_inv c s" "lcpu (locks s l) = Some c"
  have "holding c l (pushcli c s) = Some True"
    using s cpu_inv_locked [OF s] by (simp add: holding_def pushcli_def smp_defs)
  then show "spin_acquire stack c l s = None"
    by (simp add: spin_acquire_def acquire_enter_def Let_def)
next
  fix l s
  assume "cpu_inv c s" "lcpu (locks s l) = Some c"
  from spin_release_step [OF this]
  show "\<exists>t. spin_release c l s = Some t \<and> cpu_inv c t \<and> \<not> locked (locks t l) \<and>
      lcpu (locks t l) \<noteq> Some c \<and>
      (\<forall>k. k \<noteq> l \<longrightarrow> (lcpu (locks t k) = Some c) = (lcpu (locks s k) = Some c))"
    by blast
next
  fix l s
  assume "cpu_inv c s" "lcpu (locks s l) \<noteq> Some c"
  then show "spin_release c l s = None"
    by (auto simp: spin_release_def release_enter_def holding_def)
qed

section \<open>Properties of spinlock.c\<close>

text \<open>C4: Mutual exclusion. In every state any interleaving of the CPUs' lock code can
  reach, a lock whose \<open>xchg\<close> was won and that is not yet cleared belongs to exactly one CPU,
  and its \<open>locked\<close> word is set; so two CPUs are never both inside the critical section.\<close>
theorem spinlock_mutual_exclusion:
  assumes "spin_reachable s" and "owns s c l"
  shows "locked (locks s l) \<and> (\<forall>d. owns s d l \<longrightarrow> d = c)"
  using spin_reachable_inv [OF assms(1)] assms(2) spin_inv_free spin_inv_unique by blast

theorem spinlock_mutual_exclusion_witness:
  "\<exists>s. spin_reachable s \<and> owns s 0 LKmem \<and> locked (locks s LKmem) \<and> \<not> owns s 1 LKmem"
proof -
  define a where "a = set_lpc 0 (Spinning LKmem) (pushcli 0 smp_init)"
  define b where "b = set_lpc 0 (Got LKmem) (upd_lock LKmem (\<lambda>k. k\<lparr>locked := True\<rparr>) a)"
  have a_free: "\<not> locked (locks a LKmem)"
    by (simp add: a_def pushcli_def smp_defs smp_init_def)
  have "acquire_enter 0 LKmem smp_init = Some a"
    by (simp add: a_def acquire_enter_def holding_def pushcli_def smp_defs smp_init_def)
  then have 1: "spin_step smp_init a"
    by (rule spin_step.enter [rotated]) (simp add: smp_init_def)
  have 2: "spin_step a b"
    by (rule spin_step.xchg [of _ 0 LKmem True])
      (use a_free in \<open>simp_all add: a_def set_lpc_def acquire_xchg_def b_def Let_def\<close>)
  have r: "spin_reachable b"
    by (rule spin_reachable.step [OF spin_reachable.step [OF spin_reachable.start 1] 2])
  have own: "owns b 0 LKmem" by (simp add: owns_def b_def set_lpc_def)
  from spinlock_mutual_exclusion [OF r own]
  have "locked (locks b LKmem)" and "owns b 1 LKmem \<Longrightarrow> (1 :: nat) = 0" by blast+
  with r own show ?thesis by (intro exI [of _ b]) auto
qed

text \<open>C14: \<open>acquire\<close> and \<open>release\<close> pair up. A CPU that takes a free lock and releases it
  again gets its interrupt flag and its \<open>pushcli\<close> depth back, the lock is free, and taking
  the lock twice or releasing it without holding it panics.\<close>
theorem acquire_release_restores:
  assumes "cpu_inv c s" and "\<not> locked (locks s l)"
  shows "\<exists>t u. spin_acquire stack c l s = Some t \<and> holding c l t = Some True \<and>
           \<not> eflags_IF (cpus t c) \<and> spin_acquire stack' c l t = None \<and>
           spin_release c l t = Some u \<and> \<not> locked (locks u l) \<and>
           ncli (cpus u c) = ncli (cpus s c) \<and> eflags_IF (cpus u c) = eflags_IF (cpus s c) \<and>
           spin_release c l u = None"
proof -
  let ?t = "acquire_exit stack c l (set_lpc c (Got l) (upd_lock l (\<lambda>k. k\<lparr>locked := True\<rparr>)
      (set_lpc c (Spinning l) (pushcli c s))))"
  have acq: "spin_acquire stack c l s = Some ?t" by (rule spin_acquire_eq [OF assms])
  have inv: "cpu_inv c ?t" by (rule spin_acquire_cpu_inv [OF assms acq])
  have hold: "holding c l ?t = Some True" "\<not> eflags_IF (cpus ?t c)" "lcpu (locks ?t l) = Some c"
    by (simp_all add: holding_def acquire_exit_def smp_defs pushcli_def)
  obtain u where u: "spin_release c l ?t = Some u" "cpu_inv c u" "\<not> locked (locks u l)"
      "lcpu (locks u l) \<noteq> Some c"
    using spin_release_step [OF inv hold(3)] by blast
  have "0 \<le> ncli (cpus s c)" "ncli (cpus s c) > 0 \<longrightarrow> \<not> eflags_IF (cpus s c)"
    using assms(1) by (auto simp: cpu_inv_def)
  then have "ncli (cpus u c) = ncli (cpus s c) \<and> eflags_IF (cpus u c) = eflags_IF (cpus s c)"
    using u(1) by (auto simp: spin_release_def release_enter_def release_exit_def holding_def
      popcli_def acquire_exit_def smp_defs pushcli_def split: if_splits)
  with acq hold u detailed.acq_held [OF inv hold(3)] detailed.rel_not_held [OF u(2,4)]
  show ?thesis by blast
qed

theorem acquire_release_restores_witness:
  "cpu_inv 0 smp_init \<and> (\<exists>t. spin_acquire [] 0 LKmem smp_init = Some t \<and> holding 0 LKmem t = Some True)"
proof -
  have inv: "cpu_inv 0 smp_init"
    using spin_inv_init by (simp add: cpu_inv_def smp_init_def)
  have free: "\<not> locked (locks smp_init LKmem)" by (simp add: smp_init_def)
  show ?thesis using inv acquire_release_restores [OF inv free, of "[]" "[]"] by blast
qed

end
