(* ===== verification/Kalloc.thy ===== *)
theory Kalloc
  imports Spinlock
begin

text \<open>
  The physical page allocator, \<^verbatim>\<open>src/xv6/kalloc.c\<close>. The free pages form a list threaded
  through their own first words, so the state is the machine memory, the head pointer and
  \<open>use_lock\<close>; \<open>kend\<close> is the address \<^verbatim>\<open>end\<close> the linker provides. \<open>kmem_inv\<close>
  relates the memory to the list of free pages, and \<open>page_allocator\<close> is the contract
  the clients of the allocator use.
\<close>

section \<open>State and operations\<close>

record kmem = kcpu +
  mem :: memory
  kend :: u32
  use_lock :: bool
  freelist :: u32

definition kfree :: "u32 \<Rightarrow> 'z kmem_scheme \<Rightarrow> 'z kmem_scheme option" where
  "kfree v s =
     (if v mod PGSIZE \<noteq> 0 \<or> v < kend s \<or> V2P v \<ge> PHYSTOP then None
      else do {
        let s = s\<lparr>mem := memset (mem s) v 1 PGSIZE\<rparr>;
        s \<leftarrow> (if use_lock s then acquire LKmem s else Some s);
        let s = s\<lparr>mem := store32 (mem s) v (freelist s)\<rparr>;
        let s = s\<lparr>freelist := v\<rparr>;
        if use_lock s then release LKmem s else Some s })"

definition kalloc :: "'z kmem_scheme \<Rightarrow> (u32 \<times> 'z kmem_scheme) option" where
  "kalloc s = do {
     s \<leftarrow> (if use_lock s then acquire LKmem s else Some s);
     let r = freelist s;
     let s = (if r \<noteq> 0 then s\<lparr>freelist := load32 (mem s) r\<rparr> else s);
     s \<leftarrow> (if use_lock s then release LKmem s else Some s);
     Some (r, s) }"

partial_function (option) freerange_loop :: "u32 \<Rightarrow> u32 \<Rightarrow> 'z kmem_scheme \<Rightarrow> 'z kmem_scheme option" where
  "freerange_loop p vend s =
     (if p + PGSIZE \<le> vend then do { s \<leftarrow> kfree p s; freerange_loop (p + PGSIZE) vend s }
      else Some s)"

definition freerange :: "u32 \<Rightarrow> u32 \<Rightarrow> 'z kmem_scheme \<Rightarrow> 'z kmem_scheme option" where
  "freerange vstart vend s = freerange_loop (PGROUNDUP vstart) vend s"

definition kinit1 :: "u32 \<Rightarrow> u32 \<Rightarrow> 'z kmem_scheme \<Rightarrow> 'z kmem_scheme option" where
  "kinit1 vstart vend s = freerange vstart vend (s\<lparr>use_lock := False\<rparr>)"

definition kinit2 :: "u32 \<Rightarrow> u32 \<Rightarrow> 'z kmem_scheme \<Rightarrow> 'z kmem_scheme option" where
  "kinit2 vstart vend s = do {
     s \<leftarrow> freerange vstart vend s;
     Some (s\<lparr>use_lock := True\<rparr>) }"

section \<open>The invariant\<close>

definition kpage :: "'z kmem_scheme \<Rightarrow> u32 \<Rightarrow> bool" where
  "kpage s v \<longleftrightarrow> page_aligned v \<and> kend s \<le> v \<and> V2P v < PHYSTOP"

fun chain :: "memory \<Rightarrow> u32 \<Rightarrow> u32 list \<Rightarrow> bool" where
  "chain m h [] \<longleftrightarrow> h = 0"
| "chain m h (p # ps) \<longleftrightarrow> h = p \<and> p \<noteq> 0 \<and> chain m (load32 m p) ps"

definition kmem_inv :: "'z kmem_scheme \<Rightarrow> u32 list \<Rightarrow> bool" where
  "kmem_inv s fl \<longleftrightarrow>
     chain (mem s) (freelist s) fl \<and> distinct fl \<and> (\<forall>p\<in>set fl. kpage s p) \<and>
     (use_lock s \<longrightarrow> LKmem \<notin> set (held s))"

section \<open>Bytes of a page\<close>

definition in_page :: "u32 \<Rightarrow> u32 \<Rightarrow> bool" where
  "in_page p a \<longleftrightarrow> PGROUNDDOWN a = p"

lemma mod_PGSIZE: "v mod PGSIZE = v AND 0xFFF"
  using word_mod_2p_is_mask [where n = 12 and x = v]
  by (simp add: PGSIZE_def mask_eq_exp_minus_1)

lemma mod_PGSIZE_aligned [simp]: "v mod PGSIZE = 0 \<longleftrightarrow> page_aligned v"
  by (simp add: mod_PGSIZE page_aligned_def)

lemma in_page_iff: "page_aligned p \<Longrightarrow> in_page p a \<longleftrightarrow> a - p < 4096"
proof
  assume p: "page_aligned p" and "in_page p a"
  then have "a = p + (a AND 0xFFF)" using page_split [of a] by (simp add: in_page_def)
  then have "a - p = a AND 0xFFF" by (metis add_diff_cancel_left')
  then show "a - p < 4096" by simp
next
  assume "page_aligned p" and "a - p < 4096"
  then show "in_page p a" using PGROUNDDOWN_offset [of p "a - p"] by (simp add: in_page_def)
qed

lemma in_page_offset [simp]: "page_aligned p \<Longrightarrow> d < 4096 \<Longrightarrow> in_page p (p + d)"
  by (simp add: in_page_def PGROUNDDOWN_offset)

lemma in_page_self [simp]: "page_aligned p \<Longrightarrow> in_page p p"
  using in_page_offset [of p 0] by simp

lemma in_page_unique: "in_page p a \<Longrightarrow> in_page q a \<Longrightarrow> p = q"
  by (simp add: in_page_def)

text \<open>A 32-bit word at an aligned offset lies in one page.\<close>

definition word_in :: "u32 \<Rightarrow> u32 \<Rightarrow> bool" where
  "word_in p a \<longleftrightarrow> (\<forall>i<4. in_page p (a + i))"

lemma word_in_offset:
  assumes "page_aligned p" and "d \<le> 4092"
  shows "word_in p (p + d)"
  unfolding word_in_def
proof (intro allI impI)
  fix i :: u32
  assume "i < 4"
  with assms(2) have "d + i < 4096" by unat_arith
  then show "in_page p (p + d + i)" using assms(1) by (simp add: add.assoc)
qed

lemma word_in_self [simp]: "page_aligned p \<Longrightarrow> word_in p p"
  using word_in_offset [of p 0] by simp

lemma load32_page_cong:
  assumes "word_in p a" and "\<And>b. in_page p b \<Longrightarrow> m b = m' b"
  shows "load32 m a = load32 m' a"
proof -
  have "m (a + i) = m' (a + i)" if "i < 4" for i
    using assms that by (simp add: word_in_def)
  from this [of 0] this [of 1] this [of 2] this [of 3] show ?thesis by (simp add: load32_def)
qed

text \<open>Writes inside one page leave the words of every other page alone.\<close>

lemma load32_other_page:
  assumes "word_in p a" and "p \<noteq> q" and "\<And>b. \<not> in_page q b \<Longrightarrow> m b = m' b"
  shows "load32 m a = load32 m' a"
  using assms by (intro load32_page_cong) (auto dest: in_page_unique)

lemma memset_page: "page_aligned p \<Longrightarrow> memset m p c PGSIZE a = (if in_page p a then ucast c else m a)"
  by (simp add: memset_apply in_page_iff PGSIZE_def)

lemma store32_in_page: "word_in p a \<Longrightarrow> \<not> in_page p b \<Longrightarrow> store32 m a w b = m b"
proof -
  assume a: "word_in p a" and b: "\<not> in_page p b"
  have "b \<noteq> a + i" if "i < 4" for i using a b that by (auto simp: word_in_def)
  from this [of 0] this [of 1] this [of 2] this [of 3] show ?thesis by (simp add: store32_apply)
qed

section \<open>The free list under the operations\<close>

lemma kpage_aligned [dest]: "kpage s p \<Longrightarrow> page_aligned p"
  by (simp add: kpage_def)

lemma kpage_nonzero: "kpage s p \<Longrightarrow> p \<noteq> 0"
  by (auto simp: kpage_def V2P_def layout_defs)

lemma chain_cong:
  "\<forall>p\<in>set ps. load32 m p = load32 m' p \<Longrightarrow> chain m h ps = chain m' h ps"
  by (induction ps arbitrary: h) auto

lemma kmem_inv_cong:
  assumes "kmem_inv s fl" and "freelist t = freelist s" "kend t = kend s" "use_lock t = use_lock s"
    and "held t = held s" and "\<And>p. p \<in> set fl \<Longrightarrow> load32 (mem t) p = load32 (mem s) p"
  shows "kmem_inv t fl"
proof -
  have "chain (mem t) (freelist s) fl = chain (mem s) (freelist s) fl"
    by (rule chain_cong) (simp add: assms(6))
  with assms show ?thesis by (auto simp: kmem_inv_def kpage_def)
qed

lemma kalloc_empty: "kmem_inv s [] \<Longrightarrow> kalloc s = Some (0, s)"
  by (auto simp: kmem_inv_def kalloc_def acquire_def release_def Let_def)

lemma kalloc_eq: "kmem_inv s (p # ps) \<Longrightarrow> kalloc s = Some (p, s\<lparr>freelist := load32 (mem s) p\<rparr>)"
  by (auto simp: kmem_inv_def kalloc_def acquire_def release_def Let_def)

lemma kalloc_inv: "kmem_inv s (p # ps) \<Longrightarrow> kmem_inv (s\<lparr>freelist := load32 (mem s) p\<rparr>) ps"
  by (auto simp: kmem_inv_def kpage_def)

definition kfree_mem :: "memory \<Rightarrow> u32 \<Rightarrow> u32 \<Rightarrow> memory" where
  "kfree_mem m v nxt = store32 (memset m v 1 PGSIZE) v nxt"

lemma kfree_mem_other: "page_aligned v \<Longrightarrow> \<not> in_page v a \<Longrightarrow> kfree_mem m v nxt a = m a"
  by (simp add: kfree_mem_def store32_in_page [of v v] memset_page)

lemma kfree_mem_load_other:
  "page_aligned v \<Longrightarrow> word_in p a \<Longrightarrow> p \<noteq> v \<Longrightarrow> load32 (kfree_mem m v nxt) a = load32 m a"
  by (rule load32_other_page [of p a v]) (simp_all add: kfree_mem_other)

lemma kfree_eq:
  "kpage s v \<Longrightarrow> (use_lock s \<longrightarrow> LKmem \<notin> set (held s)) \<Longrightarrow>
   kfree v s = Some (s\<lparr>mem := kfree_mem (mem s) v (freelist s), freelist := v\<rparr>)"
  by (auto simp: kfree_def kpage_def acquire_def release_def Let_def kfree_mem_def)

lemma kfree_bad: "\<not> kpage s v \<Longrightarrow> kfree v s = None"
  by (auto simp: kfree_def kpage_def)

lemma kfree_inv:
  assumes "kmem_inv s fl" and "kpage s v" and "v \<notin> set fl"
  shows "kmem_inv (s\<lparr>mem := kfree_mem (mem s) v (freelist s), freelist := v\<rparr>) (v # fl)"
proof -
  have v: "page_aligned v" "v \<noteq> 0" using assms(2) kpage_nonzero by blast+
  have "load32 (kfree_mem (mem s) v (freelist s)) p = load32 (mem s) p" if "p \<in> set fl" for p
    using that assms v by (intro kfree_mem_load_other [of v p]) (auto simp: kmem_inv_def kpage_def)
  then have "chain (kfree_mem (mem s) v (freelist s)) (freelist s) fl = chain (mem s) (freelist s) fl"
    by (intro chain_cong) blast
  with assms v show ?thesis by (auto simp: kmem_inv_def kpage_def kfree_mem_def)
qed

section \<open>The contract of the page allocator\<close>

locale page_allocator =
  fixes alloc :: "'s \<Rightarrow> ('p \<times> 's) option"
    and free :: "'p \<Rightarrow> 's \<Rightarrow> 's option"
    and null :: 'p
    and valid :: "'s \<Rightarrow> 'p \<Rightarrow> bool"
    and repr :: "'s \<Rightarrow> 'p list \<Rightarrow> bool"
  assumes alloc_Nil: "repr s [] \<Longrightarrow> alloc s = Some (null, s)"
    and alloc_Cons: "repr s (p # ps) \<Longrightarrow> \<exists>t. alloc s = Some (p, t) \<and> repr t ps \<and> valid t = valid s"
    and free_valid: "repr s ps \<Longrightarrow> valid s p \<Longrightarrow> p \<notin> set ps \<Longrightarrow>
      \<exists>t. free p s = Some t \<and> repr t (p # ps) \<and> valid t = valid s"
    and free_invalid: "\<not> valid s p \<Longrightarrow> free p s = None"
    and repr_distinct: "repr s ps \<Longrightarrow> distinct ps"
    and repr_valid: "repr s ps \<Longrightarrow> p \<in> set ps \<Longrightarrow> valid s p \<and> p \<noteq> null"
begin

lemma alloc_returns: "repr s ps \<Longrightarrow> \<exists>p t. alloc s = Some (p, t)"
  using alloc_Nil alloc_Cons by (cases ps) blast+

lemma alloc_null_iff: "repr s ps \<Longrightarrow> alloc s = Some (p, t) \<Longrightarrow> p = null \<longleftrightarrow> ps = []"
  using alloc_Nil alloc_Cons repr_valid by (cases ps) fastforce+

text \<open>A page handed out is not free any more, and freeing it makes it the next one.\<close>

lemma alloc_fresh:
  assumes "repr s ps" and "alloc s = Some (p, t)" and "p \<noteq> null"
  shows "\<exists>qs. ps = p # qs \<and> repr t qs \<and> p \<notin> set qs \<and> valid t p"
proof -
  obtain q qs where ps: "ps = q # qs" using assms alloc_null_iff by (cases ps) auto
  with alloc_Cons [of s q qs] assms have "p = q" "repr t qs" "valid t = valid s" by auto
  with ps repr_distinct repr_valid assms(1) show ?thesis by fastforce
qed

lemma alloc_free:
  assumes "repr s ps" and "alloc s = Some (p, t)" and "p \<noteq> null"
  shows "\<exists>u. free p t = Some u \<and> repr u ps"
  using alloc_fresh [OF assms] free_valid by blast

lemma free_alloc:
  assumes "repr s ps" and "valid s p" and "p \<notin> set ps" and "free p s = Some t"
  shows "\<exists>u. alloc t = Some (p, u) \<and> repr u ps"
  using free_valid [OF assms(1-3)] assms(4) alloc_Cons by force

fun alloc_many :: "nat \<Rightarrow> 's \<Rightarrow> ('p list \<times> 's) option" where
  "alloc_many 0 s = Some ([], s)"
| "alloc_many (Suc n) s = do {
     (p, s) \<leftarrow> alloc s;
     if p = null then Some ([], s) else do { (ps, s) \<leftarrow> alloc_many n s; Some (p # ps, s) } }"

text \<open>Repeated allocation takes the free pages from the front until none is left.\<close>

lemma alloc_many_take: "repr s ps \<Longrightarrow> \<exists>t. alloc_many n s = Some (take n ps, t) \<and> repr t (drop n ps)"
proof (induction n arbitrary: s ps)
  case (Suc n)
  show ?case
  proof (cases ps)
    case Nil
    then show ?thesis using Suc.prems alloc_Nil by simp
  next
    case (Cons p qs)
    then obtain t where t: "alloc s = Some (p, t)" "repr t qs" using Suc.prems alloc_Cons by blast
    moreover have "p \<noteq> null" using Suc.prems Cons repr_valid by fastforce
    ultimately show ?thesis using Suc.IH [OF t(2)] Cons by auto
  qed
qed simp

end

interpretation km: page_allocator kalloc kfree 0 kpage kmem_inv
proof unfold_locales
  fix s :: "'a kmem_scheme" and p ps
  assume "kmem_inv s (p # ps)"
  then show "\<exists>t. kalloc s = Some (p, t) \<and> kmem_inv t ps \<and> kpage t = kpage s"
    by (intro exI [of _ "s\<lparr>freelist := load32 (mem s) p\<rparr>"])
      (simp add: kalloc_eq kalloc_inv fun_eq_iff kpage_def)
next
  fix s :: "'a kmem_scheme" and ps p
  assume "kmem_inv s ps" "kpage s p" "p \<notin> set ps"
  then show "\<exists>t. kfree p s = Some t \<and> kmem_inv t (p # ps) \<and> kpage t = kpage s"
    by (intro exI [of _ "s\<lparr>mem := kfree_mem (mem s) p (freelist s), freelist := p\<rparr>"] conjI
        kfree_inv kfree_eq) (auto simp: fun_eq_iff kpage_def kmem_inv_def)
qed (auto simp: kalloc_empty kfree_bad kmem_inv_def dest!: kpage_nonzero bspec)

section \<open>Initialisation\<close>

text \<open>The pages \<open>freerange\<close> frees, from the first one up.\<close>

fun range_pages :: "u32 \<Rightarrow> nat \<Rightarrow> u32 list" where
  "range_pages p 0 = []"
| "range_pages p (Suc n) = p # range_pages (p + PGSIZE) n"

lemma range_pages_bound:
  "unat p + n * 4096 < 2 ^ 32 \<Longrightarrow> q \<in> set (range_pages p n) \<Longrightarrow>
   p \<le> q \<and> unat q + 4096 \<le> unat p + n * 4096"
proof (induction n arbitrary: p)
  case (Suc n)
  have nx: "unat (p + PGSIZE) = unat p + 4096"
    using Suc.prems(1) by (simp add: PGSIZE_def unat_word_ariths)
  show ?case
  proof (cases "q = p")
    case False
    with Suc.prems(2) have "q \<in> set (range_pages (p + PGSIZE) n)" by simp
    with Suc.IH [of "p + PGSIZE"] Suc.prems(1) nx show ?thesis by (simp add: word_le_nat_alt)
  qed simp
qed simp

lemma page_aligned_unat: "page_aligned p \<longleftrightarrow> 4096 dvd unat p"
  using and_mask_dvd_nat [of 12 p] by (simp add: page_aligned_def mask_eq_exp_minus_1)

lemma page_aligned_add:
  assumes "page_aligned p" and "page_aligned q"
  shows "page_aligned (p + q)"
proof -
  have "(4096 :: nat) dvd 2 ^ 32" by simp
  then show ?thesis
    using assms by (simp add: page_aligned_unat unat_word_ariths dvd_mod)
qed

lemma PGSIZE_step_aligned: "page_aligned p \<Longrightarrow> page_aligned (p + PGSIZE)"
  by (rule page_aligned_add) (simp_all add: PGSIZE_def page_aligned_def)

lemma freerange_loop_frees:
  assumes "page_aligned p" and "unat p + n * 4096 \<le> unat vend" and "unat vend < unat p + n * 4096 + 4096"
    and "unat vend < 2 ^ 32 - 4096"
    and "kmem_inv s fl" and "kend s \<le> p \<and> KERNBASE \<le> kend s" and "unat vend \<le> unat (P2V PHYSTOP)"
    and "\<forall>q\<in>set fl. q < p \<or> vend \<le> q"
  shows "\<exists>t. freerange_loop p vend s = Some t \<and> kmem_inv t (rev (range_pages p n) @ fl) \<and>
           kend t = kend s \<and> held t = held s \<and> use_lock t = use_lock s"
  using assms
proof (induction n arbitrary: p s fl)
  case 0
  then have "\<not> p + PGSIZE \<le> vend"
    by (simp add: word_le_nat_alt PGSIZE_def unat_word_ariths)
  then show ?case using 0 by (subst freerange_loop.simps) simp
next
  case (Suc n)
  have nx: "unat (p + PGSIZE) = unat p + 4096"
    using Suc.prems(2,4) by (simp add: PGSIZE_def unat_word_ariths)
  have go: "p + PGSIZE \<le> vend" using Suc.prems(2) nx by (simp add: word_le_nat_alt)
  have "KERNBASE \<le> p" "unat p < unat (P2V PHYSTOP)"
    using Suc.prems(2,6,7) by auto
  then have "V2P p < PHYSTOP" by (simp add: V2P_def P2V_def layout_defs) unat_arith
  then have kp: "kpage s p" using Suc.prems(1,6) by (simp add: kpage_def)
  have new: "p \<notin> set fl" using Suc.prems(8) go nx by (auto simp: word_less_nat_alt word_le_nat_alt)
  let ?s = "s\<lparr>mem := kfree_mem (mem s) p (freelist s), freelist := p\<rparr>"
  have kf: "kfree p s = Some ?s" using kp Suc.prems(5) by (intro kfree_eq) (simp_all add: kmem_inv_def)
  have "\<exists>t. freerange_loop (p + PGSIZE) vend ?s = Some t \<and>
      kmem_inv t (rev (range_pages (p + PGSIZE) n) @ p # fl) \<and>
      kend t = kend ?s \<and> held t = held ?s \<and> use_lock t = use_lock ?s"
    by (rule Suc.IH)
      (use Suc.prems nx kfree_inv [OF Suc.prems(5) kp new] PGSIZE_step_aligned in
        \<open>auto simp: word_less_nat_alt word_le_nat_alt\<close>)
  with go kf show ?case by (subst freerange_loop.simps) auto
qed

lemma page_aligned_PGROUNDUP [simp]: "page_aligned (PGROUNDUP a)"
  by (simp add: page_aligned_def PGROUNDUP_def PGSIZE_def and.assoc)

section \<open>Properties of kalloc.c\<close>

text \<open>C11: \<open>kalloc\<close> always returns, gives 0 exactly when no page is free, and otherwise takes
  the first page off the free list: a page-aligned address of allocatable memory that is on
  the free list no more. It writes no memory and leaves the allocator's lock released.\<close>
theorem kalloc_takes_free_page:
  assumes "kmem_inv s fl"
  shows "\<exists>p t. kalloc s = Some (p, t) \<and> (p = 0 \<longleftrightarrow> fl = []) \<and> mem t = mem s \<and> held t = held s \<and>
           (p \<noteq> 0 \<longrightarrow> kpage t p \<and> (\<exists>qs. fl = p # qs \<and> p \<notin> set qs \<and> kmem_inv t qs))"
proof (cases fl)
  case Nil
  then show ?thesis using assms kalloc_empty [of s] by auto
next
  case (Cons p qs)
  then have "kalloc s = Some (p, s\<lparr>freelist := load32 (mem s) p\<rparr>)" using assms kalloc_eq by blast
  moreover have "kpage s p" "p \<notin> set qs" using assms Cons by (auto simp: kmem_inv_def)
  ultimately show ?thesis
    using Cons assms kalloc_inv [of s p qs] kpage_nonzero by (fastforce simp: kpage_def)
qed

text \<open>C12: \<open>kfree\<close> of an allocatable page that is not free returns, puts the page at the front
  of the free list and writes no byte outside it, so that the next \<open>kalloc\<close> hands out the
  same page; \<open>kfree\<close> of any other address panics.\<close>
theorem kfree_gives_page_back:
  assumes "kmem_inv s fl" and "v \<notin> set fl"
  shows "if kpage s v
         then \<exists>t. kfree v s = Some t \<and> kmem_inv t (v # fl) \<and> (\<forall>a. \<not> in_page v a \<longrightarrow> mem t a = mem s a) \<and>
                (\<exists>u. kalloc t = Some (v, u) \<and> kmem_inv u fl)
         else kfree v s = None"
proof (cases "kpage s v")
  case True
  let ?t = "s\<lparr>mem := kfree_mem (mem s) v (freelist s), freelist := v\<rparr>"
  have "kfree v s = Some ?t" using True assms by (intro kfree_eq) (auto simp: kmem_inv_def)
  moreover have "\<exists>u. kalloc ?t = Some (v, u) \<and> kmem_inv u fl"
    by (rule km.free_alloc [OF assms(1) True assms(2) calculation])
  ultimately show ?thesis
    using True kfree_inv [OF assms(1) True assms(2)] by (auto simp: kfree_mem_other kpage_def)
qed (simp add: kfree_bad)

text \<open>C13: \<open>kinit1\<close> on an empty allocator returns and leaves on the free list exactly the
  whole pages between its two bounds, once each; allocating repeatedly then hands them out
  from the highest to the lowest until none is left.\<close>
theorem kinit1_frees_range:
  assumes "freelist s = 0" and "KERNBASE \<le> kend s" and "kend s \<le> PGROUNDUP vstart"
    and "unat (PGROUNDUP vstart) + n * 4096 \<le> unat vend"
    and "unat vend < unat (PGROUNDUP vstart) + n * 4096 + 4096" and "vend \<le> P2V PHYSTOP"
  shows "\<exists>t. kinit1 vstart vend s = Some t \<and> kmem_inv t (rev (range_pages (PGROUNDUP vstart) n)) \<and>
           (\<forall>k. \<exists>u. km.alloc_many k t = Some (take k (rev (range_pages (PGROUNDUP vstart) n)), u))"
proof -
  have "unat vend < 2 ^ 32 - 4096"
    using assms(6) by (simp add: word_le_nat_alt P2V_def layout_defs)
  moreover have "kmem_inv (s\<lparr>use_lock := False\<rparr>) []" using assms(1) by (simp add: kmem_inv_def)
  ultimately obtain t where t: "kinit1 vstart vend s = Some t"
      "kmem_inv t (rev (range_pages (PGROUNDUP vstart) n))"
    using freerange_loop_frees [of "PGROUNDUP vstart" n vend "s\<lparr>use_lock := False\<rparr>" "[]"] assms
    by (auto simp: kinit1_def freerange_def word_le_nat_alt)
  with km.alloc_many_take [OF t(2)] show ?thesis by blast
qed

text \<open>A machine with a zeroed memory and the single free page \<^verbatim>\<open>0x80200000\<close>.\<close>

definition kmem_example :: "unit kmem_scheme" where
  "kmem_example = \<lparr>held = [], mem = (\<lambda>_. 0), kend = 0x80108000, use_lock = True, freelist = 0x80200000\<rparr>"

lemma kmem_example_inv: "kmem_inv kmem_example [0x80200000]"
  by (simp add: kmem_inv_def kmem_example_def load32_def kpage_def page_aligned_def V2P_def layout_defs)

theorem kalloc_takes_free_page_witness:
  "\<exists>t. kalloc kmem_example = Some (0x80200000, t)"
proof -
  obtain p t where p: "kalloc kmem_example = Some (p, t)" "p \<noteq> 0 \<longrightarrow> (\<exists>qs. [0x80200000] = p # qs)"
      "p = 0 \<longleftrightarrow> [0x80200000 :: u32] = []"
    using kalloc_takes_free_page [OF kmem_example_inv] by blast
  then show ?thesis by auto
qed

theorem kfree_gives_page_back_witness:
  "\<exists>t. kfree 0x80201000 kmem_example = Some t \<and> kmem_inv t [0x80201000, 0x80200000]"
proof -
  have "kpage kmem_example 0x80201000"
    by (simp add: kmem_example_def kpage_def page_aligned_def V2P_def layout_defs)
  moreover have "(0x80201000 :: u32) \<notin> set [0x80200000]" by simp
  ultimately show ?thesis using kfree_gives_page_back [OF kmem_example_inv, of "0x80201000"] by auto
qed

theorem kinit1_frees_range_witness:
  "\<exists>t. kinit1 0x80108010 0x8010B800 (kmem_example\<lparr>freelist := 0\<rparr>) = Some t \<and>
       kmem_inv t [0x8010A000, 0x80109000]"
proof -
  have up: "PGROUNDUP 0x80108010 = 0x80109000" by (simp add: PGROUNDUP_def PGSIZE_def)
  have "range_pages 0x80109000 2 = [0x80109000, 0x8010A000]"
    by (simp add: numeral_2_eq_2 PGSIZE_def)
  then show ?thesis
    using kinit1_frees_range [of "kmem_example\<lparr>freelist := 0\<rparr>" "0x80108010" 2 "0x8010B800"]
    unfolding up by (auto simp: kmem_example_def layout_defs P2V_def)
qed

end
