(* ===== verification/Mmu.thy ===== *)
theory Mmu
  imports Kalloc
begin

text \<open>
  The x86 memory management unit as \<^verbatim>\<open>src/xv6/mmu.h\<close> describes it: the split of a linear
  address into directory index, table index and offset, the flags of a page table entry,
  segment, task state and gate descriptors. The lemmas show that the split is a bijection
  on pages and that entries of page tables are independent 32-bit cells.
\<close>

section \<open>Linear addresses and page table entries\<close>

definition PGSHIFT :: nat where "PGSHIFT = 12"
definition PTXSHIFT :: nat where "PTXSHIFT = 12"
definition PDXSHIFT :: nat where "PDXSHIFT = 22"
definition NPDENTRIES :: u32 where "NPDENTRIES = 1024"

definition PDX :: "u32 \<Rightarrow> u32" where "PDX va = drop_bit PDXSHIFT va AND 0x3FF"
definition PTX :: "u32 \<Rightarrow> u32" where "PTX va = drop_bit PTXSHIFT va AND 0x3FF"
definition PGADDR :: "u32 \<Rightarrow> u32 \<Rightarrow> u32 \<Rightarrow> u32" where
  "PGADDR d t off = push_bit PDXSHIFT d OR push_bit PTXSHIFT t OR off"

definition PTE_P :: u32 where "PTE_P = 1"
definition PTE_W :: u32 where "PTE_W = 2"
definition PTE_U :: u32 where "PTE_U = 4"
definition PTE_COW :: u32 where "PTE_COW = 0x400"

lemmas PTE_defs = PTE_P_def PTE_W_def PTE_U_def PTE_COW_def

definition PTE_ADDR :: "u32 \<Rightarrow> u32" where "PTE_ADDR pte = pte AND NOT 0xFFF"
definition PTE_FLAGS :: "u32 \<Rightarrow> u32" where "PTE_FLAGS pte = pte AND 0xFFF"

section \<open>Segments, task state and gates\<close>

definition SEG_KCODE :: nat where "SEG_KCODE = 1"
definition SEG_KDATA :: nat where "SEG_KDATA = 2"
definition SEG_UCODE :: nat where "SEG_UCODE = 3"
definition SEG_UDATA :: nat where "SEG_UDATA = 4"
definition SEG_TSS :: nat where "SEG_TSS = 5"
definition NSEGS :: nat where "NSEGS = 6"
definition DPL_USER :: "2 word" where "DPL_USER = 3"
definition STA_X :: "4 word" where "STA_X = 8"
definition STA_W :: "4 word" where "STA_W = 2"
definition STA_R :: "4 word" where "STA_R = 2"
definition STS_T32A :: "4 word" where "STS_T32A = 9"
definition STS_IG32 :: "4 word" where "STS_IG32 = 0xE"
definition STS_TG32 :: "4 word" where "STS_TG32 = 0xF"

text \<open>The reserved fields \<^verbatim>\<open>avl\<close> and \<^verbatim>\<open>rsv1\<close> are always 0 and are left out.\<close>

record segdesc =
  lim_15_0 :: "16 word"
  base_15_0 :: "16 word"
  base_23_16 :: "8 word"
  seg_type :: "4 word"
  seg_s :: "1 word"
  seg_dpl :: "2 word"
  seg_p :: "1 word"
  lim_19_16 :: "4 word"
  seg_db :: "1 word"
  seg_g :: "1 word"
  base_31_24 :: "8 word"

definition SEG :: "4 word \<Rightarrow> u32 \<Rightarrow> u32 \<Rightarrow> 2 word \<Rightarrow> segdesc" where
  "SEG ty base lim dpl =
     \<lparr>lim_15_0 = ucast (drop_bit 12 lim AND 0xFFFF), base_15_0 = ucast (base AND 0xFFFF),
      base_23_16 = ucast (drop_bit 16 base AND 0xFF), seg_type = ty, seg_s = 1, seg_dpl = dpl,
      seg_p = 1, lim_19_16 = ucast (drop_bit 28 lim), seg_db = 1, seg_g = 1,
      base_31_24 = ucast (drop_bit 24 base)\<rparr>"

definition SEG16 :: "4 word \<Rightarrow> u32 \<Rightarrow> u32 \<Rightarrow> 2 word \<Rightarrow> segdesc" where
  "SEG16 ty base lim dpl =
     \<lparr>lim_15_0 = ucast (lim AND 0xFFFF), base_15_0 = ucast (base AND 0xFFFF),
      base_23_16 = ucast (drop_bit 16 base AND 0xFF), seg_type = ty, seg_s = 1, seg_dpl = dpl,
      seg_p = 1, lim_19_16 = ucast (drop_bit 16 lim), seg_db = 1, seg_g = 0,
      base_31_24 = ucast (drop_bit 24 base)\<rparr>"

text \<open>The fields of the task state segment the kernel writes.\<close>

record taskstate =
  esp0 :: u32
  ss0 :: u16
  iomb :: u16

text \<open>The size of the task state segment: 26 words.\<close>

definition sizeof_taskstate :: u32 where "sizeof_taskstate = 104"

record gatedesc =
  off_15_0 :: u16
  gate_cs :: u16
  gate_args :: "5 word"
  gate_rsv1 :: "3 word"
  gate_type :: "4 word"
  gate_s :: "1 word"
  gate_dpl :: "2 word"
  gate_p :: "1 word"
  off_31_16 :: u16

definition SETGATE :: "bool \<Rightarrow> u16 \<Rightarrow> u32 \<Rightarrow> 2 word \<Rightarrow> gatedesc" where
  "SETGATE istrap sel off d =
     \<lparr>off_15_0 = ucast (off AND 0xFFFF), gate_cs = sel, gate_args = 0, gate_rsv1 = 0,
      gate_type = (if istrap then STS_TG32 else STS_IG32), gate_s = 0, gate_dpl = d,
      gate_p = 1, off_31_16 = ucast (drop_bit 16 off)\<rparr>"

section \<open>The split of an address\<close>

lemma PDX_less [simp]: "PDX va < 1024"
  using and_mask_less' [of 10 "drop_bit PDXSHIFT va"]
  by (simp add: PDX_def mask_eq_exp_minus_1)

lemma PTX_less [simp]: "PTX va < 1024"
  using and_mask_less' [of 10 "drop_bit PTXSHIFT va"]
  by (simp add: PTX_def mask_eq_exp_minus_1)

lemma bit_PDX: "bit (PDX va) i \<longleftrightarrow> i < 10 \<and> bit va (22 + i)"
proof -
  have "PDX va = drop_bit 22 va AND mask 10" by (simp add: PDX_def PDXSHIFT_def mask_eq_exp_minus_1)
  then show ?thesis by (auto simp: bit_simps)
qed

lemma bit_PTX: "bit (PTX va) i \<longleftrightarrow> i < 10 \<and> bit va (12 + i)"
proof -
  have "PTX va = drop_bit 12 va AND mask 10" by (simp add: PTX_def PTXSHIFT_def mask_eq_exp_minus_1)
  then show ?thesis by (auto simp: bit_simps)
qed

lemma PGROUNDDOWN_mask: "PGROUNDDOWN a = a AND NOT (mask 12)"
  by (simp add: PGROUNDDOWN_def PGSIZE_def mask_eq_exp_minus_1)

lemma bit_PGROUNDDOWN: "bit (PGROUNDDOWN a) i \<longleftrightarrow> 12 \<le> i \<and> bit a i"
  by (auto simp: PGROUNDDOWN_mask bit_simps dest: bit_imp_le_length)

text \<open>Two addresses use the same entry exactly when they lie in the same page.\<close>

lemma PDX_PTX_iff:
  "PDX a = PDX b \<and> PTX a = PTX b \<longleftrightarrow> PGROUNDDOWN a = PGROUNDDOWN b"
proof
  assume eq: "PDX a = PDX b \<and> PTX a = PTX b"
  show "PGROUNDDOWN a = PGROUNDDOWN b"
  proof (rule bit_word_eqI)
    fix i :: nat
    assume "i < LENGTH(32)"
    then consider "i < 12" | "12 \<le> i" "i < 22" | "22 \<le> i" "i < 32" by force
    then show "bit (PGROUNDDOWN a) i = bit (PGROUNDDOWN b) i"
    proof cases
      case 2
      then have "i - 12 < 10" by arith
      then have "bit (PGROUNDDOWN x) i = bit (PTX x) (i - 12)" for x
        using 2 by (simp add: bit_PGROUNDDOWN bit_PTX)
      with eq show ?thesis by simp
    next
      case 3
      then have "i - 22 < 10" by arith
      then have "bit (PGROUNDDOWN x) i = bit (PDX x) (i - 22)" for x
        using 3 by (simp add: bit_PGROUNDDOWN bit_PDX)
      with eq show ?thesis by simp
    qed (simp add: bit_PGROUNDDOWN)
  qed
next
  assume eq: "PGROUNDDOWN a = PGROUNDDOWN b"
  have same: "bit a i = bit b i" if "12 \<le> i" for i
    using that bit_PGROUNDDOWN [of a i] bit_PGROUNDDOWN [of b i] eq by simp
  have "PDX a = PDX b" by (rule bit_word_eqI) (simp add: bit_PDX same)
  moreover have "PTX a = PTX b" by (rule bit_word_eqI) (simp add: bit_PTX same)
  ultimately show "PDX a = PDX b \<and> PTX a = PTX b" ..
qed

lemma PDX_PGROUNDDOWN [simp]: "PDX (PGROUNDDOWN a) = PDX a"
  and PTX_PGROUNDDOWN [simp]: "PTX (PGROUNDDOWN a) = PTX a"
  by (rule bit_word_eqI; simp add: bit_PDX bit_PTX bit_PGROUNDDOWN)+

lemma PGROUNDDOWN_aligned [simp]: "page_aligned p \<Longrightarrow> PGROUNDDOWN p = p"
  using PGROUNDDOWN_offset [of p 0] by simp

section \<open>Entries\<close>

lemma PTE_ADDR_eq: "PTE_ADDR e = PGROUNDDOWN e"
  by (simp add: PTE_ADDR_def PGROUNDDOWN_def PGSIZE_def)

lemma PTE_split: "PTE_ADDR e OR PTE_FLAGS e = e"
  using page_parts [of e] by (simp add: PTE_ADDR_def PTE_FLAGS_def)

lemma page_aligned_PTE_ADDR [simp]: "page_aligned (PTE_ADDR e)"
  by (simp add: PTE_ADDR_eq)

lemma PTE_ADDR_or [page_simps]: "page_aligned p \<Longrightarrow> f < 4096 \<Longrightarrow> PTE_ADDR (p OR f) = p"
  using PGROUNDDOWN_offset [of p f] by (simp add: PTE_ADDR_eq word_add_eq_or aligned_disjoint)

lemma PTE_FLAGS_or [page_simps]: "page_aligned p \<Longrightarrow> f < 4096 \<Longrightarrow> PTE_FLAGS (p OR f) = f"
  using page_offset_low [of p f] by (simp add: PTE_FLAGS_def word_add_eq_or aligned_disjoint)

lemma low12_mask: "(x :: u32) < 4096 \<longleftrightarrow> x AND mask 12 = x"
  by (simp add: low12_iff mask_eq_exp_minus_1)

lemma low12_or [simp]: "x < 4096 \<Longrightarrow> y < 4096 \<Longrightarrow> x OR y < (4096 :: u32)"
  by (simp add: low12_iff bit.conj_disj_distrib2)

lemma low12_and [simp]: "x < 4096 \<Longrightarrow> x AND y < (4096 :: u32)"
  by (rule le_less_trans [OF word_and_le2])

lemma low12_PTE_FLAGS [simp]: "PTE_FLAGS e < 4096"
  by (simp add: PTE_FLAGS_def)

lemma low12_flags [simp]: "PTE_P < 4096" "PTE_W < 4096" "PTE_U < 4096" "PTE_COW < 4096"
  by (simp_all add: PTE_defs)

text \<open>Flags live in the low twelve bits of an entry.\<close>

lemma flag_of_flags: "f < 4096 \<Longrightarrow> PTE_FLAGS e AND f = e AND f"
  by (simp add: PTE_FLAGS_def and.assoc and.commute [of "0xFFF"] low12_iff)

definition entry :: "memory \<Rightarrow> u32 \<Rightarrow> u32 \<Rightarrow> u32" where
  "entry m p i = load32 m (p + 4 * i)"

lemma entry_offset: "i < 1024 \<Longrightarrow> 4 * i \<le> (4092 :: u32) \<and> unat (4 * i) = 4 * unat i"
proof -
  assume "i < 1024"
  then have "unat i < 1024" by (simp add: word_less_nat_alt)
  then have u: "unat (4 * i) = 4 * unat i" by (simp add: unat_word_ariths)
  with \<open>unat i < 1024\<close> show ?thesis by (simp add: word_le_nat_alt)
qed

lemma entry_word_in: "page_aligned p \<Longrightarrow> i < 1024 \<Longrightarrow> word_in p (p + 4 * i)"
  using entry_offset by (intro word_in_offset) auto

lemma entry_inj: "i < 1024 \<Longrightarrow> j < 1024 \<Longrightarrow> 4 * i = 4 * j \<longleftrightarrow> i = (j :: u32)"
  using entry_offset [of i] entry_offset [of j] by (metis nat_mult_eq_cancel1 word_unat_eq_iff zero_less_numeral)

lemma aligned4_entry: "page_aligned p \<Longrightarrow> aligned4 (p + 4 * i)"
proof -
  assume "page_aligned p"
  then have "4096 dvd unat p" by (simp add: page_aligned_unat)
  then have "4 dvd unat p" by (rule dvd_trans [rotated]) simp
  then have "unat p mod 4 = 0" by simp
  moreover have "unat (p + 4 * i) mod 4 = (unat p + 4 * unat i) mod 4"
    by (simp add: unat_word_ariths mod_mod_cancel mod_add_right_eq mod_simps)
  ultimately have "unat ((p + 4 * i) mod 4) = 0" by (simp add: unat_mod)
  then show ?thesis by (simp add: aligned4_def unat_eq_zero)
qed

lemma entry_store:
  assumes "page_aligned p" and "page_aligned q" and "i < 1024" and "j < 1024"
  shows "entry (store32 m (p + 4 * i) w) q j = (if p = q \<and> i = j then w else entry m q j)"
proof (cases "p = q")
  case True
  show ?thesis
  proof (cases "i = j")
    case False
    then have "p + 4 * i \<noteq> p + 4 * j" using assms entry_inj by simp
    then show ?thesis using True False assms unfolding entry_def
      by (subst load32_store32_other) (simp_all add: aligned4_entry)
  qed (simp add: True entry_def load32_store32_same)
next
  case False
  then show ?thesis unfolding entry_def
    using load32_other_page [OF entry_word_in [OF assms(2,4)], of p "store32 m (p + 4 * i) w" m]
    by (simp add: store32_in_page [OF entry_word_in [OF assms(1,3)]])
qed

lemma entry_zero_page:
  assumes "page_aligned p" and "page_aligned q" and "j < 1024"
  shows "entry (memset m p 0 PGSIZE) q j = (if p = q then 0 else entry m q j)"
proof (cases "p = q")
  case True
  have "load32 (memset m p 0 PGSIZE) (q + 4 * j) = load32 (\<lambda>_. 0) (q + 4 * j)"
    using assms True by (intro load32_page_cong [OF entry_word_in]) (simp_all add: memset_page)
  then show ?thesis by (simp add: True entry_def load32_def)
next
  case False
  then show ?thesis unfolding entry_def
    using load32_other_page [OF entry_word_in [OF assms(2,3)], of p "memset m p 0 PGSIZE" m] assms
    by (simp add: memset_page)
qed

lemma entry_cong: "page_aligned p \<Longrightarrow> i < 1024 \<Longrightarrow> (\<And>a. in_page p a \<Longrightarrow> m a = m' a) \<Longrightarrow> entry m p i = entry m' p i"
  unfolding entry_def by (rule load32_page_cong [OF entry_word_in])

end
