(* ===== verification/Vm.thy ===== *)
theory Vm
  imports Mmu
begin

text \<open>
  Virtual memory, \<^verbatim>\<open>src/xv6/vm.c\<close>: page tables in machine memory, the per-page reference
  counts of copy-on-write, and the address space operations. A pointer to a page table
  entry is its address; 0 is the null pointer and dereferencing it gives \<open>None\<close>. The
  memory is addressed by kernel virtual addresses, as the kernel does. \<open>kdata\<close> is the
  address \<^verbatim>\<open>data\<close> of the linker script; the descriptor table and task state are those
  of the current CPU. The properties are in \<^verbatim>\<open>PageTable\<close> and \<^verbatim>\<open>Cow\<close>.
\<close>

section \<open>State\<close>

record vm = kmem +
  pg_refcount :: "u32 \<Rightarrow> u8"
  kpgdir :: u32
  kdata :: u32
  cr3 :: u32
  gdt :: "segdesc list"
  ts :: taskstate
  ts_addr :: u32
  tr :: u16

abbreviation rd :: "'z vm_scheme \<Rightarrow> u32 \<Rightarrow> u32" where
  "rd s a \<equiv> load32 (mem s) a"

abbreviation wr :: "u32 \<Rightarrow> u32 \<Rightarrow> 'z vm_scheme \<Rightarrow> 'z vm_scheme" where
  "wr a w s \<equiv> s\<lparr>mem := store32 (mem s) a w\<rparr>"

text \<open>\<^verbatim>\<open>++pg_refcount[pa >> PGSHIFT]\<close> and \<^verbatim>\<open>--pg_refcount[pa >> PGSHIFT]\<close>: the array has
  \<^verbatim>\<open>PHYSTOP >> PGSHIFT\<close> entries of the signed 8-bit type \<^verbatim>\<open>char\<close>.\<close>

definition refcount :: "u32 \<Rightarrow> 'z vm_scheme \<Rightarrow> u8 option" where
  "refcount pa s =
     (if drop_bit PGSHIFT pa < drop_bit PGSHIFT PHYSTOP then Some (pg_refcount s (drop_bit PGSHIFT pa)) else None)"

definition add_refcount :: "u32 \<Rightarrow> u8 \<Rightarrow> 'z vm_scheme \<Rightarrow> 'z vm_scheme option" where
  "add_refcount pa d s = do {
     c \<leftarrow> refcount pa s;
     Some (s\<lparr>pg_refcount := (pg_refcount s)(drop_bit PGSHIFT pa := c + d)\<rparr>) }"

definition lcr3 :: "u32 \<Rightarrow> 'z vm_scheme \<Rightarrow> 'z vm_scheme" where
  "lcr3 v s = s\<lparr>cr3 := v\<rparr>"

section \<open>Page tables\<close>

definition seginit :: "'z vm_scheme \<Rightarrow> 'z vm_scheme" where
  "seginit s = s\<lparr>gdt := (gdt s)
     [SEG_KCODE := SEG (STA_X OR STA_R) 0 0xFFFFFFFF 0,
      SEG_KDATA := SEG STA_W 0 0xFFFFFFFF 0,
      SEG_UCODE := SEG (STA_X OR STA_R) 0 0xFFFFFFFF DPL_USER,
      SEG_UDATA := SEG STA_W 0 0xFFFFFFFF DPL_USER]\<rparr>"

definition walkpgdir :: "u32 \<Rightarrow> u32 \<Rightarrow> bool \<Rightarrow> 'z vm_scheme \<Rightarrow> (u32 \<times> 'z vm_scheme) option" where
  "walkpgdir pgdir va alloc s =
     (let pde = pgdir + 4 * PDX va in
      if rd s pde AND PTE_P \<noteq> 0 then
        Some (P2V (PTE_ADDR (rd s pde)) + 4 * PTX va, s)
      else if \<not> alloc then Some (0, s)
      else do {
        (pgtab, s) \<leftarrow> kalloc s;
        if pgtab = 0 then Some (0, s)
        else do {
          let s = s\<lparr>mem := memset (mem s) pgtab 0 PGSIZE\<rparr>;
          let s = wr pde (V2P pgtab OR PTE_P OR PTE_W OR PTE_U OR PTE_COW) s;
          Some (pgtab + 4 * PTX va, s) } })"

partial_function (option) mappages_loop ::
  "u32 \<Rightarrow> u32 \<Rightarrow> u32 \<Rightarrow> u32 \<Rightarrow> u32 \<Rightarrow> 'z vm_scheme \<Rightarrow> (int \<times> 'z vm_scheme) option" where
  "mappages_loop pgdir a a_last pa perm s = do {
     (pte, s) \<leftarrow> walkpgdir pgdir a True s;
     if pte = 0 then Some (-1, s)
     else if rd s pte AND PTE_P \<noteq> 0 then None
     else do {
       let s = wr pte (pa OR perm OR PTE_P) s;
       if a = a_last then Some (0, s)
       else mappages_loop pgdir (a + PGSIZE) a_last (pa + PGSIZE) perm s } }"

definition mappages :: "u32 \<Rightarrow> u32 \<Rightarrow> u32 \<Rightarrow> u32 \<Rightarrow> u32 \<Rightarrow> 'z vm_scheme \<Rightarrow> (int \<times> 'z vm_scheme) option" where
  "mappages pgdir va sz pa perm s =
     mappages_loop pgdir (PGROUNDDOWN va) (PGROUNDDOWN (va + sz - 1)) pa perm s"

section \<open>Shrinking and freeing an address space\<close>

partial_function (option) deallocuvm_loop :: "u32 \<Rightarrow> u32 \<Rightarrow> u32 \<Rightarrow> 'z vm_scheme \<Rightarrow> 'z vm_scheme option" where
  "deallocuvm_loop pgdir a oldsz s =
     (if a < oldsz then do {
        (pte, s) \<leftarrow> walkpgdir pgdir a False s;
        if pte = 0 then deallocuvm_loop pgdir (PGADDR (PDX a + 1) 0 0 - PGSIZE + PGSIZE) oldsz s
        else if rd s pte AND PTE_P \<noteq> 0 then do {
          let pa = PTE_ADDR (rd s pte);
          if pa = 0 then None
          else do {
            s \<leftarrow> add_refcount pa (-1) s;
            c \<leftarrow> refcount pa s;
            s \<leftarrow> (if c = 0 then kfree (P2V pa) s else Some s);
            let s = wr pte 0 s;
            deallocuvm_loop pgdir (a + PGSIZE) oldsz s } }
        else deallocuvm_loop pgdir (a + PGSIZE) oldsz s }
      else Some s)"

definition deallocuvm :: "u32 \<Rightarrow> u32 \<Rightarrow> u32 \<Rightarrow> 'z vm_scheme \<Rightarrow> (u32 \<times> 'z vm_scheme) option" where
  "deallocuvm pgdir oldsz newsz s =
     (if newsz \<ge> oldsz then Some (oldsz, s)
      else do {
        s \<leftarrow> deallocuvm_loop pgdir (PGROUNDUP newsz) oldsz s;
        Some (newsz, s) })"

text \<open>The loop of \<open>freevm\<close> over the directory, \<open>n\<close> entries from index \<open>i\<close>.\<close>

fun freevm_loop :: "u32 \<Rightarrow> u32 \<Rightarrow> nat \<Rightarrow> 'z vm_scheme \<Rightarrow> 'z vm_scheme option" where
  "freevm_loop pgdir i 0 s = Some s"
| "freevm_loop pgdir i (Suc n) s = do {
     s \<leftarrow> (if rd s (pgdir + 4 * i) AND PTE_P \<noteq> 0
          then kfree (P2V (PTE_ADDR (rd s (pgdir + 4 * i)))) s else Some s);
     freevm_loop pgdir (i + 1) n s }"

definition freevm :: "u32 \<Rightarrow> 'z vm_scheme \<Rightarrow> 'z vm_scheme option" where
  "freevm pgdir s =
     (if pgdir = 0 then None
      else do {
        (_, s) \<leftarrow> deallocuvm pgdir KERNBASE 0 s;
        s \<leftarrow> freevm_loop pgdir 0 (unat NPDENTRIES) s;
        kfree pgdir s })"

section \<open>The kernel part of an address space\<close>

record kmap_entry =
  virt :: u32
  phys_start :: u32
  phys_end :: u32
  kperm :: u32

definition kmap :: "'z vm_scheme \<Rightarrow> kmap_entry list" where
  "kmap s =
    [\<lparr>virt = KERNBASE, phys_start = 0, phys_end = EXTMEM, kperm = PTE_W\<rparr>,
     \<lparr>virt = KERNLINK, phys_start = V2P KERNLINK, phys_end = V2P (kdata s), kperm = 0\<rparr>,
     \<lparr>virt = kdata s, phys_start = V2P (kdata s), phys_end = PHYSTOP, kperm = PTE_W\<rparr>,
     \<lparr>virt = DEVSPACE, phys_start = DEVSPACE, phys_end = 0, kperm = PTE_W\<rparr>]"

fun setupkvm_loop :: "u32 \<Rightarrow> kmap_entry list \<Rightarrow> 'z vm_scheme \<Rightarrow> (bool \<times> 'z vm_scheme) option" where
  "setupkvm_loop pgdir [] s = Some (True, s)"
| "setupkvm_loop pgdir (k # ks) s = do {
     (r, s) \<leftarrow> mappages pgdir (virt k) (phys_end k - phys_start k) (phys_start k) (kperm k) s;
     if r < 0 then Some (False, s) else setupkvm_loop pgdir ks s }"

definition setupkvm :: "'z vm_scheme \<Rightarrow> (u32 \<times> 'z vm_scheme) option" where
  "setupkvm s = do {
     (pgdir, s) \<leftarrow> kalloc s;
     if pgdir = 0 then Some (0, s)
     else do {
       let s = s\<lparr>mem := memset (mem s) pgdir 0 PGSIZE\<rparr>;
       if P2V PHYSTOP > DEVSPACE then None
       else do {
         (ok, s) \<leftarrow> setupkvm_loop pgdir (kmap s) s;
         if ok then Some (pgdir, s)
         else do { s \<leftarrow> freevm pgdir s; Some (0, s) } } } }"

definition switchkvm :: "'z vm_scheme \<Rightarrow> 'z vm_scheme" where
  "switchkvm s = lcr3 (V2P (kpgdir s)) s"

definition kvmalloc :: "'z vm_scheme \<Rightarrow> 'z vm_scheme option" where
  "kvmalloc s = do {
     (d, s) \<leftarrow> setupkvm s;
     Some (switchkvm (s\<lparr>kpgdir := d\<rparr>)) }"

definition KSTACKSIZE :: u32 where "KSTACKSIZE = 4096"

text \<open>\<open>switchuvm\<close> takes the two fields of the process it reads, \<open>None\<close> for a null process.
  Interrupts are off between its \<open>pushcli\<close> and \<open>popcli\<close>, which leave the state of the
  CPU as they found it.\<close>

definition switchuvm :: "(u32 \<times> u32) option \<Rightarrow> 'z vm_scheme \<Rightarrow> 'z vm_scheme option" where
  "switchuvm p s = (case p of None \<Rightarrow> None | Some (kstack, pgdir) \<Rightarrow>
     if kstack = 0 then None
     else if pgdir = 0 then None
     else do {
       let s = s\<lparr>gdt := (gdt s)[SEG_TSS := SEG16 STS_T32A (ts_addr s) (sizeof_taskstate - 1) 0]\<rparr>;
       let s = s\<lparr>gdt := (gdt s)[SEG_TSS := (gdt s ! SEG_TSS)\<lparr>seg_s := 0\<rparr>]\<rparr>;
       let s = s\<lparr>ts := (ts s)\<lparr>ss0 := of_nat SEG_KDATA * 8, esp0 := kstack + KSTACKSIZE, iomb := 0xFFFF\<rparr>\<rparr>;
       let s = s\<lparr>tr := of_nat SEG_TSS * 8\<rparr>;
       Some (lcr3 (V2P pgdir) s) })"

section \<open>Growing, loading and copying an address space\<close>

definition inituvm :: "u32 \<Rightarrow> u32 \<Rightarrow> u32 \<Rightarrow> 'z vm_scheme \<Rightarrow> 'z vm_scheme option" where
  "inituvm pgdir init sz s =
     (if sz \<ge> PGSIZE then None
      else do {
        (p, s) \<leftarrow> kalloc s;
        if p = 0 then None
        else do {
          let s = s\<lparr>mem := memset (mem s) p 0 PGSIZE\<rparr>;
          (_, s) \<leftarrow> mappages pgdir 0 PGSIZE (V2P p) (PTE_W OR PTE_U) s;
          s \<leftarrow> add_refcount (V2P p) 1 s;
          Some (s\<lparr>mem := memmove (mem s) p init sz\<rparr>) } })"

text \<open>\<open>readi\<close> is the inode layer's: it reads \<open>n\<close> bytes at a file offset to an address and
  gives the number of bytes read.\<close>

partial_function (option) loaduvm_loop ::
  "(u32 \<Rightarrow> u32 \<Rightarrow> u32 \<Rightarrow> 'z vm_scheme \<Rightarrow> (u32 \<times> 'z vm_scheme) option) \<Rightarrow> u32 \<Rightarrow> u32 \<Rightarrow> u32 \<Rightarrow> u32 \<Rightarrow> u32
   \<Rightarrow> 'z vm_scheme \<Rightarrow> (int \<times> 'z vm_scheme) option" where
  "loaduvm_loop readi pgdir addr offset sz i s =
     (if i < sz then do {
        (pte, s) \<leftarrow> walkpgdir pgdir (addr + i) False s;
        if pte = 0 then None
        else do {
          let pa = PTE_ADDR (rd s pte);
          let n = (if sz - i < PGSIZE then sz - i else PGSIZE);
          (r, s) \<leftarrow> readi (P2V pa) (offset + i) n s;
          if r \<noteq> n then Some (-1, s) else loaduvm_loop readi pgdir addr offset sz (i + PGSIZE) s } }
      else Some (0, s))"

definition loaduvm ::
  "(u32 \<Rightarrow> u32 \<Rightarrow> u32 \<Rightarrow> 'z vm_scheme \<Rightarrow> (u32 \<times> 'z vm_scheme) option) \<Rightarrow> u32 \<Rightarrow> u32 \<Rightarrow> u32 \<Rightarrow> u32
   \<Rightarrow> 'z vm_scheme \<Rightarrow> (int \<times> 'z vm_scheme) option" where
  "loaduvm readi pgdir addr offset sz s =
     (if addr mod PGSIZE \<noteq> 0 then None else loaduvm_loop readi pgdir addr offset sz 0 s)"

partial_function (option) allocuvm_loop ::
  "u32 \<Rightarrow> u32 \<Rightarrow> u32 \<Rightarrow> u32 \<Rightarrow> 'z vm_scheme \<Rightarrow> (u32 \<times> 'z vm_scheme) option" where
  "allocuvm_loop pgdir oldsz newsz a s =
     (if a < newsz then do {
        (p, s) \<leftarrow> kalloc s;
        if p = 0 then do { (_, s) \<leftarrow> deallocuvm pgdir newsz oldsz s; Some (0, s) }
        else do {
          let s = s\<lparr>mem := memset (mem s) p 0 PGSIZE\<rparr>;
          (r, s) \<leftarrow> mappages pgdir a PGSIZE (V2P p) (PTE_W OR PTE_U) s;
          if r < 0 then do {
            (_, s) \<leftarrow> deallocuvm pgdir newsz oldsz s;
            s \<leftarrow> kfree p s;
            Some (0, s) }
          else do {
            s \<leftarrow> add_refcount (V2P p) 1 s;
            allocuvm_loop pgdir oldsz newsz (a + PGSIZE) s } } }
      else Some (newsz, s))"

definition allocuvm :: "u32 \<Rightarrow> u32 \<Rightarrow> u32 \<Rightarrow> 'z vm_scheme \<Rightarrow> (u32 \<times> 'z vm_scheme) option" where
  "allocuvm pgdir oldsz newsz s =
     (if newsz \<ge> KERNBASE then Some (0, s)
      else if newsz < oldsz then Some (oldsz, s)
      else allocuvm_loop pgdir oldsz newsz (PGROUNDUP oldsz) s)"

definition clearpteu :: "u32 \<Rightarrow> u32 \<Rightarrow> 'z vm_scheme \<Rightarrow> 'z vm_scheme option" where
  "clearpteu pgdir uva s = do {
     (pte, s) \<leftarrow> walkpgdir pgdir uva False s;
     if pte = 0 then None else Some (wr pte (rd s pte AND NOT PTE_U) s) }"

partial_function (option) copyuvm_loop ::
  "u32 \<Rightarrow> u32 \<Rightarrow> u32 \<Rightarrow> u32 \<Rightarrow> 'z vm_scheme \<Rightarrow> (bool \<times> 'z vm_scheme) option" where
  "copyuvm_loop pgdir d sz i s =
     (if i < sz then do {
        (pte, s) \<leftarrow> walkpgdir pgdir i False s;
        if pte = 0 then None
        else if rd s pte AND PTE_P = 0 then None
        else do {
          let pa = PTE_ADDR (rd s pte);
          let flags = PTE_FLAGS (rd s pte);
          (p, s) \<leftarrow> kalloc s;
          if p = 0 then Some (False, s)
          else do {
            let s = s\<lparr>mem := memmove (mem s) p (P2V pa) PGSIZE\<rparr>;
            (r, s) \<leftarrow> mappages d i PGSIZE (V2P p) flags s;
            if r < 0 then Some (False, s) else copyuvm_loop pgdir d sz (i + PGSIZE) s } } }
      else Some (True, s))"

definition copyuvm :: "u32 \<Rightarrow> u32 \<Rightarrow> 'z vm_scheme \<Rightarrow> (u32 \<times> 'z vm_scheme) option" where
  "copyuvm pgdir sz s = do {
     (d, s) \<leftarrow> setupkvm s;
     if d = 0 then Some (0, s)
     else do {
       (ok, s) \<leftarrow> copyuvm_loop pgdir d sz 0 s;
       if ok then Some (d, s) else do { s \<leftarrow> freevm d s; Some (0, s) } } }"

definition uva2ka :: "u32 \<Rightarrow> u32 \<Rightarrow> 'z vm_scheme \<Rightarrow> (u32 \<times> 'z vm_scheme) option" where
  "uva2ka pgdir uva s = do {
     (pte, s) \<leftarrow> walkpgdir pgdir uva False s;
     if pte = 0 then None
     else if rd s pte AND PTE_P = 0 then Some (0, s)
     else if rd s pte AND PTE_U = 0 then Some (0, s)
     else Some (P2V (PTE_ADDR (rd s pte)), s) }"

partial_function (option) copyout :: "u32 \<Rightarrow> u32 \<Rightarrow> u32 \<Rightarrow> u32 \<Rightarrow> 'z vm_scheme \<Rightarrow> (int \<times> 'z vm_scheme) option" where
  "copyout pgdir va buf len s =
     (if len > 0 then do {
        let va0 = PGROUNDDOWN va;
        (pa0, s) \<leftarrow> uva2ka pgdir va0 s;
        if pa0 = 0 then Some (-1, s)
        else do {
          let n = PGSIZE - (va - va0);
          let n = (if n > len then len else n);
          let s = s\<lparr>mem := memmove (mem s) (pa0 + (va - va0)) buf n\<rparr>;
          copyout pgdir (va0 + PGSIZE) (buf + n) (len - n) s } }
      else Some (0, s))"

section \<open>Copy-on-write\<close>

partial_function (option) copyuvmcow_loop ::
  "u32 \<Rightarrow> u32 \<Rightarrow> u32 \<Rightarrow> u32 \<Rightarrow> 'z vm_scheme \<Rightarrow> (bool \<times> 'z vm_scheme) option" where
  "copyuvmcow_loop pgdir d sz i s =
     (if i < sz then do {
        (pte, s) \<leftarrow> walkpgdir pgdir i False s;
        if pte = 0 then None
        else if rd s pte AND PTE_P = 0 then None
        else do {
          let s = wr pte (rd s pte AND NOT PTE_W) s;
          let pa = PTE_ADDR (rd s pte);
          let flags = PTE_FLAGS (rd s pte);
          (r, s) \<leftarrow> mappages d i PGSIZE pa flags s;
          if r < 0 then Some (False, s)
          else do {
            let s = wr pte (rd s pte OR PTE_COW) s;
            s \<leftarrow> add_refcount pa 1 s;
            copyuvmcow_loop pgdir d sz (i + PGSIZE) s } } }
      else Some (True, s))"

definition copyuvmcow :: "u32 \<Rightarrow> u32 \<Rightarrow> 'z vm_scheme \<Rightarrow> (u32 \<times> 'z vm_scheme) option" where
  "copyuvmcow pgdir sz s = do {
     (d, s) \<leftarrow> setupkvm s;
     if d = 0 then Some (0, s)
     else do {
       (ok, s) \<leftarrow> copyuvmcow_loop pgdir d sz 0 s;
       if ok then Some (d, lcr3 (V2P pgdir) s)
       else do { s \<leftarrow> freevm d s; Some (0, lcr3 (V2P pgdir) s) } } }"

text \<open>\<open>pagefault\<close> takes the page directory of the current process, if there is one, and the
  faulting address the CPU keeps in \<^verbatim>\<open>cr2\<close>. The result says whether the process is
  marked as killed.\<close>

definition pagefault :: "u32 option \<Rightarrow> u32 \<Rightarrow> 'z vm_scheme \<Rightarrow> (bool \<times> 'z vm_scheme) option" where
  "pagefault myproc va s = (case myproc of None \<Rightarrow> None | Some pgdir \<Rightarrow>
     do {
       (pte, s) \<leftarrow> (if va \<ge> KERNBASE then Some (0, s) else walkpgdir pgdir va False s);
       if va \<ge> KERNBASE \<or> pte = 0 \<or> rd s pte AND PTE_P = 0 \<or> rd s pte AND PTE_U = 0 then Some (True, s)
       else if rd s pte AND PTE_W \<noteq> 0 then None
       else do {
         let pa = PTE_ADDR (rd s pte);
         c \<leftarrow> refcount pa s;
         if c = 1 then do {
           let s = wr pte (rd s pte AND NOT PTE_COW) s;
           let s = wr pte (rd s pte OR PTE_W) s;
           Some (False, lcr3 (V2P pgdir) s) }
         else if sint c > 1 then do {
           (p, s) \<leftarrow> kalloc s;
           if p = 0 then Some (True, s)
           else do {
             let s = s\<lparr>mem := memmove (mem s) p (P2V pa) PGSIZE\<rparr>;
             s \<leftarrow> add_refcount pa (-1) s;
             s \<leftarrow> add_refcount (V2P p) 1 s;
             let s = wr pte (V2P p OR PTE_P OR PTE_W OR PTE_U) s;
             Some (False, lcr3 (V2P pgdir) s) } }
         else None } })"

end
