(* ===== verification/PageTable.thy ===== *)
theory PageTable
  imports Vm
begin

text \<open>
  Page tables as data structures. \<open>pt_inv\<close> says that the directories and tables of the
  live address spaces and the free pages are pairwise disjoint pages of allocatable memory;
  \<open>lookup\<close> is the map from virtual addresses to entries a directory stands for. The
  lemmas give every operation of \<^verbatim>\<open>vm.c\<close> that touches page tables a description
  in terms of \<open>lookup\<close> alone.
\<close>

section \<open>Directories, tables and lookups\<close>

abbreviation present :: "u32 \<Rightarrow> bool" where "present e \<equiv> e AND PTE_P \<noteq> 0"

definition has_table :: "memory \<Rightarrow> u32 \<Rightarrow> u32 \<Rightarrow> bool" where
  "has_table m pd i \<longleftrightarrow> present (entry m pd i)"

definition table_of :: "memory \<Rightarrow> u32 \<Rightarrow> u32 \<Rightarrow> u32" where
  "table_of m pd i = P2V (PTE_ADDR (entry m pd i))"

definition pt_pages :: "memory \<Rightarrow> u32 \<Rightarrow> u32 set" where
  "pt_pages m pd = insert pd {table_of m pd i |i. i < 1024 \<and> has_table m pd i}"

definition lookup :: "memory \<Rightarrow> u32 \<Rightarrow> u32 \<Rightarrow> u32" where
  "lookup m pd va = (if has_table m pd (PDX va) then entry m (table_of m pd (PDX va)) (PTX va) else 0)"

definition pt_wf :: "'z kmem_scheme \<Rightarrow> u32 \<Rightarrow> bool" where
  "pt_wf s pd \<longleftrightarrow> kpage s pd \<and>
     (\<forall>i<1024. has_table (mem s) pd i \<longrightarrow> kpage s (table_of (mem s) pd i) \<and> table_of (mem s) pd i \<noteq> pd) \<and>
     inj_on (table_of (mem s) pd) {i. i < 1024 \<and> has_table (mem s) pd i}"

definition pt_inv :: "'z kmem_scheme \<Rightarrow> u32 list \<Rightarrow> u32 set \<Rightarrow> bool" where
  "pt_inv s fl pds \<longleftrightarrow> KERNBASE < kend s \<and> kmem_inv s fl \<and>
     (\<forall>pd\<in>pds. pt_wf s pd \<and> pt_pages (mem s) pd \<inter> set fl = {}) \<and>
     (\<forall>pd\<in>pds. \<forall>pd'\<in>pds. pd \<noteq> pd' \<longrightarrow> pt_pages (mem s) pd \<inter> pt_pages (mem s) pd' = {})"

text \<open>Memory that changed only in the pages of \<open>W\<close>.\<close>

definition same_except :: "u32 set \<Rightarrow> memory \<Rightarrow> memory \<Rightarrow> bool" where
  "same_except W m m' \<longleftrightarrow> (\<forall>a. PGROUNDDOWN a \<notin> W \<longrightarrow> m' a = m a)"

lemma same_except_refl [simp]: "same_except W m m"
  by (simp add: same_except_def)

lemma same_except_trans:
  "same_except W m m' \<Longrightarrow> same_except W' m' m'' \<Longrightarrow> W \<subseteq> V \<Longrightarrow> W' \<subseteq> V \<Longrightarrow> same_except V m m''"
  by (metis same_except_def subsetD)

lemma same_except_mono: "same_except W m m' \<Longrightarrow> W \<subseteq> V \<Longrightarrow> same_except V m m'"
  unfolding same_except_def by blast

lemma same_except_page: "same_except W m m' \<Longrightarrow> p \<notin> W \<Longrightarrow> in_page p a \<Longrightarrow> m' a = m a"
  by (auto simp: same_except_def in_page_def)

lemma same_except_entry:
  "same_except W m m' \<Longrightarrow> p \<notin> W \<Longrightarrow> page_aligned p \<Longrightarrow> i < 1024 \<Longrightarrow> entry m' p i = entry m p i"
  by (rule entry_cong) (simp_all add: same_except_page)

lemma same_except_store: "page_aligned p \<Longrightarrow> i < 1024 \<Longrightarrow> same_except {p} m (store32 m (p + 4 * i) w)"
  using store32_in_page [OF entry_word_in, of p i] by (auto simp: same_except_def in_page_def)

lemma same_except_memset: "page_aligned p \<Longrightarrow> same_except {p} m (memset m p c PGSIZE)"
  by (auto simp: same_except_def memset_page in_page_def)

section \<open>Pages of allocatable memory\<close>

lemma kpage_facts:
  assumes "KERNBASE \<le> kend s" and "kpage s p"
  shows "page_aligned p" and "KERNBASE \<le> p" and "p < P2V PHYSTOP" and "p \<noteq> 0"
    and "page_aligned (V2P p)" and "P2V (V2P p) = p" and "V2P p < PHYSTOP"
proof -
  show "page_aligned p" "V2P p < PHYSTOP" using assms by (simp_all add: kpage_def)
  show k: "KERNBASE \<le> p" using assms by (auto simp: kpage_def)
  then show "p \<noteq> 0" by (auto simp: KERNBASE_def)
  have u: "unat (V2P p) = unat p - unat KERNBASE" using k by (simp add: V2P_def unat_sub)
  show "p < P2V PHYSTOP" using k \<open>V2P p < PHYSTOP\<close> u
    by (simp add: word_less_nat_alt word_le_nat_alt layout_defs P2V_def)
  have "4096 dvd unat KERNBASE" by (simp add: KERNBASE_def)
  with u \<open>page_aligned p\<close> show "page_aligned (V2P p)" by (simp add: page_aligned_unat)
  show "P2V (V2P p) = p" by (simp add: P2V_def V2P_def)
qed

lemma kpage_cong: "kend t = kend s \<Longrightarrow> kpage t p \<longleftrightarrow> kpage s p"
  by (simp add: kpage_def)

lemma entry_addr_flags:
  assumes "KERNBASE \<le> kend s" and "kpage s p" and "f < 4096"
  shows "P2V (PTE_ADDR (V2P p OR f)) = p" and "g < 4096 \<Longrightarrow> (V2P p OR f) AND g = f AND g"
proof -
  show "P2V (PTE_ADDR (V2P p OR f)) = p"
    using kpage_facts [OF assms(1,2)] assms(3) by (simp add: PTE_ADDR_or)
  assume "g < 4096"
  with flag_of_flags [OF this, of "V2P p OR f"] show "(V2P p OR f) AND g = f AND g"
    using kpage_facts [OF assms(1,2)] assms(3) by (simp add: PTE_FLAGS_or)
qed

lemma pt_invD:
  assumes "pt_inv s fl pds"
  shows "KERNBASE \<le> kend s" and "kmem_inv s fl" and "pd \<in> pds \<Longrightarrow> pt_wf s pd"
    and "pd \<in> pds \<Longrightarrow> pt_pages (mem s) pd \<inter> set fl = {}"
    and "pd \<in> pds \<Longrightarrow> pd' \<in> pds \<Longrightarrow> pd \<noteq> pd' \<Longrightarrow> pt_pages (mem s) pd \<inter> pt_pages (mem s) pd' = {}"
  using assms by (auto simp: pt_inv_def)

lemma pt_inv_V2P_nonzero: "pt_inv s fl pds \<Longrightarrow> kpage s p \<Longrightarrow> V2P p \<noteq> 0"
  by (auto simp: pt_inv_def kpage_def V2P_def)

lemma pt_wf_pages:
  assumes "pt_wf s pd"
  shows "kpage s pd" and "p \<in> pt_pages (mem s) pd \<Longrightarrow> kpage s p" and "pd \<in> pt_pages (mem s) pd"
    and "i < 1024 \<Longrightarrow> has_table (mem s) pd i \<Longrightarrow> table_of (mem s) pd i \<in> pt_pages (mem s) pd"
    and "i < 1024 \<Longrightarrow> has_table (mem s) pd i \<Longrightarrow> table_of (mem s) pd i \<noteq> pd"
    and "i < 1024 \<Longrightarrow> has_table (mem s) pd i \<Longrightarrow> kpage s (table_of (mem s) pd i)"
    and "i < 1024 \<Longrightarrow> has_table (mem s) pd i \<Longrightarrow> j < 1024 \<Longrightarrow> has_table (mem s) pd j \<Longrightarrow>
         table_of (mem s) pd i = table_of (mem s) pd j \<longleftrightarrow> i = j"
  using assms unfolding pt_wf_def pt_pages_def by (auto dest: inj_onD)

section \<open>Framing\<close>

text \<open>A directory whose pages did not change stands for the same map.\<close>

lemma pt_cong:
  assumes "pt_wf s pd" and "same_except W (mem s) m" and "pt_pages (mem s) pd \<inter> W = {}"
  shows "i < 1024 \<Longrightarrow> has_table m pd i = has_table (mem s) pd i"
    and "i < 1024 \<Longrightarrow> table_of m pd i = table_of (mem s) pd i"
    and "pt_pages m pd = pt_pages (mem s) pd"
    and "lookup m pd va = lookup (mem s) pd va"
proof -
  have al: "page_aligned pd" using pt_wf_pages(1) [OF assms(1)] by (simp add: kpage_def)
  have e: "entry m pd i = entry (mem s) pd i" if "i < 1024" for i
    using assms(3) that al by (intro same_except_entry [OF assms(2)]) (auto simp: pt_pages_def)
  show h: "has_table m pd i = has_table (mem s) pd i" if "i < 1024" for i
    using e [OF that] by (simp add: has_table_def)
  show t: "table_of m pd i = table_of (mem s) pd i" if "i < 1024" for i
    using e [OF that] by (simp add: table_of_def)
  show "pt_pages m pd = pt_pages (mem s) pd" 
    unfolding pt_pages_def by (intro arg_cong [of _ _ "insert pd"] Collect_cong) (metis h t)
  have "entry m (table_of (mem s) pd i) j = entry (mem s) (table_of (mem s) pd i) j"
    if "i < 1024" "has_table (mem s) pd i" "j < 1024" for i j
    using assms(3) pt_wf_pages(4,6) [OF assms(1) that(1,2)] that
    by (intro same_except_entry [OF assms(2)]) (auto simp: kpage_def)
  then show "lookup m pd va = lookup (mem s) pd va" by (simp add: lookup_def h t)
qed

lemma pt_wf_cong:
  assumes "pt_wf s pd" and "same_except W (mem s) (mem t)" and "pt_pages (mem s) pd \<inter> W = {}" and "kend t = kend s"
  shows "pt_wf t pd"
proof -
  note c = pt_cong [OF assms(1-3)]
  have "inj_on (table_of (mem t) pd) {i. i < 1024 \<and> has_table (mem t) pd i}"
    using pt_wf_pages(7) [OF assms(1)] by (intro inj_onI) (auto simp: c(1,2))
  then show ?thesis
    using assms(1) by (simp add: pt_wf_def c(1,2) kpage_cong [OF assms(4)])
qed

lemma pt_inv_frame:
  assumes "pt_inv s fl pds" and "same_except W (mem s) (mem t)" and "\<And>pd. pd \<in> pds \<Longrightarrow> pt_pages (mem s) pd \<inter> W = {}"
    and "kend t = kend s" and "kmem_inv t fl'" and "\<And>pd. pd \<in> pds \<Longrightarrow> pt_pages (mem s) pd \<inter> set fl' = {}"
  shows "pt_inv t fl' pds"
proof -
  have "pt_wf t pd \<and> pt_pages (mem t) pd = pt_pages (mem s) pd" if "pd \<in> pds" for pd
    using pt_wf_cong [OF pt_invD(3) [OF assms(1) that] assms(2) assms(3) [OF that] assms(4)]
      pt_cong(3) [OF pt_invD(3) [OF assms(1) that] assms(2) assms(3) [OF that]] by blast
  with assms show ?thesis by (simp add: pt_inv_def)
qed

text \<open>The free list is intact when only pages that are not free change.\<close>

lemma kmem_inv_frame:
  assumes "kmem_inv s fl" and "same_except W (mem s) (mem t)" and "set fl \<inter> W = {}"
    and "freelist t = freelist s" "kend t = kend s" "use_lock t = use_lock s" "held t = held s"
  shows "kmem_inv t fl"
  using assms same_except_entry [OF assms(2), of _ 0]
  by (intro kmem_inv_cong [OF assms(1)]) (auto simp: kmem_inv_def kpage_def entry_def)

section \<open>Writing an entry\<close>

definition pte_addr :: "memory \<Rightarrow> u32 \<Rightarrow> u32 \<Rightarrow> u32" where
  "pte_addr m pd va = table_of m pd (PDX va) + 4 * PTX va"

lemma lookup_pte_addr: "has_table m pd (PDX va) \<Longrightarrow> load32 m (pte_addr m pd va) = lookup m pd va"
  by (simp add: lookup_def pte_addr_def entry_def)

lemma lookup_no_table: "\<not> has_table m pd (PDX va) \<Longrightarrow> lookup m pd va = 0"
  by (simp add: lookup_def)

lemma lookup_PGROUNDDOWN [simp]: "lookup m pd (PGROUNDDOWN va) = lookup m pd va"
  by (simp add: lookup_def)

lemma entry_addr_nonzero: "page_aligned p \<Longrightarrow> p \<noteq> 0 \<Longrightarrow> i < 1024 \<Longrightarrow> p + 4 * i \<noteq> 0"
  using page_offset_eq [of p 0 "4 * i" 0] entry_offset [of i]
  by (auto simp: page_aligned_def word_less_nat_alt word_le_nat_alt)

lemma set_pte:
  assumes inv: "pt_inv s fl pds" "pd \<in> pds" and ht: "has_table (mem s) pd (PDX va)"
    and m': "m' = store32 (mem s) (pte_addr (mem s) pd va) w"
  shows "pt_inv (s\<lparr>mem := m'\<rparr>) fl pds"
    and "pd' \<in> pds \<Longrightarrow> pt_pages m' pd' = pt_pages (mem s) pd'"
    and "pd' \<in> pds \<Longrightarrow> lookup m' pd' vb =
           (if pd' = pd \<and> PGROUNDDOWN vb = PGROUNDDOWN va then w else lookup (mem s) pd' vb)"
    and "same_except (pt_pages (mem s) pd) (mem s) m'"
    and "pd' \<in> pds \<Longrightarrow> i < 1024 \<Longrightarrow> has_table m' pd' i = has_table (mem s) pd' i"
    and "pd' \<in> pds \<Longrightarrow> i < 1024 \<Longrightarrow> table_of m' pd' i = table_of (mem s) pd' i"
proof -
  let ?T = "table_of (mem s) pd (PDX va)"
  note wf = pt_invD(3) [OF inv]
  have T: "page_aligned ?T" "?T \<noteq> pd" "?T \<in> pt_pages (mem s) pd"
    using pt_wf_pages(4-6) [OF wf PDX_less ht] by (auto simp: kpage_def)
  have al: "page_aligned pd" using pt_wf_pages(1) [OF wf] by (simp add: kpage_def)
  have se: "same_except {?T} (mem s) m'" unfolding m' pte_addr_def by (rule same_except_store [OF T(1) PTX_less])
  have e: "entry m' pd i = entry (mem s) pd i" if "i < 1024" for i
    using same_except_entry [OF se _ al that] T(2) by simp
  have other: "pt_pages (mem s) pd' \<inter> {?T} = {}" if "pd' \<in> pds" "pd' \<noteq> pd" for pd'
    using pt_invD(5) [OF inv(1) that(1) inv(2) that(2)] T(3) by auto
  note co = pt_cong [OF pt_invD(3) [OF inv(1)] se other]
  show h: "has_table m' pd' i = has_table (mem s) pd' i" if "pd' \<in> pds" "i < 1024" for pd' i
    using co(1) [OF that(1) that(1)] e that(2) by (cases "pd' = pd") (auto simp: has_table_def)
  show t: "table_of m' pd' i = table_of (mem s) pd' i" if "pd' \<in> pds" "i < 1024" for pd' i
    using co(2) [OF that(1) that(1)] e that(2) by (cases "pd' = pd") (auto simp: table_of_def)
  show pp: "pt_pages m' pd' = pt_pages (mem s) pd'" if "pd' \<in> pds" for pd'
    unfolding pt_pages_def by (intro arg_cong [of _ _ "insert pd'"] Collect_cong) (metis h t that)
  have ent: "entry m' (table_of (mem s) pd i) j = (if i = PDX va \<and> j = PTX va then w else entry (mem s) (table_of (mem s) pd i) j)"
    if "i < 1024" "has_table (mem s) pd i" "j < 1024" for i j
  proof -
    have "page_aligned (table_of (mem s) pd i)" using pt_wf_pages(6) [OF wf that(1,2)] by (simp add: kpage_def)
    from entry_store [OF T(1) this PTX_less that(3)] show ?thesis
      using pt_wf_pages(7) [OF wf PDX_less ht that(1,2)] by (auto simp: m' pte_addr_def)
  qed
  show "lookup m' pd' vb = (if pd' = pd \<and> PGROUNDDOWN vb = PGROUNDDOWN va then w else lookup (mem s) pd' vb)"
    if "pd' \<in> pds" for pd' vb
  proof (cases "pd' = pd")
    case True
    then show ?thesis using ent [OF PDX_less _ PTX_less] ht PDX_PTX_iff [of vb va] inv(2)
      by (auto simp: lookup_def h t)
  qed (simp add: co(4) [OF that that])
  show "same_except (pt_pages (mem s) pd) (mem s) m'" using se T(3) by (auto intro: same_except_mono)
  have "inj_on (table_of m' pd') {i. i < 1024 \<and> has_table m' pd' i}" if "pd' \<in> pds" for pd'
    using pt_wf_pages(7) [OF pt_invD(3) [OF inv(1) that]] by (intro inj_onI) (auto simp: h t that)
  moreover have "kmem_inv (s\<lparr>mem := m'\<rparr>) fl"
    using se T(3) pt_invD(4) [OF inv] by (intro kmem_inv_frame [OF pt_invD(2) [OF inv(1)]]) auto
  ultimately show "pt_inv (s\<lparr>mem := m'\<rparr>) fl pds"
    using inv(1) by (auto simp: pt_inv_def pt_wf_def h t pp kpage_def)
qed

section \<open>Adding a page table\<close>

lemma new_table_entries:
  assumes "page_aligned pd" and "page_aligned p" and "p \<noteq> pd" and "i < 1024"
    and m': "m' = store32 (memset m p 0 PGSIZE) (pd + 4 * i) e"
  shows "j < 1024 \<Longrightarrow> entry m' pd j = (if j = i then e else entry m pd j)"
    and "j < 1024 \<Longrightarrow> entry m' p j = 0"
    and "same_except {p, pd} m m'"
proof -
  show "j < 1024 \<Longrightarrow> entry m' pd j = (if j = i then e else entry m pd j)"
    using assms by (auto simp: entry_store entry_zero_page)
  show "j < 1024 \<Longrightarrow> entry m' p j = 0"
    using assms by (auto simp: entry_store entry_zero_page)
  show "same_except {p, pd} m m'" unfolding m'
    by (rule same_except_trans [OF same_except_memset [OF assms(2)] same_except_store [OF assms(1,4)]]) auto
qed

lemma new_table:
  assumes inv: "pt_inv s (p # fl) pds" "pd \<in> pds" and nt: "\<not> has_table (mem s) pd i" and i: "i < 1024"
    and f: "f < 4096" "f AND PTE_P \<noteq> 0"
    and m': "m' = store32 (memset (mem s) p 0 PGSIZE) (pd + 4 * i) (V2P p OR f)"
  shows "pt_inv (s\<lparr>freelist := load32 (mem s) p, mem := m'\<rparr>) fl pds"
    and "pd' \<in> pds \<Longrightarrow> lookup m' pd' va = lookup (mem s) pd' va"
    and "has_table m' pd i" and "table_of m' pd i = p"
    and "pd' \<in> pds \<Longrightarrow> pt_pages m' pd' = (if pd' = pd then insert p (pt_pages (mem s) pd) else pt_pages (mem s) pd')"
    and "same_except {p, pd} (mem s) m'"
proof -
  note wf = pt_invD(3) [OF inv]
  have ke: "KERNBASE \<le> kend s" and ki: "kmem_inv s (p # fl)" using inv(1) by (auto simp: pt_inv_def)
  then have kp: "kpage s p" "p \<notin> set fl" by (auto simp: kmem_inv_def)
  have fresh: "p \<notin> pt_pages (mem s) pd'" if "pd' \<in> pds" for pd' using pt_invD(4) [OF inv(1) that] by auto
  have al: "page_aligned pd" "page_aligned p" using pt_wf_pages(1) [OF wf] kp by (simp_all add: kpage_def)
  have pn: "p \<noteq> pd" using fresh [OF inv(2)] by (auto simp: pt_pages_def)
  note ne = new_table_entries [OF al pn i m']
  note ef = entry_addr_flags [OF ke kp(1) f(1)]
  show se: "same_except {p, pd} (mem s) m'" by (rule ne(3))
  have other: "pt_pages (mem s) pd' \<inter> {p, pd} = {}" if "pd' \<in> pds" "pd' \<noteq> pd" for pd'
    using pt_invD(5) [OF inv(1) that(1) inv(2) that(2)] fresh [OF that(1)] pt_wf_pages(3) [OF wf] by auto
  note co = pt_cong [OF pt_invD(3) [OF inv(1)] se other]
  have h: "has_table m' pd j \<longleftrightarrow> j = i \<or> has_table (mem s) pd j" if "j < 1024" for j
    using ne(1) [OF that] ef(2) [of PTE_P] f(2) by (simp add: has_table_def)
  have t: "table_of m' pd j = (if j = i then p else table_of (mem s) pd j)" if "j < 1024" for j
    using ne(1) [OF that] ef(1) by (simp add: table_of_def)
  show "has_table m' pd i" "table_of m' pd i = p" using h t i by auto
  have new: "pt_pages m' pd = insert p (pt_pages (mem s) pd)"
    unfolding pt_pages_def using h t i nt by (auto; metis)
  show pp: "pt_pages m' pd' = (if pd' = pd then insert p (pt_pages (mem s) pd) else pt_pages (mem s) pd')"
    if "pd' \<in> pds" for pd' using new co(3) [OF that that] by auto
  have old: "entry m' (table_of (mem s) pd j) k = entry (mem s) (table_of (mem s) pd j) k"
    if "j < 1024" "has_table (mem s) pd j" "k < 1024" for j k
    using pt_wf_pages(4-6) [OF wf that(1,2)] fresh [OF inv(2)] that(3)
    by (intro same_except_entry [OF se]) (auto simp: kpage_def)
  show "lookup m' pd' va = lookup (mem s) pd' va" if "pd' \<in> pds" for pd' va
    using co(4) [OF that that] ne(2) old nt by (cases "pd' = pd") (auto simp: lookup_def h t)
  show "pt_inv (s\<lparr>freelist := load32 (mem s) p, mem := m'\<rparr>) fl pds" (is "pt_inv ?t fl pds")
  proof -
    have "pt_pages (mem s) pd \<inter> set fl = {}" using pt_invD(4) [OF inv] by auto
    then have "kmem_inv ?t fl"
      using se kp(2) pt_wf_pages(3) [OF wf]
      by (intro kmem_inv_frame [OF kalloc_inv [OF ki], of "{p, pd}"]) auto
    moreover have "pt_wf ?t pd"
      using wf kp(1) pn fresh [OF inv(2)] nt pt_wf_pages(4) [OF wf]
      by (auto simp: pt_wf_def h t kpage_def inj_on_def)
    moreover have "pt_wf ?t pd'" if "pd' \<in> pds" "pd' \<noteq> pd" for pd'
      using pt_wf_cong [OF pt_invD(3) [OF inv(1) that(1)] _ other [OF that], of ?t] se by simp
    ultimately show ?thesis
      using inv fresh kp(2) by (auto simp: pt_inv_def pp)
  qed
qed

section \<open>walkpgdir and mappages\<close>

text \<open>Only memory and the free list changed.\<close>

definition only_mem :: "'z vm_scheme \<Rightarrow> 'z vm_scheme \<Rightarrow> bool" where
  "only_mem s t \<longleftrightarrow> t = s\<lparr>mem := mem t, freelist := freelist t\<rparr>"

lemma only_mem_simps [simp]: "only_mem s s" "only_mem s (s\<lparr>mem := m\<rparr>)"
  "only_mem s (s\<lparr>freelist := f, mem := m\<rparr>)" "only_mem s (s\<lparr>freelist := f\<rparr>)"
  by (simp_all add: only_mem_def)

lemma only_memD:
  assumes "only_mem s t"
  shows "kend t = kend s" "use_lock t = use_lock s" "held t = held s" "pg_refcount t = pg_refcount s"
    "kpgdir t = kpgdir s" "kdata t = kdata s" "cr3 t = cr3 s" "kmap t = kmap s"
proof -
  have t: "t = s\<lparr>mem := mem t, freelist := freelist t\<rparr>" using assms by (simp add: only_mem_def)
  show "kend t = kend s" "use_lock t = use_lock s" "held t = held s" "pg_refcount t = pg_refcount s"
    "kpgdir t = kpgdir s" "kdata t = kdata s" "cr3 t = cr3 s" "kmap t = kmap s"
    by (subst t, simp add: kmap_def)+
qed

lemma only_mem_trans:
  assumes "only_mem s t" and "only_mem t u"
  shows "only_mem s u"
proof -
  have "u = t\<lparr>mem := mem u, freelist := freelist u\<rparr>" "t = s\<lparr>mem := mem t, freelist := freelist t\<rparr>"
    using assms by (auto simp: only_mem_def)
  then have "u = s\<lparr>mem := mem t, freelist := freelist t, mem := mem u, freelist := freelist u\<rparr>" by simp
  then show ?thesis by (simp add: only_mem_def)
qed

text \<open>The page tables of \<open>pd\<close> may have grown by the pages \<open>used\<close>; the other address
  spaces, all other memory and the rest of the state are as before.\<close>

definition grown :: "'z vm_scheme \<Rightarrow> 'z vm_scheme \<Rightarrow> u32 set \<Rightarrow> u32 \<Rightarrow> u32 list \<Rightarrow> bool" where
  "grown s t pds pd used \<longleftrightarrow>
     pt_pages (mem t) pd = set used \<union> pt_pages (mem s) pd \<and>
     (\<forall>pd'\<in>pds - {pd}. pt_pages (mem t) pd' = pt_pages (mem s) pd' \<and> lookup (mem t) pd' = lookup (mem s) pd') \<and>
     same_except (set used \<union> pt_pages (mem s) pd) (mem s) (mem t) \<and>
     only_mem s t"

lemma grown_refl: "grown s s pds pd []"
  by (simp add: grown_def)

lemma grown_trans:
  assumes "grown s t pds pd us" and "grown t u pds pd vs"
  shows "grown s u pds pd (us @ vs)"
proof -
  have "only_mem s u" using assms only_mem_trans by (auto simp: grown_def)
  moreover have "same_except (set (us @ vs) \<union> pt_pages (mem s) pd) (mem s) (mem u)"
    using assms by (auto simp: grown_def intro: same_except_trans)
  ultimately show ?thesis using assms by (auto simp: grown_def)
qed

lemma walk_hit:
  "has_table (mem s) pd (PDX va) \<Longrightarrow> walkpgdir pd va alloc s = Some (pte_addr (mem s) pd va, s)"
  by (simp add: walkpgdir_def has_table_def entry_def table_of_def pte_addr_def)

lemma walk_miss: "\<not> has_table (mem s) pd (PDX va) \<Longrightarrow> walkpgdir pd va False s = Some (0, s)"
  by (simp add: walkpgdir_def has_table_def entry_def)

lemma pte_addr_nonzero:
  assumes "pt_inv s fl pds" and "pd \<in> pds" and "has_table (mem s) pd (PDX va)"
  shows "pte_addr (mem s) pd va \<noteq> 0"
proof -
  have "kpage s (table_of (mem s) pd (PDX va))"
    using pt_wf_pages(6) [OF pt_invD(3) [OF assms(1,2)] PDX_less assms(3)] .
  then show ?thesis
    using kpage_facts [OF pt_invD(1) [OF assms(1)]] by (simp add: pte_addr_def entry_addr_nonzero)
qed

lemma walk_alloc:
  assumes inv: "pt_inv s fl pds" "pd \<in> pds"
  obtains pte t used fl' where "walkpgdir pd va True s = Some (pte, t)" and "fl = used @ fl'"
    and "pt_inv t fl' pds" and "grown s t pds pd used" and "lookup (mem t) pd = lookup (mem s) pd"
    and "pte = 0 \<and> t = s \<and> fl = [] \<or> pte \<noteq> 0 \<and> has_table (mem t) pd (PDX va) \<and> pte = pte_addr (mem t) pd va"
proof (cases "has_table (mem s) pd (PDX va)")
  case True
  show ?thesis
    by (rule that [OF walk_hit [OF True], of "[]" fl])
       (use inv True pte_addr_nonzero [OF inv True] in \<open>auto simp: grown_refl\<close>)
next
  case nt: False
  show ?thesis
  proof (cases fl)
    case Nil
    have "walkpgdir pd va True s = Some (0, s)"
      using nt Nil kalloc_empty [of s] pt_invD(2) [OF inv(1)]
      by (simp add: walkpgdir_def has_table_def entry_def Let_def)
    from that [OF this, of "[]" fl] show ?thesis using inv(1) Nil by (simp add: grown_refl)
  next
    case (Cons p qs)
    define m' where "m' = store32 (memset (mem s) p 0 PGSIZE) (pd + 4 * PDX va) (V2P p OR (PTE_P OR PTE_W OR PTE_U OR PTE_COW))"
    let ?t = "s\<lparr>freelist := load32 (mem s) p, mem := m'\<rparr>"
    have inv': "pt_inv s (p # qs) pds" using inv(1) Cons by simp
    have kp: "kpage s p" "p \<noteq> 0"
      using pt_invD(1,2) [OF inv'] kpage_facts(4) by (auto simp: kmem_inv_def)
    have "walkpgdir pd va True s = Some (p + 4 * PTX va, ?t)"
      using nt kalloc_eq [of s p qs] pt_invD(2) [OF inv'] kp(2)
      by (simp add: walkpgdir_def has_table_def entry_def Let_def m'_def or.assoc)
    note w = this
    have "(PTE_P OR PTE_W OR PTE_U OR PTE_COW) AND PTE_P \<noteq> 0" by (simp add: PTE_defs)
    note n = new_table [OF inv' inv(2) nt PDX_less _ this m'_def]
    have "lookup m' pd' = lookup (mem s) pd'" if "pd' \<in> pds" for pd' using n(2) [OF _ that] by auto
    moreover have "grown s ?t pds pd [p]"
      using n(5) [OF _ inv(2)] n(5) n(6) inv(2) pt_wf_pages(3) [OF pt_invD(3) [OF inv]] calculation
      by (auto simp: grown_def intro: same_except_mono)
    ultimately show ?thesis
      using that [OF w, of "[p]" qs] Cons n(1,3,4) inv(2) pte_addr_nonzero [of ?t qs pds pd va]
      by (auto simp: pte_addr_def)
  qed
qed

lemma grown_set_pte:
  assumes "pt_inv s fl pds" and "pd \<in> pds" and "has_table (mem s) pd (PDX va)"
  shows "grown s (s\<lparr>mem := store32 (mem s) (pte_addr (mem s) pd va) w\<rparr>) pds pd []"
  using set_pte(2,3,4) [OF assms refl] assms(2) by (auto simp: grown_def fun_eq_iff)

lemma page_aligned_diff: "page_aligned a \<Longrightarrow> page_aligned b \<Longrightarrow> page_aligned (a - b)"
  by (auto simp: page_aligned_unat unat_sub_if_size word_size)

lemma page_off_step:
  assumes "page_aligned d"
  shows "d \<noteq> 0 \<Longrightarrow> 4096 \<le> unat d \<and> unat (d - 4096) = unat d - 4096"
proof -
  assume "d \<noteq> 0"
  moreover have "4096 dvd unat d" using assms by (simp add: page_aligned_unat)
  ultimately have "4096 \<le> unat d" by (intro dvd_imp_le) (simp_all add: unat_gt_0)
  then show ?thesis using unat_sub [of 4096 d] by (simp add: word_le_nat_alt)
qed

lemma same_page_iff: "page_aligned a \<Longrightarrow> PGROUNDDOWN va = a \<longleftrightarrow> unat (PGROUNDDOWN va - a) < 4096"
  using page_off_step [of "PGROUNDDOWN va - a"] by (auto simp: page_aligned_diff not_less [symmetric])

lemma next_pages_iff:
  assumes "page_aligned a" and "k < 2 ^ 20"
  shows "unat (PGROUNDDOWN va - a) < Suc k * 4096 \<longleftrightarrow>
           PGROUNDDOWN va = a \<or> unat (PGROUNDDOWN va - (a + PGSIZE)) < k * 4096"
    and "PGROUNDDOWN va = a \<Longrightarrow> \<not> unat (PGROUNDDOWN va - (a + PGSIZE)) < k * 4096"
proof -
  let ?d = "PGROUNDDOWN va - a"
  have d: "PGROUNDDOWN va - (a + PGSIZE) = ?d - 4096" by (simp add: PGSIZE_def)
  have al: "page_aligned ?d" using assms(1) by (simp add: page_aligned_diff)
  show last: "PGROUNDDOWN va = a \<Longrightarrow> \<not> unat (PGROUNDDOWN va - (a + PGSIZE)) < k * 4096"
    unfolding d using assms(2) by simp
  show "unat ?d < Suc k * 4096 \<longleftrightarrow> PGROUNDDOWN va = a \<or> unat (PGROUNDDOWN va - (a + PGSIZE)) < k * 4096"
    using page_off_step [OF al] unfolding d by (cases "?d = 0") auto
qed

text \<open>One round of the loop: either no page is left for a table, or the entry is written.\<close>

lemma mappages_round:
  assumes inv: "pt_inv s fl pds" "pd \<in> pds" and a: "page_aligned a" and np: "\<not> present (lookup (mem s) pd a)"
  obtains "mappages_loop pd a a_last pa perm s = Some (-1, s)" and "fl = []"
  | t used fl' where "mappages_loop pd a a_last pa perm s =
        (if a = a_last then Some (0, t) else mappages_loop pd (a + PGSIZE) a_last (pa + PGSIZE) perm t)"
      and "fl = used @ fl'" and "pt_inv t fl' pds" and "grown s t pds pd used"
      and "\<And>va. lookup (mem t) pd va = (if PGROUNDDOWN va = a then pa OR perm OR PTE_P else lookup (mem s) pd va)"
proof -
  obtain pte t used fl' where w: "walkpgdir pd a True s = Some (pte, t)" "fl = used @ fl'"
      "pt_inv t fl' pds" "grown s t pds pd used" "lookup (mem t) pd = lookup (mem s) pd"
    and c: "pte = 0 \<and> t = s \<and> fl = [] \<or> pte \<noteq> 0 \<and> has_table (mem t) pd (PDX a) \<and> pte = pte_addr (mem t) pd a"
    using walk_alloc [OF inv] by metis
  show ?thesis
  proof (cases "pte = 0")
    case True
    then have "mappages_loop pd a a_last pa perm s = Some (-1, s)"
      using w(1) c by (subst mappages_loop.simps) simp
    with True c that(1) show ?thesis by simp
  next
    case False
    with c have ht: "has_table (mem t) pd (PDX a)" and pte: "pte = pte_addr (mem t) pd a" by auto
    have "rd t pte = lookup (mem s) pd a" using lookup_pte_addr [OF ht] w(5) pte by simp
    then have "mappages_loop pd a a_last pa perm s =
        (if a = a_last then Some (0, wr pte (pa OR perm OR PTE_P) t)
         else mappages_loop pd (a + PGSIZE) a_last (pa + PGSIZE) perm (wr pte (pa OR perm OR PTE_P) t))"
      using w(1) False np by (subst mappages_loop.simps) simp
    then show ?thesis
      using that(2) [of "wr pte (pa OR perm OR PTE_P) t" used fl'] w set_pte(1,3) [OF w(3) inv(2) ht refl]
        grown_trans [OF w(4) grown_set_pte [OF w(3) inv(2) ht]] a inv(2) by (simp add: pte)
  qed
qed

lemma mappages_loop_spec:
  assumes "pt_inv s fl pds" and "pd \<in> pds" and "page_aligned a" and "n < 2 ^ 20"
    and "\<forall>va. unat (PGROUNDDOWN va - a) < Suc n * 4096 \<longrightarrow> \<not> present (lookup (mem s) pd va)"
  shows "\<exists>r t used fl' k. mappages_loop pd a (a + of_nat n * PGSIZE) pa perm s = Some (r, t) \<and>
           fl = used @ fl' \<and> pt_inv t fl' pds \<and> grown s t pds pd used \<and>
           (r = 0 \<and> k = Suc n \<or> r = -1 \<and> k \<le> n \<and> fl' = []) \<and>
           (\<forall>va. lookup (mem t) pd va =
              (if unat (PGROUNDDOWN va - a) < k * 4096 then (pa + (PGROUNDDOWN va - a)) OR perm OR PTE_P
               else lookup (mem s) pd va))"
  using assms
proof (induction n arbitrary: s fl a pa)
  case (0 s fl a pa)
  have np: "\<not> present (lookup (mem s) pd a)" using 0(5) [rule_format, of a] 0(3) by simp
  show ?case
  proof (cases rule: mappages_round [OF 0(1-3) np, of a pa perm])
    case 1
    then show ?thesis using 0(1) by (fastforce simp: grown_refl)
  next
    case (2 t used fl')
    then show ?thesis using 0(3)
      by (intro exI [of _ 0] exI [of _ t] exI [of _ used] exI [of _ fl'] exI [of _ "Suc 0"])
         (simp add: same_page_iff [symmetric])
  qed
next
  case (Suc n s fl a pa)
  have np: "\<not> present (lookup (mem s) pd a)" using Suc.prems(5) [rule_format, of a] Suc.prems(3) by simp
  have "unat (of_nat (Suc n) * PGSIZE) = Suc n * 4096"
    using Suc.prems(4) by (simp add: unat_word_ariths unat_of_nat PGSIZE_def)
  then have ne: "a \<noteq> a + of_nat (Suc n) * PGSIZE" by auto
  have la: "a + of_nat (Suc n) * PGSIZE = (a + PGSIZE) + of_nat n * PGSIZE" by (simp add: algebra_simps)
  show ?case
  proof (cases rule: mappages_round [OF Suc.prems(1-3) np, of "a + of_nat (Suc n) * PGSIZE" pa perm])
    case 1
    then show ?thesis using Suc.prems(1) by (fastforce simp: grown_refl)
  next
    case (2 t used fl')
    note nx = next_pages_iff [OF Suc.prems(3)]
    have free: "\<forall>va. unat (PGROUNDDOWN va - (a + PGSIZE)) < Suc n * 4096 \<longrightarrow> \<not> present (lookup (mem t) pd va)"
    proof (intro allI impI)
      fix va
      assume that: "unat (PGROUNDDOWN va - (a + PGSIZE)) < Suc n * 4096"
      have "PGROUNDDOWN va \<noteq> a" using that nx(2) [OF Suc.prems(4)] by blast
      moreover have "unat (PGROUNDDOWN va - a) < Suc (Suc n) * 4096" using that nx(1) [OF Suc.prems(4)] by blast
      ultimately show "\<not> present (lookup (mem t) pd va)" using 2(5) [of va] Suc.prems(5) by simp
    qed
    have "n < 2 ^ 20" using Suc.prems(4) by simp
    from Suc.IH [OF 2(3) Suc.prems(2) PGSIZE_step_aligned [OF Suc.prems(3)] this free, of "pa + PGSIZE"]
    obtain r u used' fl'' k where IH: "mappages_loop pd (a + PGSIZE) (a + PGSIZE + of_nat n * PGSIZE) (pa + PGSIZE) perm t = Some (r, u)"
      "fl' = used' @ fl''" "pt_inv u fl'' pds" "grown t u pds pd used'"
      "r = 0 \<and> k = Suc n \<or> r = -1 \<and> k \<le> n \<and> fl'' = []"
      "\<forall>va. lookup (mem u) pd va = (if unat (PGROUNDDOWN va - (a + PGSIZE)) < k * 4096
         then (pa + PGSIZE + (PGROUNDDOWN va - (a + PGSIZE))) OR perm OR PTE_P else lookup (mem t) pd va)"
      by (elim exE conjE) blast
    have k: "k < 2 ^ 20" using IH(5) Suc.prems(4) by auto
    have "lookup (mem u) pd va = (if unat (PGROUNDDOWN va - a) < Suc k * 4096
        then (pa + (PGROUNDDOWN va - a)) OR perm OR PTE_P else lookup (mem s) pd va)" for va
      unfolding nx(1) [OF k] IH(6) [rule_format] 2(5) using nx(2) [OF k, of va] by simp
    moreover have "mappages_loop pd a (a + of_nat (Suc n) * PGSIZE) pa perm s = Some (r, u)"
      by (rule trans [OF 2(1) [unfolded if_not_P [OF ne]]]) (simp only: la IH(1))
    moreover have "r = 0 \<and> Suc k = Suc (Suc n) \<or> r = -1 \<and> Suc k \<le> Suc n \<and> fl'' = []" using IH(5) by auto
    ultimately show ?thesis
      using 2(2) IH(2,3) grown_trans [OF 2(4) IH(4)]
      by (intro exI [of _ r] exI [of _ u] exI [of _ "used @ used'"] exI [of _ fl''] exI [of _ "Suc k"] conjI) simp_all
  qed
qed

lemma PGROUNDDOWN_last: "page_aligned p \<Longrightarrow> PGROUNDDOWN (p + PGSIZE - 1) = p"
proof -
  assume "page_aligned p"
  then have "PGROUNDDOWN (p + 4095) = p" by (rule PGROUNDDOWN_offset) simp
  then show ?thesis by (simp add: PGSIZE_def add.commute)
qed

lemma mappages_page:
  assumes inv: "pt_inv s fl pds" "pd \<in> pds" and a: "page_aligned a" and np: "\<not> present (lookup (mem s) pd a)"
  obtains "mappages pd a PGSIZE pa perm s = Some (-1, s)" and "fl = []"
  | t used fl' where "mappages pd a PGSIZE pa perm s = Some (0, t)"
      and "fl = used @ fl'" and "pt_inv t fl' pds" and "grown s t pds pd used"
      and "\<And>va. lookup (mem t) pd va = (if PGROUNDDOWN va = a then pa OR perm OR PTE_P else lookup (mem s) pd va)"
proof -
  have m: "mappages pd a PGSIZE pa perm s = mappages_loop pd a a pa perm s"
    using a PGROUNDDOWN_last [OF a] by (simp add: mappages_def)
  show ?thesis
    by (rule mappages_round [OF inv a np, of a pa perm]) (use that m in auto)
qed

text \<open>The pages from \<open>v\<close> on, \<open>n\<close> of them, as an interval of addresses.\<close>

lemma page_range_iff:
  assumes v: "page_aligned v" and n: "unat v + n * 4096 \<le> 2 ^ 32"
  shows "unat (PGROUNDDOWN va - v) < n * 4096 \<longleftrightarrow> unat v \<le> unat va \<and> unat va < unat v + n * 4096"
proof -
  have va: "unat va = unat (PGROUNDDOWN va) + unat (va AND 0xFFF)" and l: "unat (va AND 0xFFF) < 4096"
  proof -
    show l: "unat (va AND 0xFFF) < 4096" using low12_less [of va] by (simp add: word_less_nat_alt del: low12_less)
    have "PGROUNDDOWN va \<le> va" by (simp add: PGROUNDDOWN_def word_and_le2)
    moreover have "va AND 0xFFF = va - PGROUNDDOWN va" using page_split [of va] by (simp add: algebra_simps)
    ultimately show "unat va = unat (PGROUNDDOWN va) + unat (va AND 0xFFF)"
      using unat_sub [of "PGROUNDDOWN va" va] by (simp add: word_le_nat_alt)
  qed
  obtain i j where ij: "unat v = 4096 * i" "unat (PGROUNDDOWN va) = 4096 * j"
    using v page_aligned_PGROUNDDOWN [of va] by (auto simp: page_aligned_unat dvd_def simp del: page_aligned_PGROUNDDOWN)
  have "unat (PGROUNDDOWN va - v) = (if i \<le> j then 4096 * (j - i) else 4096 * j + 2 ^ 32 - 4096 * i)"
    by (simp add: unat_sub_if_size word_size ij right_diff_distrib')
  moreover have "i * 4096 + n * 4096 \<le> 2 ^ 32" using n ij(1) by simp
  moreover have "unat v \<le> unat va \<longleftrightarrow> i \<le> j" using va l ij by auto
  moreover have "unat va < unat v + n * 4096 \<longleftrightarrow> j < i + n" using va l ij by auto
  ultimately show ?thesis by auto
qed

lemma mappages_range:
  assumes inv: "pt_inv s fl pds" "pd \<in> pds" and v: "page_aligned v" and n: "0 < n" "unat v + n * 4096 \<le> 2 ^ 32"
    and n20: "n \<le> 2 ^ 20" and sz: "sz = of_nat n * PGSIZE"
    and np: "\<forall>va. unat v \<le> unat va \<and> unat va < unat v + n * 4096 \<longrightarrow> \<not> present (lookup (mem s) pd va)"
  obtains r t used fl' where "mappages pd v sz pa perm s = Some (r, t)" and "fl = used @ fl'"
    and "pt_inv t fl' pds" and "grown s t pds pd used" and "r = 0 \<or> r = -1"
    and "r = 0 \<Longrightarrow> \<forall>va. lookup (mem t) pd va =
           (if unat v \<le> unat va \<and> unat va < unat v + n * 4096 then (pa + (PGROUNDDOWN va - v)) OR perm OR PTE_P
            else lookup (mem s) pd va)"
    and "\<forall>va. unat va < unat v \<longrightarrow> lookup (mem t) pd va = lookup (mem s) pd va"
proof -
  obtain k where k: "n = Suc k" using n(1) by (cases n) auto
  have "v + sz - 1 = (v + of_nat k * PGSIZE) + PGSIZE - 1" by (simp add: sz k algebra_simps)
  moreover have "page_aligned (v + of_nat k * PGSIZE)"
  proof -
    have "page_aligned (of_nat k * PGSIZE)"
      by (simp add: page_aligned_unat PGSIZE_def unat_word_ariths dvd_mod)
    with v show ?thesis by (simp add: page_aligned_unat unat_word_ariths dvd_mod)
  qed
  ultimately have m: "mappages pd v sz pa perm s = mappages_loop pd v (v + of_nat k * PGSIZE) pa perm s"
    using v PGROUNDDOWN_last [of "v + of_nat k * PGSIZE"] unfolding mappages_def by (simp only: PGROUNDDOWN_aligned)
  have free: "\<forall>va. unat (PGROUNDDOWN va - v) < Suc k * 4096 \<longrightarrow> \<not> present (lookup (mem s) pd va)"
    using np page_range_iff [OF v n(2)] k by simp
  have "k < 2 ^ 20" using n20 k by simp
  from mappages_loop_spec [OF inv v this free, of pa perm]
  obtain r t used fl' j where r: "mappages pd v sz pa perm s = Some (r, t)" "fl = used @ fl'"
      "pt_inv t fl' pds" "grown s t pds pd used" "r = 0 \<and> j = Suc k \<or> r = -1 \<and> j \<le> k \<and> fl' = []"
      "\<forall>va. lookup (mem t) pd va =
              (if unat (PGROUNDDOWN va - v) < j * 4096 then (pa + (PGROUNDDOWN va - v)) OR perm OR PTE_P
               else lookup (mem s) pd va)"
    unfolding m by blast
  have "unat v + j * 4096 \<le> 2 ^ 32" using r(5) n(2) k by auto
  note j = page_range_iff [OF v this]
  show ?thesis
    using that [OF r(1-4)] r(5,6) unfolding j k by auto
qed

section \<open>The kernel half of an address space\<close>

text \<open>The entries the table \<open>kmap\<close> asks for.\<close>

definition kmap_size :: "kmap_entry \<Rightarrow> nat" where
  "kmap_size k = unat (phys_end k - phys_start k)"

definition covers :: "kmap_entry \<Rightarrow> u32 \<Rightarrow> bool" where
  "covers k va \<longleftrightarrow> unat (virt k) \<le> unat va \<and> unat va < unat (virt k) + kmap_size k"

fun kmap_pte :: "kmap_entry list \<Rightarrow> u32 \<Rightarrow> u32" where
  "kmap_pte [] va = 0"
| "kmap_pte (k # ks) va =
     (if covers k va then (phys_start k + (PGROUNDDOWN va - virt k)) OR kperm k OR PTE_P else kmap_pte ks va)"

definition kmap_entry_ok :: "kmap_entry \<Rightarrow> bool" where
  "kmap_entry_ok k \<longleftrightarrow> page_aligned (virt k) \<and> KERNBASE \<le> virt k \<and> 4096 dvd kmap_size k \<and> 0 < kmap_size k \<and>
     unat (virt k) + kmap_size k \<le> 2 ^ 32"

fun kmap_ok :: "kmap_entry list \<Rightarrow> bool" where
  "kmap_ok [] \<longleftrightarrow> True"
| "kmap_ok (k # ks) \<longleftrightarrow> kmap_entry_ok k \<and> (\<forall>k'\<in>set ks. \<forall>va. \<not> (covers k va \<and> covers k' va)) \<and> kmap_ok ks"

lemma mappages_kmap_entry:
  assumes inv: "pt_inv s fl pds" "d \<in> pds" and k: "kmap_entry_ok k"
    and np: "\<forall>va. covers k va \<longrightarrow> \<not> present (lookup (mem s) d va)"
  obtains r t used fl' where
    "mappages d (virt k) (phys_end k - phys_start k) (phys_start k) (kperm k) s = Some (r, t)"
    and "fl = used @ fl'" and "pt_inv t fl' pds" and "grown s t pds d used" and "r = 0 \<or> r = -1"
    and "r = 0 \<longrightarrow> (\<forall>va. lookup (mem t) d va = (if covers k va then kmap_pte [k] va else lookup (mem s) d va))"
    and "\<forall>va<KERNBASE. lookup (mem t) d va = lookup (mem s) d va"
proof -
  obtain n where n: "kmap_size k = n * 4096" using k by (auto simp: kmap_entry_ok_def dvd_def mult.commute)
  have v: "page_aligned (virt k)" "0 < n" "unat (virt k) + n * 4096 \<le> 2 ^ 32" "n \<le> 2 ^ 20"
    using k n unsigned_less [of "phys_end k - phys_start k", where ?'a = nat]
    by (auto simp: kmap_entry_ok_def kmap_size_def)
  have "of_nat (unat (phys_end k - phys_start k)) = (of_nat (n * 4096) :: u32)" using n by (simp only: kmap_size_def)
  then have sz: "phys_end k - phys_start k = of_nat n * PGSIZE" by (simp add: PGSIZE_def)
  have c: "covers k va \<longleftrightarrow> unat (virt k) \<le> unat va \<and> unat va < unat (virt k) + n * 4096" for va
    by (simp add: covers_def n)
  have kb: "va < KERNBASE \<Longrightarrow> unat va < unat (virt k)" for va
    using k by (auto simp: kmap_entry_ok_def word_less_nat_alt word_le_nat_alt)
  show ?thesis
    by (rule mappages_range [OF inv v sz, of "phys_start k" "kperm k"])
       (use np c kb that in \<open>auto 0 3 simp: c\<close>)
qed

lemma setupkvm_loop_gen:
  assumes "pt_inv s fl pds" "d \<in> pds" and "kmap_ok ks"
    and "\<forall>k\<in>set ks. \<forall>va. covers k va \<longrightarrow> \<not> present (lookup (mem s) d va)"
  shows "\<exists>ok t used fl'. setupkvm_loop d ks s = Some (ok, t) \<and> fl = used @ fl' \<and>
           pt_inv t fl' pds \<and> grown s t pds d used \<and> (\<forall>va<KERNBASE. lookup (mem t) d va = lookup (mem s) d va) \<and>
           (ok \<longrightarrow> (\<forall>va. lookup (mem t) d va = (if \<exists>k\<in>set ks. covers k va then kmap_pte ks va else lookup (mem s) d va)))"
  using assms
proof (induction ks arbitrary: s fl)
  case Nil
  then show ?case by (auto intro: grown_refl)
next
  case (Cons k ks)
  have k: "kmap_entry_ok k" "\<forall>va. covers k va \<longrightarrow> \<not> present (lookup (mem s) d va)" using Cons.prems by auto
  obtain r t used fl' where
    m: "mappages d (virt k) (phys_end k - phys_start k) (phys_start k) (kperm k) s = Some (r, t)"
      "fl = used @ fl'" "pt_inv t fl' pds" "grown s t pds d used" "r = 0 \<or> r = -1"
      "r = 0 \<longrightarrow> (\<forall>va. lookup (mem t) d va = (if covers k va then kmap_pte [k] va else lookup (mem s) d va))"
      "\<forall>va<KERNBASE. lookup (mem t) d va = lookup (mem s) d va"
    by (rule mappages_kmap_entry [OF Cons.prems(1,2) k])
  show ?case
  proof (cases "r = 0")
    case True
    note l = m(6) [rule_format, OF True]
    have "\<forall>k'\<in>set ks. \<forall>va. covers k' va \<longrightarrow> \<not> present (lookup (mem t) d va)"
      using Cons.prems(3,4) by (auto simp: l)
    from Cons.IH [OF m(3) Cons.prems(2) _ this] Cons.prems(3)
    obtain ok u used' fl'' where u: "setupkvm_loop d ks t = Some (ok, u)" "fl' = used' @ fl''"
      "pt_inv u fl'' pds" "grown t u pds d used'" "\<forall>va<KERNBASE. lookup (mem u) d va = lookup (mem t) d va"
      "ok \<longrightarrow> (\<forall>va. lookup (mem u) d va = (if \<exists>k\<in>set ks. covers k va then kmap_pte ks va else lookup (mem t) d va))"
      by auto
    have "ok \<longrightarrow> (\<forall>va. lookup (mem u) d va =
        (if \<exists>k'\<in>set (k # ks). covers k' va then kmap_pte (k # ks) va else lookup (mem s) d va))"
      using u(6) Cons.prems(3) by (auto simp: l)
    then show ?thesis using m(1,2,7) u(1-3,5) True grown_trans [OF m(4) u(4)]
      by (intro exI [of _ ok] exI [of _ u] exI [of _ "used @ used'"] exI [of _ fl'']) simp
  next
    case False
    then show ?thesis using m by fastforce
  qed
qed

text \<open>What the linker script guarantees of \<^verbatim>\<open>data\<close>: it follows the kernel text, is aligned and
  lies in physical memory.\<close>

definition layout_ok :: "'z vm_scheme \<Rightarrow> bool" where
  "layout_ok s \<longleftrightarrow> page_aligned (kdata s) \<and> KERNLINK < kdata s \<and> kdata s < P2V PHYSTOP"

lemma kmap_kmap_ok:
  assumes "layout_ok s"
  shows "kmap_ok (kmap s)"
proof -
  have kd: "4096 dvd unat (kdata s)" "0x80100000 < unat (kdata s)" "unat (kdata s) < 0x8E000000"
    using assms by (auto simp: layout_ok_def page_aligned_unat word_less_nat_alt layout_defs P2V_def)
  have z: "kmap_size \<lparr>virt = KERNBASE, phys_start = 0, phys_end = EXTMEM, kperm = p\<rparr> = 0x100000"
    "kmap_size \<lparr>virt = DEVSPACE, phys_start = DEVSPACE, phys_end = 0, kperm = p\<rparr> = 0x2000000" for p
    by (simp_all add: kmap_size_def layout_defs)
  have s2: "kmap_size \<lparr>virt = KERNLINK, phys_start = V2P KERNLINK, phys_end = V2P (kdata s), kperm = p\<rparr> =
      unat (kdata s) - 0x80100000" for p
    using kd by (simp add: kmap_size_def layout_defs V2P_def unat_sub_if_size)
  have s3: "kmap_size \<lparr>virt = kdata s, phys_start = V2P (kdata s), phys_end = PHYSTOP, kperm = p\<rparr> =
      0x8E000000 - unat (kdata s)" for p
    using kd by (simp add: kmap_size_def layout_defs V2P_def unat_sub_if_size)
  show ?thesis
    using kd by (simp add: kmap_def kmap_entry_ok_def covers_def z s2 s3)
       (simp add: layout_defs page_aligned_unat word_le_nat_alt)
qed

end
