(* ===== verification/PageDir.thy ===== *)
theory PageDir
  imports PageTable
begin

text \<open>
  Whole page directories: a zeroed page becomes an empty directory, and freeing a
  directory returns all its tables to the allocator. Then \<open>setupkvm\<close> and \<open>freevm\<close>
  are described in terms of the free pages and of \<open>lookup\<close>.
\<close>

section \<open>Adding and removing a directory\<close>

lemma kfree_ok:
  assumes "kmem_inv s fl" and "kpage s v" and "v \<notin> set fl"
  obtains t where "kfree v s = Some t" and "kmem_inv t (v # fl)" and "same_except {v} (mem s) (mem t)" and "only_mem s t"
proof -
  have "kfree v s = Some (s\<lparr>mem := kfree_mem (mem s) v (freelist s), freelist := v\<rparr>)"
    using assms by (intro kfree_eq) (auto simp: kmem_inv_def)
  then show ?thesis
    using that kfree_inv [OF assms] assms(2)
    by (auto simp: same_except_def kfree_mem_other in_page_def kpage_def only_mem_def)
qed

lemma new_directory:
  assumes inv: "pt_inv s (p # fl) pds"
    and t: "t = s\<lparr>freelist := load32 (mem s) p, mem := memset (mem s) p 0 PGSIZE\<rparr>"
  shows "pt_inv t fl (insert p pds)" and "lookup (mem t) p va = 0" and "pt_pages (mem t) p = {p}" and "p \<notin> pds"
    and "pd \<in> pds \<Longrightarrow> lookup (mem t) pd = lookup (mem s) pd \<and> pt_pages (mem t) pd = pt_pages (mem s) pd"
    and "same_except {p} (mem s) (mem t)"
proof -
  have ki: "kmem_inv s (p # fl)" using inv by (simp add: pt_inv_def)
  then have kp: "kpage s p" "p \<notin> set fl" by (auto simp: kmem_inv_def)
  then have al: "page_aligned p" by (simp add: kpage_def)
  show se: "same_except {p} (mem s) (mem t)" by (simp add: t same_except_memset al)
  have fresh: "pt_pages (mem s) pd \<inter> {p} = {}" if "pd \<in> pds" for pd using pt_invD(4) [OF inv that] by auto
  note co = pt_cong [OF pt_invD(3) [OF inv] se fresh]
  show "lookup (mem t) pd = lookup (mem s) pd \<and> pt_pages (mem t) pd = pt_pages (mem s) pd" if "pd \<in> pds" for pd
    using co(3,4) [OF that that] by auto
  have nt: "\<not> has_table (mem t) p i" if "i < 1024" for i
    using that al by (simp add: t has_table_def entry_zero_page)
  then show "lookup (mem t) p va = 0" for va by (simp add: lookup_def)
  show pp: "pt_pages (mem t) p = {p}" using nt by (auto simp: pt_pages_def)
  show "p \<notin> pds" using fresh [of p] by (auto simp: pt_pages_def)
  have ke: "kend t = kend s" by (simp add: t)
  have k': "kmem_inv t fl" unfolding t
    using kp(2) al by (intro kmem_inv_frame [OF kalloc_inv [OF ki], of "{p}"]) (simp_all add: same_except_memset)
  have "pt_inv t fl pds"
    using pt_invD(4) [OF inv] by (intro pt_inv_frame [OF inv se fresh ke k']) auto
  moreover have "pt_wf t p" using kp(1) nt by (auto simp: pt_wf_def kpage_cong [OF ke] inj_on_def)
  ultimately show "pt_inv t fl (insert p pds)"
    using pp kp(2) fresh co(3) by (auto simp: pt_inv_def)
qed

text \<open>The directory entries from \<open>i\<close> on, \<open>n\<close> of them, as tables still to be freed.\<close>

definition tables_from :: "memory \<Rightarrow> u32 \<Rightarrow> nat \<Rightarrow> nat \<Rightarrow> u32 set" where
  "tables_from m pd i n = {table_of m pd (of_nat j) |j. i \<le> j \<and> j < i + n \<and> has_table m pd (of_nat j)}"

lemma of_nat_index: "j < 1024 \<Longrightarrow> (of_nat j :: u32) < 1024"
  by (simp add: word_less_nat_alt unat_of_nat)

lemma tables_from_Suc:
  "tables_from m pd i (Suc n) =
     (if has_table m pd (of_nat i) then {table_of m pd (of_nat i)} else {}) \<union> tables_from m pd (Suc i) n"
  unfolding tables_from_def by (auto simp: less_Suc_eq_le; metis Suc_leI le_neq_implies_less add_Suc_right)

lemma tables_from_all: "insert pd (tables_from m pd 0 1024) = pt_pages m pd"
proof -
  have "\<exists>j. i = of_nat j \<and> j < 1024" if "i < 1024" for i :: u32
    using that by (intro exI [of _ "unat i"]) (simp add: word_less_nat_alt)
  then show ?thesis unfolding tables_from_def pt_pages_def by (auto dest: of_nat_index; metis)
qed

lemma tables_from_cong:
  assumes "same_except W m m'" and "pd \<notin> W" and "page_aligned pd" and "i + n \<le> 1024"
  shows "tables_from m' pd i n = tables_from m pd i n"
proof -
  have "entry m' pd (of_nat j) = entry m pd (of_nat j)" if "j < 1024" for j
    using assms that by (intro same_except_entry) (auto intro: of_nat_index)
  then show ?thesis using assms(4)
    unfolding tables_from_def has_table_def table_of_def by (intro Collect_cong ex_cong1) auto
qed

text \<open>The tables from index \<open>i\<close> on are distinct pages that are neither free nor the directory.\<close>

definition tables_ok :: "'z kmem_scheme \<Rightarrow> u32 list \<Rightarrow> u32 \<Rightarrow> nat \<Rightarrow> nat \<Rightarrow> bool" where
  "tables_ok s fl pd i n \<longleftrightarrow>
     (\<forall>p\<in>tables_from (mem s) pd i n. kpage s p \<and> p \<notin> set fl \<and> p \<noteq> pd) \<and>
     inj_on (\<lambda>j. table_of (mem s) pd (of_nat j)) {j. i \<le> j \<and> j < i + n \<and> has_table (mem s) pd (of_nat j)}"

lemma tables_ok_Suc:
  assumes ok: "tables_ok s fl pd i (Suc n)" and t: "same_except W (mem s) (mem t)" "pd \<notin> W" "page_aligned pd"
    and i: "i + Suc n \<le> 1024" and ke: "kend t = kend s"
    and fl': "set fl' \<subseteq> set fl \<union> (if has_table (mem s) pd (of_nat i) then {table_of (mem s) pd (of_nat i)} else {})"
  shows "tables_ok t fl' pd (Suc i) n"
proof -
  have e: "entry (mem t) pd (of_nat j) = entry (mem s) pd (of_nat j)" if "j < 1024" for j
    using t that by (intro same_except_entry) (auto intro: of_nat_index)
  have tf: "tables_from (mem t) pd (Suc i) n = tables_from (mem s) pd (Suc i) n"
    using i by (intro tables_from_cong [OF t]) simp
  have inj: "inj_on (\<lambda>j. table_of (mem s) pd (of_nat j)) {j. i \<le> j \<and> j < i + Suc n \<and> has_table (mem s) pd (of_nat j)}"
    using ok by (simp add: tables_ok_def)
  have new: "table_of (mem s) pd (of_nat i) \<notin> tables_from (mem s) pd (Suc i) n" if "has_table (mem s) pd (of_nat i)"
  proof
    assume "table_of (mem s) pd (of_nat i) \<in> tables_from (mem s) pd (Suc i) n"
    then obtain j where j: "table_of (mem s) pd (of_nat i) = table_of (mem s) pd (of_nat j)"
        "Suc i \<le> j" "j < Suc i + n" "has_table (mem s) pd (of_nat j)" by (auto simp: tables_from_def)
    from inj_onD [OF inj j(1)] that j(2-4) show False by auto
  qed
  have "inj_on (\<lambda>j. table_of (mem t) pd (of_nat j)) {j. Suc i \<le> j \<and> j < Suc i + n \<and> has_table (mem t) pd (of_nat j)}"
    using inj i e by (auto simp: inj_on_def has_table_def table_of_def)
  then show ?thesis
    using ok fl' new by (auto simp: tables_ok_def tf tables_from_Suc kpage_cong [OF ke] split: if_splits)
qed

lemma freevm_loop_spec:
  assumes "i + n \<le> 1024" and "kmem_inv s fl" and "page_aligned pd" and "tables_ok s fl pd i n"
  shows "\<exists>t fl'. freevm_loop pd (of_nat i) n s = Some t \<and> kmem_inv t fl' \<and>
           set fl' = set fl \<union> tables_from (mem s) pd i n \<and>
           same_except (tables_from (mem s) pd i n) (mem s) (mem t) \<and> only_mem s t"
  using assms
proof (induction n arbitrary: i s fl)
  case 0
  then show ?case by (auto simp: tables_from_def)
next
  case (Suc n)
  let ?T = "table_of (mem s) pd (of_nat i)" and ?S = "of_nat i + 1 :: u32"
  have S: "?S = of_nat (Suc i)" by simp
  obtain t W fl' where t: "(if present (rd s (pd + 4 * of_nat i)) then kfree (P2V (PTE_ADDR (rd s (pd + 4 * of_nat i)))) s else Some s) = Some t"
      "kmem_inv t fl'" "W = (if has_table (mem s) pd (of_nat i) then {?T} else {})" "set fl' = set fl \<union> W"
      "same_except W (mem s) (mem t)" "only_mem s t"
  proof (cases "has_table (mem s) pd (of_nat i)")
    case True
    then have "kpage s ?T" and "?T \<notin> set fl" using Suc.prems(4) by (auto simp: tables_ok_def tables_from_Suc)
    from kfree_ok [OF Suc.prems(2) this] obtain t where
      "kfree ?T s = Some t" "kmem_inv t (?T # fl)" "same_except {?T} (mem s) (mem t)" "only_mem s t" .
    with that [of t "?T # fl" "{?T}"] True show ?thesis by (simp add: has_table_def table_of_def entry_def)
  next
    case False
    then show ?thesis using that [of s fl "{}"] Suc.prems(2) by (simp add: has_table_def entry_def)
  qed
  have pdW: "pd \<notin> W" using t(3) Suc.prems(4) by (auto simp: tables_ok_def tables_from_Suc split: if_splits)
  have ok: "tables_ok t fl' pd (Suc i) n"
    using t(3,4) by (intro tables_ok_Suc [OF Suc.prems(4) t(5) pdW Suc.prems(3,1) only_memD(1) [OF t(6)]]) auto
  have tf: "tables_from (mem t) pd (Suc i) n = tables_from (mem s) pd (Suc i) n"
    using Suc.prems(1) by (intro tables_from_cong [OF t(5) pdW Suc.prems(3)]) simp
  from Suc.IH [OF _ t(2) Suc.prems(3) ok] Suc.prems(1)
  obtain u fl'' where u: "freevm_loop pd (of_nat (Suc i)) n t = Some u" "kmem_inv u fl''"
      "set fl'' = set fl' \<union> tables_from (mem s) pd (Suc i) n"
      "same_except (tables_from (mem s) pd (Suc i) n) (mem t) (mem u)" "only_mem t u"
    unfolding tf by auto
  have "freevm_loop pd (of_nat i) (Suc n) s = Some u"
    unfolding freevm_loop.simps t(1) S using u(1) by simp
  moreover have "same_except (tables_from (mem s) pd i (Suc n)) (mem s) (mem u)"
    by (rule same_except_trans [OF t(5) u(4)]) (auto simp: tables_from_Suc t(3))
  moreover have "set fl'' = set fl \<union> tables_from (mem s) pd i (Suc n)"
    using u(3) t(3,4) by (auto simp: tables_from_Suc)
  ultimately show ?case using u(2) only_mem_trans [OF t(6) u(5)]
    by (intro exI [of _ u] exI [of _ fl''] conjI)
qed

end
