(* ===== verification/CowSpec.thy ===== *)
theory CowSpec
  imports PageDir
begin

text \<open>
  The bookkeeping of copy-on-write, apart from how page tables are stored. An address
  space is a map from addresses to entries; \<open>cow_ok\<close> says that every user page
  that is mapped is an allocated page, that an address space maps a page at most once, that
  the reference count of a page is the number of address spaces that map it, and that a page
  some address space can write belongs to that address space alone. Each lemma is one change
  the kernel makes: map, unmap, change the flags, add or remove an address space.
\<close>

section \<open>Address spaces\<close>

type_synonym spaces = "u32 \<Rightarrow> u32 \<Rightarrow> u32"

abbreviation writable :: "u32 \<Rightarrow> bool" where "writable e \<equiv> e AND PTE_W \<noteq> 0"

definition frame :: "u32 \<Rightarrow> u32" where "frame e = P2V (PTE_ADDR e)"

text \<open>Entries belong to pages: the twelve low bits of an address do not matter.\<close>

definition paged :: "spaces \<Rightarrow> bool" where
  "paged L \<longleftrightarrow> (\<forall>pd va. L pd (PGROUNDDOWN va) = L pd va)"

definition umap :: "spaces \<Rightarrow> u32 \<Rightarrow> u32 \<Rightarrow> bool" where
  "umap L pd va \<longleftrightarrow> va < KERNBASE \<and> present (L pd va)"

definition user_frames :: "spaces \<Rightarrow> u32 \<Rightarrow> u32 set" where
  "user_frames L pd = {frame (L pd va) |va. umap L pd va}"

definition users :: "spaces \<Rightarrow> u32 set \<Rightarrow> u32 \<Rightarrow> u32 set" where
  "users L pds p = {pd \<in> pds. p \<in> user_frames L pd}"

definition cow_alloc :: "(u32 \<Rightarrow> bool) \<Rightarrow> u32 set \<Rightarrow> spaces \<Rightarrow> u32 set \<Rightarrow> bool" where
  "cow_alloc K A L pds \<longleftrightarrow>
     (\<forall>pd\<in>pds. \<forall>va. umap L pd va \<longrightarrow> K (frame (L pd va)) \<and> frame (L pd va) \<notin> A)"

definition cow_inj :: "spaces \<Rightarrow> u32 set \<Rightarrow> bool" where
  "cow_inj L pds \<longleftrightarrow>
     (\<forall>pd\<in>pds. \<forall>va vb. umap L pd va \<longrightarrow> umap L pd vb \<longrightarrow> frame (L pd va) = frame (L pd vb) \<longrightarrow>
        PGROUNDDOWN va = PGROUNDDOWN vb)"

definition cow_refs :: "(u32 \<Rightarrow> bool) \<Rightarrow> spaces \<Rightarrow> (u32 \<Rightarrow> u8) \<Rightarrow> u32 set \<Rightarrow> bool" where
  "cow_refs K L R pds \<longleftrightarrow> (\<forall>p. K p \<longrightarrow> R p = of_nat (card (users L pds p)))"

definition cow_excl :: "spaces \<Rightarrow> u32 set \<Rightarrow> bool" where
  "cow_excl L pds \<longleftrightarrow>
     (\<forall>pd\<in>pds. \<forall>va. umap L pd va \<longrightarrow> writable (L pd va) \<longrightarrow> users L pds (frame (L pd va)) = {pd})"

definition cow_ok :: "(u32 \<Rightarrow> bool) \<Rightarrow> u32 set \<Rightarrow> spaces \<Rightarrow> (u32 \<Rightarrow> u8) \<Rightarrow> u32 set \<Rightarrow> bool" where
  "cow_ok K A L R pds \<longleftrightarrow> finite pds \<and> card pds < 128 \<and>
     cow_alloc K A L pds \<and> cow_inj L pds \<and> cow_refs K L R pds \<and> cow_excl L pds"

lemma cow_allocD: "cow_alloc K A L pds \<Longrightarrow> pd \<in> pds \<Longrightarrow> umap L pd va \<Longrightarrow> K (frame (L pd va)) \<and> frame (L pd va) \<notin> A"
  unfolding cow_alloc_def by blast

lemma cow_injD:
  "cow_inj L pds \<Longrightarrow> pd \<in> pds \<Longrightarrow> umap L pd va \<Longrightarrow> umap L pd vb \<Longrightarrow> frame (L pd va) = frame (L pd vb) \<Longrightarrow>
   PGROUNDDOWN va = PGROUNDDOWN vb"
  unfolding cow_inj_def by blast

lemma cow_refsD: "cow_refs K L R pds \<Longrightarrow> K p \<Longrightarrow> R p = of_nat (card (users L pds p))"
  unfolding cow_refs_def by blast

lemma cow_exclD:
  "cow_excl L pds \<Longrightarrow> pd \<in> pds \<Longrightarrow> umap L pd va \<Longrightarrow> writable (L pd va) \<Longrightarrow> users L pds (frame (L pd va)) = {pd}"
  unfolding cow_excl_def by blast

lemma cow_okD:
  assumes "cow_ok K A L R pds"
  shows "finite pds" and "card pds < 128" and "cow_alloc K A L pds" and "cow_inj L pds"
    and "cow_refs K L R pds" and "cow_excl L pds"
  using assms by (simp_all add: cow_ok_def)

lemma users_finite: "finite pds \<Longrightarrow> finite (users L pds p)"
  by (simp add: users_def)

lemma users_card:
  assumes "cow_ok K A L R pds"
  shows "card (users L pds p) < 128"
proof -
  have "card (users L pds p) \<le> card pds"
    by (rule card_mono) (auto simp: users_def cow_okD(1) [OF assms])
  with cow_okD(2) [OF assms] show ?thesis by simp
qed

text \<open>The signed 8-bit counters do not overflow.\<close>

lemma refs_value:
  assumes "cow_ok K A L R pds" and "K p"
  shows "sint (R p) = int (card (users L pds p))" and "unat (R p) = card (users L pds p)"
proof -
  have "card (users L pds p) < 128" by (rule users_card [OF assms(1)])
  then show "sint (R p) = int (card (users L pds p))" "unat (R p) = card (users L pds p)"
    using cow_refsD [OF cow_okD(5) [OF assms(1)] assms(2)] by (simp_all add: signed_of_nat signed_take_bit_int_eq_self unat_of_nat)
qed

lemma users_in: "pd \<in> pds \<Longrightarrow> umap L pd va \<Longrightarrow> pd \<in> users L pds (frame (L pd va))"
  by (auto simp: users_def user_frames_def)

lemma umap_PGROUNDDOWN:
  assumes "paged L"
  shows "umap L pd (PGROUNDDOWN va) \<longleftrightarrow> umap L pd va"
proof -
  have "PGROUNDDOWN va < KERNBASE \<longleftrightarrow> va < KERNBASE"
    using page_range_iff [of 0 "2^19" va] by (simp add: page_aligned_def KERNBASE_def word_less_nat_alt)
  then show ?thesis using assms by (simp add: umap_def paged_def)
qed

lemma user_frames_cong: "(\<And>va. va < KERNBASE \<Longrightarrow> L' pd va = L pd va) \<Longrightarrow> user_frames L' pd = user_frames L pd"
  unfolding user_frames_def umap_def by (intro Collect_cong ex_cong1) auto

lemma users_cong:
  assumes "\<And>q va. q \<in> pds \<Longrightarrow> va < KERNBASE \<Longrightarrow> L' q va = L q va"
  shows "users L' pds p = users L pds p"
  using user_frames_cong [of L' _ L] assms unfolding users_def by (intro Collect_cong conj_cong refl) blast

lemma cow_cong:
  assumes "cow_ok K A L R pds" and eq: "\<And>pd va. pd \<in> pds \<Longrightarrow> va < KERNBASE \<Longrightarrow> L' pd va = L pd va"
    and "\<And>p. K p \<Longrightarrow> R' p = R p" and "\<And>p. K p \<Longrightarrow> p \<in> A' \<Longrightarrow> p \<in> A \<or> users L pds p = {}"
  shows "cow_ok K A' L' R' pds"
proof -
  have u: "umap L' pd va \<longleftrightarrow> umap L pd va" if "pd \<in> pds" for pd va
    using eq [OF that, of va] unfolding umap_def by auto
  have e: "L' pd va = L pd va" if "pd \<in> pds" "umap L pd va" for pd va
    using eq [OF that(1), of va] that(2) by (simp add: umap_def)
  note us = users_cong [of pds L' L, OF eq]
  have "cow_inj L' pds" unfolding cow_inj_def
  proof (intro ballI allI impI)
    fix pd va vb
    assume pd: "pd \<in> pds" and m: "umap L' pd va" "umap L' pd vb" and f: "frame (L' pd va) = frame (L' pd vb)"
    from m pd have "umap L pd va" "umap L pd vb" by (simp_all add: u)
    with f e [OF pd] show "PGROUNDDOWN va = PGROUNDDOWN vb"
      by (intro cow_injD [OF cow_okD(4) [OF assms(1)] pd]) simp_all
  qed
  moreover have "cow_excl L' pds" unfolding cow_excl_def
    using cow_exclD [OF cow_okD(6) [OF assms(1)]] by (simp add: u us e)
  moreover have "cow_refs K L' R' pds"
    using cow_refsD [OF cow_okD(5) [OF assms(1)]] by (simp add: cow_refs_def us assms(3))
  moreover have "cow_alloc K A' L' pds"
    unfolding cow_alloc_def
  proof (intro ballI allI impI)
    fix pd va assume pd: "pd \<in> pds" "umap L' pd va"
    then have m: "umap L pd va" by (simp add: u)
    from cow_allocD [OF cow_okD(3) [OF assms(1)] pd(1) m] users_in [OF pd(1) m] assms(4)
    show "K (frame (L' pd va)) \<and> frame (L' pd va) \<notin> A'" by (auto simp: e [OF pd(1) m])
  qed
  ultimately show ?thesis using cow_okD [OF assms(1)] by (simp add: cow_ok_def)
qed

section \<open>Changing one entry\<close>

definition upd_entry :: "spaces \<Rightarrow> u32 \<Rightarrow> u32 \<Rightarrow> u32 \<Rightarrow> spaces" where
  "upd_entry L pd a e = (\<lambda>q vb. if q = pd \<and> PGROUNDDOWN vb = a then e else L q vb)"

lemma upd_entry_apply: "upd_entry L pd a e q vb = (if q = pd \<and> PGROUNDDOWN vb = a then e else L q vb)"
  by (simp add: upd_entry_def)

lemma upd_entry_upd: "upd_entry (upd_entry L pd a e) pd a f = upd_entry L pd a f"
  by (simp add: upd_entry_def fun_eq_iff)

lemma umap_upd: "umap (upd_entry L pd a e) q vb \<longleftrightarrow>
   (if q = pd \<and> PGROUNDDOWN vb = a then vb < KERNBASE \<and> present e else umap L q vb)"
  by (simp add: umap_def upd_entry_def)

lemma paged_upd: "paged L \<Longrightarrow> paged (upd_entry L pd a e)"
  by (simp add: paged_def upd_entry_def)

lemma paged_page: "paged L \<Longrightarrow> PGROUNDDOWN va = a \<Longrightarrow> L pd va = L pd a"
  by (auto simp: paged_def)

lemma umap_page: "paged L \<Longrightarrow> PGROUNDDOWN va = a \<Longrightarrow> umap L pd va \<longleftrightarrow> umap L pd a"
  using umap_PGROUNDDOWN by blast

definition frames_but :: "spaces \<Rightarrow> u32 \<Rightarrow> u32 \<Rightarrow> u32 set" where
  "frames_but L pd a = {frame (L pd va) |va. umap L pd va \<and> PGROUNDDOWN va \<noteq> a}"

lemma frames_but_unmapped: "paged L \<Longrightarrow> \<not> umap L pd a \<Longrightarrow> frames_but L pd a = user_frames L pd"
  unfolding frames_but_def user_frames_def using umap_page by blast

lemma frames_but_mapped:
  assumes "paged L" and "cow_inj L pds" and "pd \<in> pds" and "page_aligned a" and "umap L pd a"
  shows "frames_but L pd a = user_frames L pd - {frame (L pd a)}"
proof -
  have eq: "PGROUNDDOWN va = a \<longleftrightarrow> frame (L pd va) = frame (L pd a)" if "umap L pd va" for va
  proof
    assume "PGROUNDDOWN va = a"
    then show "frame (L pd va) = frame (L pd a)" using paged_page [OF assms(1)] by metis
  next
    assume "frame (L pd va) = frame (L pd a)"
    from cow_injD [OF assms(2,3) that assms(5) this] show "PGROUNDDOWN va = a" using assms(4) by simp
  qed
  have "frames_but L pd a = {frame (L pd va) |va. umap L pd va \<and> frame (L pd va) \<noteq> frame (L pd a)}"
    unfolding frames_but_def using eq by (intro Collect_cong ex_cong1) auto
  also have "\<dots> = user_frames L pd - {frame (L pd a)}" unfolding user_frames_def by auto
  finally show ?thesis .
qed

lemma user_frames_upd:
  assumes "paged L" and "page_aligned a" and "a < KERNBASE"
  shows "user_frames (upd_entry L pd a e) q =
           (if q = pd then frames_but L pd a \<union> (if present e then {frame e} else {}) else user_frames L q)"
proof (cases "q = pd")
  case True
  let ?L = "upd_entry L pd a e"
  have "x \<in> frames_but L pd a \<or> present e \<and> x = frame e" if "umap ?L pd va" "x = frame (?L pd va)" for x va
    using that by (cases "PGROUNDDOWN va = a") (auto simp: umap_upd upd_entry_apply frames_but_def)
  moreover have "frame e \<in> user_frames ?L pd" if "present e"
    unfolding user_frames_def using that assms(2,3)
    by (intro CollectI exI [of _ a]) (simp add: umap_upd upd_entry_apply)
  moreover have "frame (L pd va) \<in> user_frames ?L pd" if "umap L pd va" "PGROUNDDOWN va \<noteq> a" for va
    unfolding user_frames_def using that
    by (intro CollectI exI [of _ va]) (simp add: umap_upd upd_entry_apply)
  ultimately have "user_frames ?L pd = frames_but L pd a \<union> (if present e then {frame e} else {})"
    unfolding frames_but_def user_frames_def by (intro set_eqI iffI) (auto split: if_splits)
  with True show ?thesis by simp
qed (simp add: user_frames_def umap_upd upd_entry_apply)

text \<open>How the set of users of a page changes.\<close>

lemma users_map:
  assumes "paged L" and "pd \<in> pds" and "page_aligned a" and "a < KERNBASE" and "\<not> present (L pd a)" and "present e"
  shows "users (upd_entry L pd a e) pds p = (if p = frame e then insert pd (users L pds p) else users L pds p)"
proof -
  have "\<not> umap L pd a" using assms(5) by (simp add: umap_def)
  note f = user_frames_upd [OF assms(1,3,4), of pd e] frames_but_unmapped [OF assms(1) this]
  show ?thesis using assms(2,6) by (auto simp: users_def f)
qed

lemma users_unmap:
  assumes "paged L" and "cow_inj L pds" and "pd \<in> pds" and "page_aligned a" and "a < KERNBASE" and "present (L pd a)" and "\<not> present e"
  shows "users (upd_entry L pd a e) pds p = (if p = frame (L pd a) then users L pds p - {pd} else users L pds p)"
proof -
  have "umap L pd a" using assms(5,6) by (simp add: umap_def)
  note f = user_frames_upd [OF assms(1,4,5), of pd e] frames_but_mapped [OF assms(1-4) this]
  show ?thesis using assms(7) by (auto simp: users_def f)
qed

lemma users_flags:
  assumes "paged L" and "cow_inj L pds" and "pd \<in> pds" and "page_aligned a" and "a < KERNBASE" and "present (L pd a)"
    and "present e" and "frame e = frame (L pd a)"
  shows "users (upd_entry L pd a e) pds p = users L pds p"
proof -
  have m: "umap L pd a" using assms(5,6) by (simp add: umap_def)
  then have "frame (L pd a) \<in> user_frames L pd" by (auto simp: user_frames_def)
  note f = user_frames_upd [OF assms(1,4,5), of pd e] frames_but_mapped [OF assms(1-4) m]
  then show ?thesis using assms(7,8) \<open>frame (L pd a) \<in> user_frames L pd\<close> by (auto simp: users_def f)
qed

section \<open>The changes preserve the invariant\<close>

text \<open>Injectivity, and what is mapped where, after one entry changed.\<close>

lemma cow_inj_upd:
  assumes "paged L" and "cow_inj L pds" and "page_aligned a" and "frame e \<notin> frames_but L pd a \<or> \<not> present e"
  shows "cow_inj (upd_entry L pd a e) pds"
  unfolding cow_inj_def
proof (intro ballI allI impI)
  fix q va vb
  assume q: "q \<in> pds" and m: "umap (upd_entry L pd a e) q va" "umap (upd_entry L pd a e) q vb"
    and f: "frame (upd_entry L pd a e q va) = frame (upd_entry L pd a e q vb)"
  show "PGROUNDDOWN va = PGROUNDDOWN vb"
  proof (cases "q = pd \<and> (PGROUNDDOWN va = a \<or> PGROUNDDOWN vb = a)")
    case True
    with m f assms(4) show ?thesis
      by (auto simp: umap_upd upd_entry_apply frames_but_def split: if_splits)
  next
    case False
    with m f have "umap L q va" "umap L q vb" "frame (L q va) = frame (L q vb)"
      by (auto simp: umap_upd upd_entry_apply split: if_splits)
    then show ?thesis by (rule cow_injD [OF assms(2) q])
  qed
qed

lemma cow_alloc_upd:
  assumes "cow_alloc K A L pds" and "present e \<longrightarrow> K (frame e) \<and> frame e \<notin> A"
  shows "cow_alloc K A (upd_entry L pd a e) pds"
  using cow_allocD [OF assms(1)] assms(2) by (auto simp: cow_alloc_def umap_upd upd_entry_apply)

lemma cow_map:
  assumes ok: "cow_ok K A L R pds" and pg: "paged L" and pd: "pd \<in> pds" and a: "page_aligned a" "a < KERNBASE"
    and np: "\<not> present (L pd a)" and e: "present e" "K (frame e)" "frame e \<notin> A" "frame e \<notin> user_frames L pd"
    and ex: "writable e \<Longrightarrow> users L pds (frame e) = {}"
    and ro: "\<And>q va. q \<in> pds \<Longrightarrow> umap L q va \<Longrightarrow> frame (L q va) = frame e \<Longrightarrow> \<not> writable (L q va)"
    and R': "R' = R(frame e := R (frame e) + 1)"
  shows "cow_ok K A (upd_entry L pd a e) R' pds"
proof -
  note us = users_map [OF pg pd a np e(1)]
  have "\<not> umap L pd a" using np by (simp add: umap_def)
  then have "cow_inj (upd_entry L pd a e) pds"
    using e(4) by (intro cow_inj_upd [OF pg cow_okD(4) [OF ok] a(1)]) (simp add: frames_but_unmapped [OF pg])
  moreover have "cow_alloc K A (upd_entry L pd a e) pds"
    by (rule cow_alloc_upd [OF cow_okD(3) [OF ok]]) (simp add: e)
  moreover have "cow_refs K (upd_entry L pd a e) R' pds"
    unfolding cow_refs_def
  proof (intro allI impI)
    fix p assume "K p"
    then have r: "R p = of_nat (card (users L pds p))" by (rule cow_refsD [OF cow_okD(5) [OF ok]])
    have "pd \<notin> users L pds (frame e)" using e(4) by (simp add: users_def)
    then show "R' p = of_nat (card (users (upd_entry L pd a e) pds p))"
      using r users_finite [OF cow_okD(1) [OF ok]] by (auto simp: us R' add.commute)
  qed
  moreover have "cow_excl (upd_entry L pd a e) pds"
    unfolding cow_excl_def
  proof (intro ballI allI impI)
    fix q va assume q: "q \<in> pds" "umap (upd_entry L pd a e) q va" "writable (upd_entry L pd a e q va)"
    show "users (upd_entry L pd a e) pds (frame (upd_entry L pd a e q va)) = {q}"
    proof (cases "q = pd \<and> PGROUNDDOWN va = a")
      case True
      then show ?thesis using q(3) ex by (simp add: us upd_entry_apply)
    next
      case False
      then have "umap L q va" "writable (L q va)" using q by (auto simp: umap_upd upd_entry_apply split: if_splits)
      with ro [OF q(1)] cow_exclD [OF cow_okD(6) [OF ok] q(1)] False show ?thesis by (auto simp: us upd_entry_apply)
    qed
  qed
  ultimately show ?thesis using cow_okD(1,2) [OF ok] by (simp add: cow_ok_def)
qed

lemma cow_unmap:
  assumes ok: "cow_ok K A L R pds" and pg: "paged L" and pd: "pd \<in> pds" and a: "page_aligned a" "a < KERNBASE"
    and pr: "present (L pd a)" and e: "\<not> present e" and R': "R' = R(frame (L pd a) := R (frame (L pd a)) - 1)"
  shows "cow_ok K A (upd_entry L pd a e) R' pds"
proof -
  let ?f = "frame (L pd a)"
  note us = users_unmap [OF pg cow_okD(4) [OF ok] pd a pr e]
  have m: "umap L pd a" using pr a(2) by (simp add: umap_def)
  have pu: "pd \<in> users L pds ?f" by (rule users_in [OF pd m])
  have "cow_inj (upd_entry L pd a e) pds"
    using e by (intro cow_inj_upd [OF pg cow_okD(4) [OF ok] a(1)]) simp
  moreover have "cow_alloc K A (upd_entry L pd a e) pds"
    by (rule cow_alloc_upd [OF cow_okD(3) [OF ok]]) (use e in simp)
  moreover have "cow_refs K (upd_entry L pd a e) R' pds"
    unfolding cow_refs_def
  proof (intro allI impI)
    fix p assume "K p"
    then have r: "R p = of_nat (card (users L pds p))" by (rule cow_refsD [OF cow_okD(5) [OF ok]])
    have fin: "finite (users L pds ?f)" using users_finite [OF cow_okD(1) [OF ok]] .
    then have "card (users L pds ?f) = Suc (card (users L pds ?f - {pd}))"
      using pu by (metis card.remove)
    with r show "R' p = of_nat (card (users (upd_entry L pd a e) pds p))" by (auto simp: us R')
  qed
  moreover have "cow_excl (upd_entry L pd a e) pds"
    unfolding cow_excl_def
  proof (intro ballI allI impI)
    fix q va assume q: "q \<in> pds" "umap (upd_entry L pd a e) q va" "writable (upd_entry L pd a e q va)"
    then have nq: "\<not> (q = pd \<and> PGROUNDDOWN va = a)" and q': "umap L q va" "writable (L q va)"
      using e by (auto simp: umap_upd upd_entry_apply split: if_splits)
    note x = cow_exclD [OF cow_okD(6) [OF ok] q(1) q']
    have "frame (L q va) \<noteq> ?f"
    proof
      assume f: "frame (L q va) = ?f"
      with x pu have "q = pd" by auto
      have "PGROUNDDOWN va = PGROUNDDOWN a"
        by (rule cow_injD [OF cow_okD(4) [OF ok] pd _ m]) (use q'(1) f \<open>q = pd\<close> in simp_all)
      with nq a(1) \<open>q = pd\<close> show False by simp
    qed
    then show "users (upd_entry L pd a e) pds (frame (upd_entry L pd a e q va)) = {q}"
      using x nq by (auto simp: us upd_entry_apply)
  qed
  ultimately show ?thesis using cow_okD(1,2) [OF ok] by (simp add: cow_ok_def)
qed

lemma cow_flags:
  assumes ok: "cow_ok K A L R pds" and pg: "paged L" and pd: "pd \<in> pds" and a: "page_aligned a" "a < KERNBASE"
    and pr: "present (L pd a)" and e: "present e" "frame e = frame (L pd a)"
    and ex: "writable e \<Longrightarrow> users L pds (frame e) = {pd}"
  shows "cow_ok K A (upd_entry L pd a e) R pds"
proof -
  note us = users_flags [OF pg cow_okD(4) [OF ok] pd a pr e]
  have m: "umap L pd a" using pr a(2) by (simp add: umap_def)
  have "cow_inj (upd_entry L pd a e) pds"
    by (rule cow_inj_upd [OF pg cow_okD(4) [OF ok] a(1)])
       (simp add: frames_but_mapped [OF pg cow_okD(4) [OF ok] pd a(1) m] e)
  moreover have "cow_alloc K A (upd_entry L pd a e) pds"
    using cow_allocD [OF cow_okD(3) [OF ok] pd m] e(2) by (intro cow_alloc_upd [OF cow_okD(3) [OF ok]]) simp
  moreover have "cow_refs K (upd_entry L pd a e) R pds"
    using cow_refsD [OF cow_okD(5) [OF ok]] by (simp add: cow_refs_def us)
  moreover have "cow_excl (upd_entry L pd a e) pds"
    unfolding cow_excl_def
  proof (intro ballI allI impI)
    fix q va assume q: "q \<in> pds" "umap (upd_entry L pd a e) q va" "writable (upd_entry L pd a e q va)"
    show "users (upd_entry L pd a e) pds (frame (upd_entry L pd a e q va)) = {q}"
    proof (cases "q = pd \<and> PGROUNDDOWN va = a")
      case True
      then show ?thesis using q(3) ex by (simp add: us upd_entry_apply)
    next
      case False
      then have "umap L q va" "writable (L q va)" using q by (auto simp: umap_upd upd_entry_apply split: if_splits)
      with cow_exclD [OF cow_okD(6) [OF ok] q(1)] False show ?thesis by (auto simp: us upd_entry_apply)
    qed
  qed
  ultimately show ?thesis using cow_okD(1,2) [OF ok] by (simp add: cow_ok_def)
qed

text \<open>An address space with no user page can come and go.\<close>

lemma users_empty_space:
  assumes "\<And>va. \<not> umap L d va"
  shows "users L (insert d pds) p = users L pds p" and "users L (pds - {d}) p = users L pds p"
  using assms by (auto simp: users_def user_frames_def)

lemma cow_add_space:
  assumes ok: "cow_ok K A L R pds" and d: "\<And>va. \<not> umap L d va" and card: "card pds < 127"
  shows "cow_ok K A L R (insert d pds)"
proof -
  have "card (insert d pds) < 128" using card cow_okD(1) [OF ok] card_insert_if [of pds d] by simp
  moreover have "cow_inj L (insert d pds)" using cow_okD(4) [OF ok] d unfolding cow_inj_def by blast
  moreover have "cow_alloc K A L (insert d pds)" using cow_okD(3) [OF ok] d unfolding cow_alloc_def by blast
  moreover have "cow_excl L (insert d pds)"
    using cow_okD(6) [OF ok] d unfolding cow_excl_def users_empty_space(1) [OF d] by blast
  ultimately show ?thesis
    using cow_okD(1,5) [OF ok] by (simp add: cow_ok_def cow_refs_def users_empty_space [OF d])
qed

lemma cow_remove_space:
  assumes ok: "cow_ok K A L R pds" and d: "\<And>va. \<not> umap L d va"
  shows "cow_ok K A L R (pds - {d})"
proof -
  have "card (pds - {d}) < 128"
    using card_mono [OF cow_okD(1) [OF ok], of "pds - {d}"] cow_okD(2) [OF ok] by auto
  moreover have "cow_inj L (pds - {d})" using cow_okD(4) [OF ok] unfolding cow_inj_def by blast
  moreover have "cow_alloc K A L (pds - {d})" using cow_okD(3) [OF ok] unfolding cow_alloc_def by blast
  moreover have "cow_excl L (pds - {d})"
    using cow_okD(6) [OF ok] unfolding cow_excl_def users_empty_space(2) [OF d] by blast
  ultimately show ?thesis
    using cow_okD(1,5) [OF ok] by (simp add: cow_ok_def cow_refs_def users_empty_space [OF d])
qed

end
