(* ===== verification/Uvm.thy ===== *)
theory Uvm
  imports CowSpec
begin

text \<open>
  The operations of \<^verbatim>\<open>vm.c\<close> on user memory keep the page tables well formed and the
  copy-on-write bookkeeping exact: \<open>uvm_inv\<close> puts \<open>pt_inv\<close> and \<open>cow_ok\<close> together, with
  the reference counts read from the array \<open>pg_refcount\<close>.
\<close>

section \<open>Reference counts\<close>

definition refs :: "'z vm_scheme \<Rightarrow> u32 \<Rightarrow> u8" where
  "refs s p = pg_refcount s (drop_bit PGSHIFT (V2P p))"

definition ref_upd :: "u32 \<Rightarrow> u8 \<Rightarrow> 'z vm_scheme \<Rightarrow> 'z vm_scheme" where
  "ref_upd p d s = s\<lparr>pg_refcount := (pg_refcount s)(drop_bit PGSHIFT (V2P p) := refs s p + d)\<rparr>"

lemma unat_drop_PGSHIFT: "unat (drop_bit PGSHIFT (x :: u32)) = unat x div 4096"
  by (simp add: PGSHIFT_def drop_bit_eq_div unat_div)

lemma V2P_inj: "V2P p = V2P q \<longleftrightarrow> p = q"
  by (simp add: V2P_def)

lemma page_index_inj:
  assumes "KERNBASE \<le> kend s" and "kpage s p" and "kpage s q"
  shows "drop_bit PGSHIFT (V2P p) = drop_bit PGSHIFT (V2P q) \<longleftrightarrow> p = q"
proof
  assume "drop_bit PGSHIFT (V2P p) = drop_bit PGSHIFT (V2P q)"
  then have d: "unat (V2P p) div 4096 = unat (V2P q) div 4096" by (metis unat_drop_PGSHIFT)
  have "4096 dvd unat (V2P p)" "4096 dvd unat (V2P q)"
    using kpage_facts(5) [OF assms(1,2)] kpage_facts(5) [OF assms(1,3)] by (simp_all add: page_aligned_unat)
  with d have "unat (V2P p) = unat (V2P q)" by (metis dvd_mult_div_cancel)
  then have "V2P p = V2P q" by (simp add: word_unat_eq_iff)
  then show "p = q" by (simp add: V2P_inj)
qed simp

lemma refcount_kpage:
  assumes "KERNBASE \<le> kend s" and "kpage s p"
  shows "refcount (V2P p) s = Some (refs s p)" and "add_refcount (V2P p) d s = Some (ref_upd p d s)"
proof -
  have "unat (V2P p) < 57344 * 4096" using kpage_facts(7) [OF assms] by (simp add: word_less_nat_alt PHYSTOP_def)
  then have "unat (V2P p) div 4096 < 57344" by (rule less_mult_imp_div_less)
  then have "drop_bit PGSHIFT (V2P p) < drop_bit PGSHIFT PHYSTOP"
    by (simp add: word_less_nat_alt unat_drop_PGSHIFT PHYSTOP_def)
  then show "refcount (V2P p) s = Some (refs s p)" by (simp add: refcount_def refs_def)
  then show "add_refcount (V2P p) d s = Some (ref_upd p d s)" by (simp add: add_refcount_def ref_upd_def)
qed

lemma refs_ref_upd:
  assumes "KERNBASE \<le> kend s" and "kpage s p" and "kpage s q"
  shows "refs (ref_upd p d s) q = ((refs s)(p := refs s p + d)) q"
  using page_index_inj [OF assms] by (auto simp: refs_def ref_upd_def)

lemma ref_upd_simps [simp]:
  "mem (ref_upd p d s) = mem s" "kend (ref_upd p d s) = kend s" "freelist (ref_upd p d s) = freelist s"
  "held (ref_upd p d s) = held s" "use_lock (ref_upd p d s) = use_lock s" "kdata (ref_upd p d s) = kdata s"
  by (simp_all add: ref_upd_def)

lemma refs_simps [simp]: "refs (s\<lparr>mem := m\<rparr>) p = refs s p" "refs (s\<lparr>freelist := f\<rparr>) p = refs s p"
  by (simp_all add: refs_def)

section \<open>The invariant of user memory\<close>

definition kernel_pages :: "'z vm_scheme \<Rightarrow> u32 list \<Rightarrow> u32 set \<Rightarrow> u32 set" where
  "kernel_pages s fl pds = set fl \<union> (\<Union>pd\<in>pds. pt_pages (mem s) pd)"

definition uvm_inv :: "'z vm_scheme \<Rightarrow> u32 list \<Rightarrow> u32 set \<Rightarrow> bool" where
  "uvm_inv s fl pds \<longleftrightarrow> pt_inv s fl pds \<and>
     cow_ok (kpage s) (kernel_pages s fl pds) (lookup (mem s)) (refs s) pds"

lemma uvm_invD:
  assumes "uvm_inv s fl pds"
  shows "pt_inv s fl pds" and "cow_ok (kpage s) (kernel_pages s fl pds) (lookup (mem s)) (refs s) pds"
    and "KERNBASE \<le> kend s"
  using assms pt_invD(1) by (auto simp: uvm_inv_def)

lemma paged_lookup [simp]: "paged (lookup m)"
  by (simp add: paged_def)

lemma in_kernel_pages: "p \<in> kernel_pages s fl pds \<longleftrightarrow> p \<in> set fl \<or> (\<exists>pd\<in>pds. p \<in> pt_pages (mem s) pd)"
  by (simp add: kernel_pages_def)

text \<open>A state with the same page tables up to entries that are accounted for.\<close>

lemma uvm_invI:
  assumes "pt_inv t fl' pds" and "cow_ok (kpage s) A L R pds" and "kend t = kend s"
    and "\<And>pd va. pd \<in> pds \<Longrightarrow> va < KERNBASE \<Longrightarrow> lookup (mem t) pd va = L pd va"
    and "\<And>p. kpage s p \<Longrightarrow> refs t p = R p"
    and "\<And>p. kpage s p \<Longrightarrow> p \<in> kernel_pages t fl' pds \<Longrightarrow> p \<in> A \<or> users L pds p = {}"
  shows "uvm_inv t fl' pds"
proof -
  have "kpage t = kpage s" using assms(3) by (simp add: kpage_def fun_eq_iff)
  with cow_cong [OF assms(2), where A' = "kernel_pages t fl' pds" and L' = "lookup (mem t)" and R' = "refs t"] assms(1,4-6)
  show ?thesis by (simp add: uvm_inv_def)
qed

lemma uvm_fresh:
  assumes "uvm_inv s (p # fl) pds"
  shows "kpage s p" and "p \<noteq> 0" and "p \<notin> set fl" and "pd \<in> pds \<Longrightarrow> p \<notin> pt_pages (mem s) pd"
    and "users (lookup (mem s)) pds p = {}" and "refs s p = 0"
proof -
  have k: "kmem_inv s (p # fl)" using uvm_invD(1) [OF assms] by (simp add: pt_inv_def)
  then show kp: "kpage s p" "p \<notin> set fl" by (auto simp: kmem_inv_def)
  show "p \<noteq> 0" using kpage_facts(4) [OF uvm_invD(3) [OF assms] kp(1)] .
  show "pd \<in> pds \<Longrightarrow> p \<notin> pt_pages (mem s) pd" using pt_invD(4) [OF uvm_invD(1) [OF assms]] by auto
  note ok = uvm_invD(2) [OF assms]
  show u: "users (lookup (mem s)) pds p = {}"
    using cow_allocD [OF cow_okD(3) [OF ok]] by (fastforce simp: users_def user_frames_def in_kernel_pages)
  show "refs s p = 0" using cow_refsD [OF cow_okD(5) [OF ok] kp(1)] u by simp
qed

lemma uvm_pop:
  assumes "uvm_inv s (p # fl) pds"
  shows "kalloc s = Some (p, s\<lparr>freelist := load32 (mem s) p\<rparr>)"
    and "uvm_inv (s\<lparr>freelist := load32 (mem s) p\<rparr>) fl pds"
proof -
  have k: "kmem_inv s (p # fl)" using uvm_invD(1) [OF assms] by (simp add: pt_inv_def)
  show "kalloc s = Some (p, s\<lparr>freelist := load32 (mem s) p\<rparr>)" by (rule kalloc_eq [OF k])
  have "pt_inv (s\<lparr>freelist := load32 (mem s) p\<rparr>) fl pds"
    using pt_invD(4) [OF uvm_invD(1) [OF assms]] kalloc_inv [OF k]
    by (intro pt_inv_frame [OF uvm_invD(1) [OF assms], of "{}"]) auto
  then show "uvm_inv (s\<lparr>freelist := load32 (mem s) p\<rparr>) fl pds"
    by (rule uvm_invI [OF _ uvm_invD(2) [OF assms]]) (auto simp: in_kernel_pages)
qed

text \<open>Writing a page that is neither free nor a page table.\<close>

lemma uvm_write:
  assumes inv: "uvm_inv s fl pds" and p: "p \<notin> kernel_pages s fl pds" and se: "same_except {p} (mem s) m"
  shows "uvm_inv (s\<lparr>mem := m\<rparr>) fl pds" and "pd \<in> pds \<Longrightarrow> lookup m pd = lookup (mem s) pd"
    and "pd \<in> pds \<Longrightarrow> pt_pages m pd = pt_pages (mem s) pd"
proof -
  note pt = uvm_invD(1) [OF inv]
  have d: "pt_pages (mem s) pd \<inter> {p} = {}" if "pd \<in> pds" for pd using p that by (auto simp: in_kernel_pages)
  note co = pt_cong [OF pt_invD(3) [OF pt] se d]
  show l: "lookup m pd = lookup (mem s) pd" if "pd \<in> pds" for pd using co(4) [OF that that] by auto
  show pp: "pt_pages m pd = pt_pages (mem s) pd" if "pd \<in> pds" for pd using co(3) [OF that that] .
  have "kmem_inv (s\<lparr>mem := m\<rparr>) fl"
    using p by (intro kmem_inv_frame [OF pt_invD(2) [OF pt], of "{p}"]) (auto simp: se in_kernel_pages)
  then have "pt_inv (s\<lparr>mem := m\<rparr>) fl pds"
    using pt_invD(4) [OF pt] by (intro pt_inv_frame [OF pt, of "{p}"]) (auto simp: se d)
  then show "uvm_inv (s\<lparr>mem := m\<rparr>) fl pds"
    by (rule uvm_invI [OF _ uvm_invD(2) [OF inv]]) (auto simp: in_kernel_pages l pp)
qed

section \<open>Unmapping a page\<close>

text \<open>The part of the state user memory operations change.\<close>

definition only_vm :: "'z vm_scheme \<Rightarrow> 'z vm_scheme \<Rightarrow> bool" where
  "only_vm s t \<longleftrightarrow> t = s\<lparr>mem := mem t, freelist := freelist t, pg_refcount := pg_refcount t\<rparr>"

lemma only_vm_mem: "only_mem s t \<Longrightarrow> only_vm s t"
proof -
  assume t: "only_mem s t"
  then have e: "t = s\<lparr>mem := mem t, freelist := freelist t\<rparr>" by (simp add: only_mem_def)
  have eq: "s\<lparr>mem := m, freelist := f, pg_refcount := pg_refcount s\<rparr> = s\<lparr>mem := m, freelist := f\<rparr>" for m f by simp
  show ?thesis unfolding only_vm_def only_memD(4) [OF t] eq by (rule e)
qed

lemma only_vm_simps [simp]: "only_vm s s" "only_vm s (s\<lparr>mem := m\<rparr>)" "only_vm s (s\<lparr>freelist := f\<rparr>)"
  "only_vm s (ref_upd p d s)"
  by (simp_all add: only_vm_def ref_upd_def)

lemma only_vm_trans:
  assumes "only_vm s t" and "only_vm t u"
  shows "only_vm s u"
proof -
  have "u = t\<lparr>mem := mem u, freelist := freelist u, pg_refcount := pg_refcount u\<rparr>"
    "t = s\<lparr>mem := mem t, freelist := freelist t, pg_refcount := pg_refcount t\<rparr>"
    using assms by (auto simp: only_vm_def)
  then have "u = s\<lparr>mem := mem t, freelist := freelist t, pg_refcount := pg_refcount t,
      mem := mem u, freelist := freelist u, pg_refcount := pg_refcount u\<rparr>" by simp
  then show ?thesis by (simp add: only_vm_def)
qed

lemma only_vmD:
  assumes "only_vm s t"
  shows "kend t = kend s" "use_lock t = use_lock s" "held t = held s" "kpgdir t = kpgdir s" "kdata t = kdata s" "cr3 t = cr3 s"
proof -
  have t: "t = s\<lparr>mem := mem t, freelist := freelist t, pg_refcount := pg_refcount t\<rparr>" using assms by (simp add: only_vm_def)
  show "kend t = kend s" "use_lock t = use_lock s" "held t = held s" "kpgdir t = kpgdir s" "kdata t = kdata s" "cr3 t = cr3 s"
    by (subst t, simp)+
qed

lemma lookup_set_pte:
  assumes "pt_inv s fl pds" and "pd \<in> pds" and "has_table (mem s) pd (PDX a)" and "page_aligned a" and "q \<in> pds"
  shows "lookup (store32 (mem s) (pte_addr (mem s) pd a) w) q vb = upd_entry (lookup (mem s)) pd a w q vb"
  using set_pte(3) [OF assms(1-3) refl assms(5)] assms(4) by (simp add: upd_entry_apply)

lemma V2P_frame: "V2P (frame e) = PTE_ADDR e"
  by (simp add: frame_def V2P_def P2V_def)

lemma present_has_table: "present (lookup m pd va) \<Longrightarrow> has_table m pd (PDX va)"
  using lookup_no_table by fastforce

text \<open>The body of the loop of \<open>deallocuvm\<close> for a page that is present.\<close>

definition unmap_page :: "u32 \<Rightarrow> u32 \<Rightarrow> 'z vm_scheme \<Rightarrow> 'z vm_scheme option" where
  "unmap_page pa pte s = do {
     s \<leftarrow> add_refcount pa (-1) s;
     c \<leftarrow> refcount pa s;
     s \<leftarrow> (if c = 0 then kfree (P2V pa) s else Some s);
     Some (wr pte 0 s) }"

lemma refs_zero_iff:
  assumes "cow_ok K A L R pds" and "K p" and "pd \<in> users L pds p"
  shows "R p - 1 = 0 \<longleftrightarrow> users L pds p = {pd}"
proof -
  have "R p - 1 = 0 \<longleftrightarrow> unat (R p) = 1" using word_unat_eq_iff [of "R p" 1] by simp
  also have "\<dots> \<longleftrightarrow> card (users L pds p) = 1" by (simp add: refs_value [OF assms(1,2)])
  also have "\<dots> \<longleftrightarrow> users L pds p = {pd}" using assms(3) by (auto simp: card_1_singleton_iff)
  finally show ?thesis .
qed

lemma kfree_if:
  assumes pt: "pt_inv s fl pds" and p: "kpage s p" "p \<notin> kernel_pages s fl pds"
  shows "\<exists>t. (if b then kfree p (ref_upd q d s) else Some (ref_upd q d s)) = Some t \<and>
           kmem_inv t (if b then p # fl else fl) \<and> same_except (set (if b then p # fl else fl) - set fl) (mem s) (mem t) \<and>
           only_vm s t \<and> refs t = refs (ref_upd q d s)"
proof -
  let ?s = "ref_upd q d s"
  have k: "kmem_inv ?s fl" by (rule kmem_inv_frame [OF pt_invD(2) [OF pt], of "{}"]) simp_all
  show ?thesis
  proof (cases b)
    case True
    have "kpage ?s p" "p \<notin> set fl" using p by (simp_all add: kpage_def in_kernel_pages)
    from kfree_ok [OF k this] obtain t where t: "kfree p ?s = Some t" "kmem_inv t (p # fl)"
      "same_except {p} (mem ?s) (mem t)" "only_mem ?s t" .
    have "only_vm s t" by (rule only_vm_trans [OF only_vm_simps(4) only_vm_mem [OF t(4)]])
    moreover have "refs t = refs ?s" using only_memD(4) [OF t(4)] by (simp add: refs_def fun_eq_iff)
    ultimately show ?thesis using True t(1-3) \<open>p \<notin> set fl\<close> by (simp add: insert_Diff_if)
  qed (use k in simp)
qed

lemma unmap_page_spec:
  assumes inv: "uvm_inv s fl pds" and pd: "pd \<in> pds" and a: "page_aligned a" "a < KERNBASE"
    and pr: "present (lookup (mem s) pd a)" and p: "p = frame (lookup (mem s) pd a)"
    and fl': "fl' = (if users (lookup (mem s)) pds p = {pd} then p # fl else fl)"
  obtains t where "unmap_page (PTE_ADDR (lookup (mem s) pd a)) (pte_addr (mem s) pd a) s = Some t"
    and "uvm_inv t fl' pds" and "\<And>q vb. q \<in> pds \<Longrightarrow> lookup (mem t) q vb = upd_entry (lookup (mem s)) pd a 0 q vb"
    and "\<And>q. q \<in> pds \<Longrightarrow> pt_pages (mem t) q = pt_pages (mem s) q"
    and "same_except (set fl' \<union> pt_pages (mem s) pd) (mem s) (mem t)" and "only_vm s t"
proof -
  let ?L = "lookup (mem s)" and ?s1 = "ref_upd p (-1) s"
  note pt = uvm_invD(1) [OF inv] and ok = uvm_invD(2) [OF inv] and ke = uvm_invD(3) [OF inv]
  have m: "umap ?L pd a" using pr a(2) by (simp add: umap_def)
  have kp: "kpage s p" "p \<notin> kernel_pages s fl pds" using cow_allocD [OF cow_okD(3) [OF ok] pd m] p by auto
  have ht: "has_table (mem s) pd (PDX a)" by (rule present_has_table [OF pr])
  have pa: "PTE_ADDR (?L pd a) = V2P p" "P2V (V2P p) = p" by (simp_all add: p V2P_frame) (simp add: frame_def)
  have pu: "pd \<in> users ?L pds p" using users_in [OF pd m] p by simp
  have c0: "refs ?s1 p = 0 \<longleftrightarrow> users ?L pds p = {pd}"
    using refs_zero_iff [OF ok kp(1) pu] refs_ref_upd [OF ke kp(1) kp(1), of "-1"] by simp
  obtain s2 where s2: "(if refs ?s1 p = 0 then kfree p ?s1 else Some ?s1) = Some s2" "kmem_inv s2 fl'"
      "same_except (set fl' - set fl) (mem s) (mem s2)" "only_vm s s2" "refs s2 = refs ?s1"
    using kfree_if [OF pt kp, of "users ?L pds p = {pd}" p "-1"] unfolding fl' c0 by blast
  have fl'k: "set fl' \<subseteq> set fl \<union> {p}" by (auto simp: fl')
  have d: "pt_pages (mem s) q \<inter> (set fl' - set fl) = {}" "pt_pages (mem s) q \<inter> set fl' = {}" if "q \<in> pds" for q
    using that fl'k kp(2) pt_invD(4) [OF pt that] by (auto simp: in_kernel_pages)
  note co = pt_cong [OF pt_invD(3) [OF pt] s2(3) d(1)]
  have pt2: "pt_inv s2 fl' pds" by (rule pt_inv_frame [OF pt s2(3) d(1) only_vmD(1) [OF s2(4)] s2(2) d(2)])
  have pte: "pte_addr (mem s2) pd a = pte_addr (mem s) pd a" using co(2) [OF pd pd PDX_less] by (simp add: pte_addr_def)
  have ht2: "has_table (mem s2) pd (PDX a)" using co(1) [OF pd pd PDX_less] ht by simp
  have rc: "refcount (V2P p) ?s1 = Some (refs ?s1 p)" using ke kp(1) by (intro refcount_kpage) (simp_all add: kpage_def)
  define t where "t = wr (pte_addr (mem s) pd a) 0 s2"
  have t: "mem t = store32 (mem s2) (pte_addr (mem s) pd a) 0" "kend t = kend s" "refs t = refs ?s1" "only_vm s2 t"
    using only_vmD(1) [OF s2(4)] s2(5) by (simp_all add: t_def fun_eq_iff)
  note sp = set_pte [OF pt2 pd ht2, of "mem t" 0, unfolded pte, OF t(1)]
  have l: "lookup (mem t) q vb = upd_entry ?L pd a 0 q vb" if "q \<in> pds" for q vb
    using sp(3) [OF that] co(4) [OF that that] a(1) by (simp add: upd_entry_apply)
  have pp: "pt_pages (mem t) q = pt_pages (mem s) q" if "q \<in> pds" for q
    using sp(2) [OF that] co(3) [OF that that] by simp
  have kpg: "q \<in> kernel_pages s fl pds \<or> users (upd_entry ?L pd a 0) pds q = {}"
    if "q \<in> kernel_pages t fl' pds" for q
  proof (cases "q = p \<and> users ?L pds p = {pd}")
    case True
    then show ?thesis using users_unmap [OF paged_lookup cow_okD(4) [OF ok] pd a pr, of 0 q] p by simp
  next
    case False
    then have "q \<in> kernel_pages s fl pds" using that by (auto simp: in_kernel_pages pp fl' split: if_splits)
    then show ?thesis ..
  qed
  show ?thesis
  proof (rule that)
    show "unmap_page (PTE_ADDR (?L pd a)) (pte_addr (mem s) pd a) s = Some t"
      using s2(1) refcount_kpage(2) [OF ke kp(1)] rc
      by (cases "refs ?s1 p = 0") (simp_all add: unmap_page_def pa t_def)
    show "same_except (set fl' \<union> pt_pages (mem s) pd) (mem s) (mem t)"
      using sp(4) co(3) [OF pd pd] by (auto intro: same_except_trans [OF s2(3)])
    show "only_vm s t" by (rule only_vm_trans [OF s2(4) t(4)])
    have cow: "cow_ok (kpage s) (kernel_pages s fl pds) (upd_entry ?L pd a 0) ((refs s)(p := refs s p - 1)) pds"
      by (rule cow_unmap [OF ok paged_lookup pd a pr]) (simp_all add: p)
    have "pt_inv t fl' pds" using sp(1) by (simp add: t_def)
    then show "uvm_inv t fl' pds"
      by (rule uvm_invI [OF _ cow t(2) l]) (use kpg in \<open>simp_all add: t(3) refs_ref_upd [OF ke kp(1)]\<close>)
  qed (simp_all add: l pp)
qed

section \<open>deallocuvm\<close>

text \<open>What shrinking the address space \<open>pd\<close> may do: entries become 0, and the pages that no
  address space maps any more become free.\<close>

definition shrunk :: "'z vm_scheme \<Rightarrow> 'z vm_scheme \<Rightarrow> u32 list \<Rightarrow> u32 list \<Rightarrow> u32 set \<Rightarrow> u32 \<Rightarrow> bool" where
  "shrunk s t fl fl' pds pd \<longleftrightarrow>
     (\<forall>q\<in>pds. pt_pages (mem t) q = pt_pages (mem s) q \<and> (q \<noteq> pd \<longrightarrow> lookup (mem t) q = lookup (mem s) q)) \<and>
     (\<forall>va. lookup (mem t) pd va = 0 \<or> lookup (mem t) pd va = lookup (mem s) pd va) \<and>
     same_except (set fl' \<union> pt_pages (mem s) pd) (mem s) (mem t) \<and> only_vm s t \<and>
     set fl' = set fl \<union> {p \<in> user_frames (lookup (mem s)) pd. users (lookup (mem t)) pds p = {}}"

lemma shrunkD:
  assumes "shrunk s t fl fl' pds pd"
  shows "q \<in> pds \<Longrightarrow> pt_pages (mem t) q = pt_pages (mem s) q"
    and "q \<in> pds \<Longrightarrow> q \<noteq> pd \<Longrightarrow> lookup (mem t) q = lookup (mem s) q"
    and "same_except (set fl' \<union> pt_pages (mem s) pd) (mem s) (mem t)" and "only_vm s t"
    and "set fl' = set fl \<union> {p \<in> user_frames (lookup (mem s)) pd. users (lookup (mem t)) pds p = {}}"
  using assms unfolding shrunk_def by blast+

lemma user_frames_mono:
  assumes "\<And>va. L' pd va = 0 \<or> L' pd va = L pd va"
  shows "user_frames L' pd \<subseteq> user_frames L pd"
proof
  fix p assume "p \<in> user_frames L' pd"
  then obtain va where "p = frame (L' pd va)" "umap L' pd va" by (auto simp: user_frames_def)
  with assms [of va] show "p \<in> user_frames L pd" by (auto simp: umap_def user_frames_def)
qed

lemma shrunk_users:
  assumes "shrunk s t fl fl' pds pd"
  shows "users (lookup (mem t)) pds p \<subseteq> users (lookup (mem s)) pds p"
    and "q \<noteq> pd \<Longrightarrow> q \<in> users (lookup (mem s)) pds p \<Longrightarrow> q \<in> users (lookup (mem t)) pds p"
proof -
  have o: "q \<in> pds \<Longrightarrow> q \<noteq> pd \<Longrightarrow> user_frames (lookup (mem t)) q = user_frames (lookup (mem s)) q" for q
    using assms by (intro user_frames_cong) (simp add: shrunk_def)
  have m: "user_frames (lookup (mem t)) pd \<subseteq> user_frames (lookup (mem s)) pd"
    using assms by (intro user_frames_mono) (auto simp: shrunk_def)
  show "users (lookup (mem t)) pds p \<subseteq> users (lookup (mem s)) pds p" using o m unfolding users_def by blast
  show "q \<noteq> pd \<Longrightarrow> q \<in> users (lookup (mem s)) pds p \<Longrightarrow> q \<in> users (lookup (mem t)) pds p"
    using o unfolding users_def by blast
qed

lemma shrunk_refl:
  assumes "pd \<in> pds"
  shows "shrunk s s fl fl pds pd"
  using assms by (auto simp: shrunk_def users_def)

lemma shrunk_trans:
  assumes 1: "shrunk s t fl fl' pds pd" and 2: "shrunk t u fl' fl'' pds pd" and pd: "pd \<in> pds"
  shows "shrunk s u fl fl'' pds pd"
proof -
  let ?F = "\<lambda>x. user_frames (lookup (mem x)) pd" and ?U = "\<lambda>x p. users (lookup (mem x)) pds p"
  have f: "set fl' = set fl \<union> {p \<in> ?F s. ?U t p = {}}" "set fl'' = set fl' \<union> {p \<in> ?F t. ?U u p = {}}"
    using 1 2 by (simp_all add: shrunk_def)
  have F: "?F t \<subseteq> ?F s" using 1 by (intro user_frames_mono) (auto simp: shrunk_def)
  have "p \<in> ?F t" if "p \<in> ?F s" "?U u p = {}" "?U t p \<noteq> {}" for p
  proof -
    from that(3) obtain q where "q \<in> ?U t p" by blast
    with shrunk_users(2) [OF 2] that(2) have "q = pd" by blast
    with \<open>q \<in> ?U t p\<close> show ?thesis by (simp add: users_def)
  qed
  moreover have "?U u p = {}" if "?U t p = {}" for p using shrunk_users(1) [OF 2, of p] that by simp
  ultimately have "set fl'' = set fl \<union> {p \<in> ?F s. ?U u p = {}}"
    unfolding f using F by (intro set_eqI iffI) (blast+)
  moreover have "same_except (set fl'' \<union> pt_pages (mem s) pd) (mem s) (mem u)"
  proof -
    have se: "same_except (set fl' \<union> pt_pages (mem s) pd) (mem s) (mem t)"
      "same_except (set fl'' \<union> pt_pages (mem s) pd) (mem t) (mem u)"
      using shrunkD(3) [OF 1] shrunkD(3) [OF 2] shrunkD(1) [OF 1 pd] by simp_all
    show ?thesis by (rule same_except_trans [OF se]) (auto simp: f(2))
  qed
  moreover have "only_vm s u" using 1 2 only_vm_trans unfolding shrunk_def by blast
  moreover have "lookup (mem u) pd va = 0 \<or> lookup (mem u) pd va = lookup (mem s) pd va" for va
    using 1 2 unfolding shrunk_def by metis
  ultimately show ?thesis using 1 2 by (simp add: shrunk_def)
qed

lemma shrunk_unmap:
  assumes "uvm_inv s fl pds" and "pd \<in> pds" and "page_aligned a" "a < KERNBASE"
    and "present (lookup (mem s) pd a)" and p: "p = frame (lookup (mem s) pd a)"
    and fl': "fl' = (if users (lookup (mem s)) pds p = {pd} then p # fl else fl)"
    and l: "\<And>q vb. q \<in> pds \<Longrightarrow> lookup (mem t) q vb = upd_entry (lookup (mem s)) pd a 0 q vb"
    and pp: "\<And>q. q \<in> pds \<Longrightarrow> pt_pages (mem t) q = pt_pages (mem s) q"
    and se: "same_except (set fl' \<union> pt_pages (mem s) pd) (mem s) (mem t)" "only_vm s t"
  shows "shrunk s t fl fl' pds pd"
proof -
  let ?L = "lookup (mem s)"
  have us: "users (lookup (mem t)) pds q = (if q = p then users ?L pds q - {pd} else users ?L pds q)" for q
  proof -
    have "users (lookup (mem t)) pds q = users (upd_entry ?L pd a 0) pds q"
      unfolding users_def using l by (intro Collect_cong conj_cong refl) (simp add: user_frames_def umap_def)
    then show ?thesis
      using users_unmap [OF paged_lookup cow_okD(4) [OF uvm_invD(2) [OF assms(1)]] assms(2-5), of 0 q] p by simp
  qed
  have pf: "p \<in> user_frames ?L pd" using assms(4,5) by (auto simp: p user_frames_def umap_def)
  have "users ?L pds q \<noteq> {}" if "q \<in> user_frames ?L pd" for q using that assms(2) by (auto simp: users_def)
  moreover have "users ?L pds p - {pd} = {} \<longleftrightarrow> users ?L pds p = {pd}"
    using calculation [OF pf] by auto
  ultimately have "set fl' = set fl \<union> {q \<in> user_frames ?L pd. users (lookup (mem t)) pds q = {}}"
    unfolding us fl' using pf by auto
  then show ?thesis using l pp se assms(2) by (auto simp: shrunk_def upd_entry_apply fun_eq_iff)
qed

text \<open>The skip over a missing page table: to the start of the next 4 MB.\<close>

lemma unat_PDX: "unat (PDX a) = unat a div 2 ^ 22"
proof -
  have "unat (PDX a) = unat (drop_bit 22 a) mod 1024"
    using word_mod_2p_is_mask [where n = 10 and x = "drop_bit 22 a"] unat_mod [of "drop_bit 22 a" 1024]
    by (simp add: PDX_def PDXSHIFT_def mask_eq_exp_minus_1)
  moreover have "unat (drop_bit 22 a) = unat a div 2 ^ 22" by (simp add: drop_bit_eq_div unat_div)
  moreover have "unat a div 2 ^ 22 < 1024" using unsigned_less [of a, where ?'a = nat] by (simp add: less_mult_imp_div_less)
  ultimately show ?thesis by simp
qed

lemma next_table:
  assumes "a < KERNBASE"
  shows "unat (PGADDR (PDX a + 1) 0 0) = (unat a div 2 ^ 22 + 1) * 2 ^ 22"
proof -
  have "unat a div 2 ^ 22 < 512" using assms by (simp add: word_less_nat_alt KERNBASE_def less_mult_imp_div_less)
  then have p: "unat (PDX a + 1) = unat a div 2 ^ 22 + 1"
    using unat_PDX [of a] by (simp add: unat_word_ariths)
  have "PGADDR (PDX a + 1) 0 0 = (PDX a + 1) * 2 ^ 22" by (simp add: PGADDR_def PDXSHIFT_def push_bit_eq_mult)
  moreover have "unat (PDX a + 1) * unat (2 ^ 22 :: u32) < 2 ^ LENGTH(32)" using p \<open>unat a div 2 ^ 22 < 512\<close> by simp
  then have "unat ((PDX a + 1) * 2 ^ 22) = unat (PDX a + 1) * unat (2 ^ 22 :: u32)" by (simp only: unat_mult_lem)
  ultimately show ?thesis using p by simp
qed

lemma same_table:
  assumes "a < KERNBASE" and "unat a \<le> unat va" and "unat va < unat (PGADDR (PDX a + 1) 0 0)"
  shows "PDX va = PDX a"
proof -
  have "unat va < (unat a div 2 ^ 22 + 1) * 2 ^ 22" using assms next_table by simp
  then have "unat va div 2 ^ 22 < unat a div 2 ^ 22 + 1" by (rule less_mult_imp_div_less)
  moreover have "unat a div 2 ^ 22 \<le> unat va div 2 ^ 22" by (rule div_le_mono [OF assms(2)])
  ultimately have "unat (PDX va) = unat (PDX a)" by (simp add: unat_PDX)
  then show ?thesis by (simp add: word_unat_eq_iff)
qed

text \<open>One round of the loop.\<close>

lemma deallocuvm_round:
  assumes inv: "uvm_inv s fl pds" and pd: "pd \<in> pds" and a: "page_aligned a" "a < oldsz" "a < KERNBASE"
  shows "\<not> has_table (mem s) pd (PDX a) \<Longrightarrow>
           deallocuvm_loop pd a oldsz s = deallocuvm_loop pd (PGADDR (PDX a + 1) 0 0) oldsz s"
    and "has_table (mem s) pd (PDX a) \<Longrightarrow> \<not> present (lookup (mem s) pd a) \<Longrightarrow>
           deallocuvm_loop pd a oldsz s = deallocuvm_loop pd (a + PGSIZE) oldsz s"
    and "present (lookup (mem s) pd a) \<Longrightarrow>
           deallocuvm_loop pd a oldsz s =
             Option.bind (unmap_page (PTE_ADDR (lookup (mem s) pd a)) (pte_addr (mem s) pd a) s)
               (deallocuvm_loop pd (a + PGSIZE) oldsz)"
proof -
  note pt = uvm_invD(1) [OF inv]
  show "\<not> has_table (mem s) pd (PDX a) \<Longrightarrow>
      deallocuvm_loop pd a oldsz s = deallocuvm_loop pd (PGADDR (PDX a + 1) 0 0) oldsz s"
    using a(2) by (subst deallocuvm_loop.simps) (simp add: walk_miss)
  have h: "deallocuvm_loop pd a oldsz s =
      (if present (lookup (mem s) pd a) then
         if PTE_ADDR (lookup (mem s) pd a) = 0 then None
         else Option.bind (unmap_page (PTE_ADDR (lookup (mem s) pd a)) (pte_addr (mem s) pd a) s)
               (deallocuvm_loop pd (a + PGSIZE) oldsz)
       else deallocuvm_loop pd (a + PGSIZE) oldsz s)" if "has_table (mem s) pd (PDX a)"
    using a(2) pte_addr_nonzero [OF pt pd that] lookup_pte_addr [OF that]
    by (subst deallocuvm_loop.simps) (simp add: walk_hit [OF that] unmap_page_def Let_def)
  then show "has_table (mem s) pd (PDX a) \<Longrightarrow> \<not> present (lookup (mem s) pd a) \<Longrightarrow>
      deallocuvm_loop pd a oldsz s = deallocuvm_loop pd (a + PGSIZE) oldsz s" by simp
  assume pr: "present (lookup (mem s) pd a)"
  have "umap (lookup (mem s)) pd a" using pr a(3) by (simp add: umap_def)
  then have "kpage s (frame (lookup (mem s) pd a))"
    using cow_allocD [OF cow_okD(3) [OF uvm_invD(2) [OF inv]] pd] by blast
  then have "PTE_ADDR (lookup (mem s) pd a) \<noteq> 0" using pt_inv_V2P_nonzero [OF pt] V2P_frame by metis
  then show "deallocuvm_loop pd a oldsz s =
             Option.bind (unmap_page (PTE_ADDR (lookup (mem s) pd a)) (pte_addr (mem s) pd a) s)
               (deallocuvm_loop pd (a + PGSIZE) oldsz)"
    using h [OF present_has_table [OF pr]] pr by simp
qed

lemma next_page:
  assumes "page_aligned a" and "a < KERNBASE"
  shows "unat (a + PGSIZE) = unat a + 4096" and "page_aligned (a + PGSIZE)"
    and "page_aligned x \<Longrightarrow> a \<le> x \<longleftrightarrow> x = a \<or> a + PGSIZE \<le> x"
    and "page_aligned x \<Longrightarrow> x < a + PGSIZE \<longleftrightarrow> x \<le> a"
proof -
  show u: "unat (a + PGSIZE) = unat a + 4096"
    using assms(2) by (simp add: unat_word_ariths PGSIZE_def word_less_nat_alt KERNBASE_def)
  show "page_aligned (a + PGSIZE)" by (rule PGSIZE_step_aligned [OF assms(1)])
  have le: "unat x < unat a + 4096 \<longleftrightarrow> unat x \<le> unat a" if x: "page_aligned x"
  proof -
    obtain i j where "unat a = 4096 * i" "unat x = 4096 * j"
      using assms(1) x by (auto simp: page_aligned_unat dvd_def)
    then show ?thesis by auto
  qed
  show "page_aligned x \<Longrightarrow> x < a + PGSIZE \<longleftrightarrow> x \<le> a"
    using le u by (simp add: word_le_nat_alt word_less_nat_alt)
  show "page_aligned x \<Longrightarrow> a \<le> x \<longleftrightarrow> x = a \<or> a + PGSIZE \<le> x"
    using le u by (auto simp: word_le_nat_alt word_unat_eq_iff)
qed

lemma next_table_after:
  assumes "a < KERNBASE"
  shows "unat a < unat (PGADDR (PDX a + 1) 0 0)" and "page_aligned (PGADDR (PDX a + 1) 0 0)"
  using next_table [OF assms] dividend_less_div_times [of "2 ^ 22" "unat a"] by (simp_all add: page_aligned_unat)

lemma deallocuvm_loop_spec:
  assumes "uvm_inv s fl pds" and "pd \<in> pds" and "page_aligned a" and "oldsz \<le> KERNBASE"
  shows "\<exists>t fl'. deallocuvm_loop pd a oldsz s = Some t \<and> uvm_inv t fl' pds \<and> shrunk s t fl fl' pds pd \<and>
           (\<forall>va. lookup (mem t) pd va =
              (if a \<le> PGROUNDDOWN va \<and> PGROUNDDOWN va < oldsz \<and> present (lookup (mem s) pd va) then 0
               else lookup (mem s) pd va))"
  using assms(1,3)
proof (induction "unat oldsz - unat a" arbitrary: s fl a rule: less_induct)
  case less
  note inv = less.prems(1) and al = less.prems(2)
  show ?case
  proof (cases "a < oldsz")
    case False
    then have "deallocuvm_loop pd a oldsz s = Some s" by (subst deallocuvm_loop.simps) simp
    moreover have "\<not> (a \<le> x \<and> x < oldsz)" for x using False by auto
    ultimately show ?thesis using inv shrunk_refl [OF assms(2)] by auto
  next
    case True
    with assms(4) have kb: "a < KERNBASE" by simp
    note round = deallocuvm_round [OF inv assms(2) al True kb]
    note nxt = next_page(1,2) [OF al kb] and rng = next_page(3) [OF al kb page_aligned_PGROUNDDOWN]
    have dec: "unat oldsz - unat (a + PGSIZE) < unat oldsz - unat a"
      using True nxt(1) by (simp add: word_less_nat_alt)
    consider "\<not> has_table (mem s) pd (PDX a)" | "has_table (mem s) pd (PDX a)" "\<not> present (lookup (mem s) pd a)"
      | "present (lookup (mem s) pd a)" by blast
    then show ?thesis
    proof cases
      case 1
      let ?b = "PGADDR (PDX a + 1) 0 0"
      note b = next_table_after [OF kb]
      have "unat oldsz - unat ?b < unat oldsz - unat a" using b(1) True by (simp add: word_less_nat_alt)
      from less.hyps [OF this inv b(2)] obtain t fl' where t: "deallocuvm_loop pd ?b oldsz s = Some t"
        "uvm_inv t fl' pds" "shrunk s t fl fl' pds pd"
        "\<forall>va. lookup (mem t) pd va = (if ?b \<le> PGROUNDDOWN va \<and> PGROUNDDOWN va < oldsz \<and>
           present (lookup (mem s) pd va) then 0 else lookup (mem s) pd va)" by blast
      have "lookup (mem s) pd va = 0" if "a \<le> PGROUNDDOWN va" "\<not> ?b \<le> PGROUNDDOWN va" for va
        using same_table [OF kb, of "PGROUNDDOWN va"] that 1
        by (simp add: word_le_nat_alt lookup_no_table)
      then have "\<forall>va. lookup (mem t) pd va = (if a \<le> PGROUNDDOWN va \<and> PGROUNDDOWN va < oldsz \<and>
           present (lookup (mem s) pd va) then 0 else lookup (mem s) pd va)"
        using t(4) b(1) by (auto simp: word_le_nat_alt)
      then show ?thesis using t(1-3) round(1) [OF 1] by auto
    next
      case 2
      from less.hyps [OF dec inv nxt(2)] obtain t fl' where t: "deallocuvm_loop pd (a + PGSIZE) oldsz s = Some t"
        "uvm_inv t fl' pds" "shrunk s t fl fl' pds pd"
        "\<forall>va. lookup (mem t) pd va = (if a + PGSIZE \<le> PGROUNDDOWN va \<and> PGROUNDDOWN va < oldsz \<and>
           present (lookup (mem s) pd va) then 0 else lookup (mem s) pd va)" by blast
      have "\<not> present (lookup (mem s) pd va)" if "PGROUNDDOWN va = a" for va
        using 2(2) lookup_PGROUNDDOWN [of "mem s" pd va] that by simp
      then have "\<forall>va. lookup (mem t) pd va = (if a \<le> PGROUNDDOWN va \<and> PGROUNDDOWN va < oldsz \<and>
           present (lookup (mem s) pd va) then 0 else lookup (mem s) pd va)"
        using t(4) rng by auto
      then show ?thesis using t(1-3) round(2) [OF 2] by auto
    next
      case 3
      define fl1 where "fl1 = (if users (lookup (mem s)) pds (frame (lookup (mem s) pd a)) = {pd}
        then frame (lookup (mem s) pd a) # fl else fl)"
      obtain s1 where s1: "unmap_page (PTE_ADDR (lookup (mem s) pd a)) (pte_addr (mem s) pd a) s = Some s1"
          "uvm_inv s1 fl1 pds" "\<And>q vb. q \<in> pds \<Longrightarrow> lookup (mem s1) q vb = upd_entry (lookup (mem s)) pd a 0 q vb"
          and sh: "shrunk s s1 fl fl1 pds pd"
        by (rule unmap_page_spec [OF inv assms(2) al kb 3 refl fl1_def])
           (use shrunk_unmap [OF inv assms(2) al kb 3 refl fl1_def] in blast)
      from less.hyps [OF dec s1(2) nxt(2)] obtain t fl' where t: "deallocuvm_loop pd (a + PGSIZE) oldsz s1 = Some t"
        "uvm_inv t fl' pds" "shrunk s1 t fl1 fl' pds pd"
        "\<forall>va. lookup (mem t) pd va = (if a + PGSIZE \<le> PGROUNDDOWN va \<and> PGROUNDDOWN va < oldsz \<and>
           present (lookup (mem s1) pd va) then 0 else lookup (mem s1) pd va)" by blast
      have "lookup (mem s) pd va = lookup (mem s) pd a" if "PGROUNDDOWN va = a" for va
        using lookup_PGROUNDDOWN [of "mem s" pd va] that by simp
      then have "\<forall>va. lookup (mem t) pd va = (if a \<le> PGROUNDDOWN va \<and> PGROUNDDOWN va < oldsz \<and>
           present (lookup (mem s) pd va) then 0 else lookup (mem s) pd va)"
        using t(4) rng True 3 by (auto simp: s1(3) [OF assms(2)] upd_entry_apply)
      then show ?thesis using t(1,2) round(3) [OF 3] s1(1) shrunk_trans [OF sh t(3) assms(2)] by auto
    qed
  qed
qed

end
