(* ===== verification/Aspace.thy ===== *)
theory Aspace
  imports Uvm
begin

text \<open>
  Creating, growing, shrinking and destroying address spaces: \<open>deallocuvm\<close>, \<open>freevm\<close>,
  \<open>setupkvm\<close> and \<open>allocuvm\<close> of \<^verbatim>\<open>vm.c\<close>, each described by what becomes mapped and which
  pages become free, on success and on failure.
\<close>

section \<open>deallocuvm and freevm\<close>

lemma deallocuvm_spec:
  assumes "uvm_inv s fl pds" and "pd \<in> pds" and "oldsz \<le> KERNBASE"
  obtains t fl' where "deallocuvm pd oldsz newsz s = Some (if newsz \<ge> oldsz then oldsz else newsz, t)"
    and "uvm_inv t fl' pds" and "shrunk s t fl fl' pds pd"
    and "\<And>va. lookup (mem t) pd va =
           (if newsz < oldsz \<and> PGROUNDUP newsz \<le> PGROUNDDOWN va \<and> PGROUNDDOWN va < oldsz \<and> present (lookup (mem s) pd va)
            then 0 else lookup (mem s) pd va)"
proof (cases "newsz \<ge> oldsz")
  case True
  show ?thesis
    by (rule that [of s fl]) (use True assms shrunk_refl in \<open>auto simp: deallocuvm_def\<close>)
next
  case False
  from deallocuvm_loop_spec [OF assms(1,2) page_aligned_PGROUNDUP assms(3), of newsz] obtain t fl' where
    t: "deallocuvm_loop pd (PGROUNDUP newsz) oldsz s = Some t" "uvm_inv t fl' pds" "shrunk s t fl fl' pds pd"
      "\<forall>va. lookup (mem t) pd va = (if PGROUNDUP newsz \<le> PGROUNDDOWN va \<and> PGROUNDDOWN va < oldsz \<and>
         present (lookup (mem s) pd va) then 0 else lookup (mem s) pd va)" by blast
  show ?thesis
    by (rule that [OF _ t(2,3)]) (use False t(1,4) in \<open>auto simp: deallocuvm_def not_le\<close>)
qed

lemma pt_inv_subset: "pt_inv s fl pds \<Longrightarrow> pds' \<subseteq> pds \<Longrightarrow> pt_inv s fl pds'"
  unfolding pt_inv_def by blast

lemma pt_wf_tables_ok:
  assumes "pt_inv s fl pds" and "pd \<in> pds"
  shows "tables_ok s fl pd 0 1024"
proof -
  note wf = pt_invD(3) [OF assms]
  have "p \<in> tables_from (mem s) pd 0 1024 \<Longrightarrow> kpage s p \<and> p \<notin> set fl \<and> p \<noteq> pd" for p
    using pt_wf_pages(4-6) [OF wf of_nat_index] pt_invD(4) [OF assms] by (auto simp: tables_from_def)
  moreover have "inj_on (\<lambda>j. table_of (mem s) pd (of_nat j)) {j. 0 \<le> j \<and> j < 0 + 1024 \<and> has_table (mem s) pd (of_nat j)}"
  proof (rule inj_onI)
    fix i j :: nat
    assume "i \<in> {j. 0 \<le> j \<and> j < 0 + 1024 \<and> has_table (mem s) pd (of_nat j)}"
      and "j \<in> {j. 0 \<le> j \<and> j < 0 + 1024 \<and> has_table (mem s) pd (of_nat j)}"
      and t: "table_of (mem s) pd (of_nat i) = table_of (mem s) pd (of_nat j)"
    then have b: "i < 1024" "j < 1024" "has_table (mem s) pd (of_nat i)" "has_table (mem s) pd (of_nat j)" by auto
    with t pt_wf_pages(7) [OF wf of_nat_index b(3) of_nat_index b(4)] have "(of_nat i :: u32) = of_nat j" by blast
    then have "unat (of_nat i :: u32) = unat (of_nat j :: u32)" by simp
    with b(1,2) show "i = j" by (simp add: unat_of_nat)
  qed
  ultimately show ?thesis by (simp add: tables_ok_def)
qed

text \<open>What destroying the address space \<open>pd\<close> does.\<close>

definition destroyed :: "'z vm_scheme \<Rightarrow> 'z vm_scheme \<Rightarrow> u32 list \<Rightarrow> u32 list \<Rightarrow> u32 set \<Rightarrow> u32 \<Rightarrow> bool" where
  "destroyed s t fl fl' pds pd \<longleftrightarrow>
     set fl' = set fl \<union> pt_pages (mem s) pd \<union>
       {p \<in> user_frames (lookup (mem s)) pd. users (lookup (mem s)) (pds - {pd}) p = {}} \<and>
     (\<forall>q\<in>pds - {pd}. lookup (mem t) q = lookup (mem s) q \<and> pt_pages (mem t) q = pt_pages (mem s) q) \<and>
     same_except (set fl') (mem s) (mem t) \<and> only_vm s t"

lemma free_directory:
  assumes pt: "pt_inv s fl pds" and pd: "pd \<in> pds"
  obtains t fl' where "Option.bind (freevm_loop pd 0 (unat NPDENTRIES) s) (kfree pd) = Some t" and "kmem_inv t fl'"
    and "set fl' = set fl \<union> pt_pages (mem s) pd" and "same_except (pt_pages (mem s) pd) (mem s) (mem t)" and "only_mem s t"
proof -
  note wf = pt_invD(3) [OF pt pd]
  have kp: "kpage s pd" by (rule pt_wf_pages(1) [OF wf])
  then have al: "page_aligned pd" by (simp add: kpage_def)
  let ?T = "tables_from (mem s) pd 0 1024"
  have tp: "pt_pages (mem s) pd = insert pd ?T" by (simp add: tables_from_all)
  obtain u fl1 where u: "freevm_loop pd (of_nat 0) 1024 s = Some u" "kmem_inv u fl1" "set fl1 = set fl \<union> ?T"
      "same_except ?T (mem s) (mem u)" "only_mem s u"
    using freevm_loop_spec [OF _ pt_invD(2) [OF pt] al pt_wf_tables_ok [OF pt pd]] by auto
  have "pd \<notin> ?T" using pt_wf_tables_ok [OF pt pd] by (auto simp: tables_ok_def)
  moreover have "pd \<notin> set fl" using pt_invD(4) [OF pt pd] tp by auto
  ultimately have "pd \<notin> set fl1" using u(3) by simp
  moreover have "kpage u pd" using kp only_memD(1) [OF u(5)] by (simp add: kpage_def)
  ultimately obtain t where t: "kfree pd u = Some t" "kmem_inv t (pd # fl1)" "same_except {pd} (mem u) (mem t)" "only_mem u t"
    using kfree_ok [OF u(2)] by blast
  have se: "same_except (pt_pages (mem s) pd) (mem s) (mem t)"
    by (rule same_except_trans [OF u(4) t(3)]) (auto simp: tp)
  show ?thesis
    by (rule that [OF _ t(2) _ se only_mem_trans [OF u(5) t(4)]]) (use u(1,3) t(1) tp in \<open>simp_all add: NPDENTRIES_def\<close>)
qed

lemma freevm_spec:
  assumes inv: "uvm_inv s fl pds" and pd: "pd \<in> pds"
  obtains t fl' where "freevm pd s = Some t" and "uvm_inv t fl' (pds - {pd})" and "destroyed s t fl fl' pds pd"
proof -
  let ?P = "pds - {pd}"
  obtain s1 fl1 where s1: "deallocuvm pd KERNBASE 0 s = Some (0, s1)" "uvm_inv s1 fl1 pds" "shrunk s s1 fl fl1 pds pd"
    and l1: "\<And>va. lookup (mem s1) pd va = (if PGROUNDUP 0 \<le> PGROUNDDOWN va \<and> PGROUNDDOWN va < KERNBASE \<and>
      present (lookup (mem s) pd va) then 0 else lookup (mem s) pd va)"
    by (rule deallocuvm_spec [OF inv pd, of KERNBASE 0]) (auto simp: KERNBASE_def)
  have nm: "\<not> umap (lookup (mem s1)) pd va" for va
    using umap_PGROUNDDOWN [OF paged_lookup, of "mem s1" pd va] l1 [of va]
    by (auto simp: umap_def PGROUNDUP_def PGSIZE_def split: if_splits)
  note pt1 = uvm_invD(1) [OF s1(2)] and sh = shrunkD [OF s1(3)]
  obtain t fl' where t: "Option.bind (freevm_loop pd 0 (unat NPDENTRIES) s1) (kfree pd) = Some t" "kmem_inv t fl'"
      "set fl' = set fl1 \<union> pt_pages (mem s1) pd" "same_except (pt_pages (mem s1) pd) (mem s1) (mem t)" "only_mem s1 t"
    by (rule free_directory [OF pt1 pd])
  have pt2: "pt_inv s1 fl1 ?P" by (rule pt_inv_subset [OF pt1]) auto
  have d: "pt_pages (mem s1) q \<inter> pt_pages (mem s1) pd = {}" if "q \<in> ?P" for q
    using pt_invD(5) [OF pt1] that pd by blast
  have d': "pt_pages (mem s1) q \<inter> set fl' = {}" if "q \<in> ?P" for q
    using d [OF that] pt_invD(4) [OF pt2 that] t(3) by auto
  note co = pt_cong [OF pt_invD(3) [OF pt2] t(4) d]
  have ptt: "pt_inv t fl' ?P" by (rule pt_inv_frame [OF pt2 t(4) d only_memD(1) [OF t(5)] t(2) d'])
  have cow: "cow_ok (kpage s1) (kernel_pages s1 fl1 pds) (lookup (mem s1)) (refs s1) ?P"
    by (rule cow_remove_space [OF uvm_invD(2) [OF s1(2)] nm])
  have "uvm_inv t fl' ?P"
  proof (rule uvm_invI [OF ptt cow only_memD(1) [OF t(5)]])
    show "lookup (mem t) q va = lookup (mem s1) q va" if "q \<in> ?P" for q va using co(4) [OF that that] .
    show "refs t p = refs s1 p" for p using only_memD(4) [OF t(5)] by (simp add: refs_def)
    show "p \<in> kernel_pages s1 fl1 pds \<or> users (lookup (mem s1)) ?P p = {}" if "p \<in> kernel_pages t fl' ?P" for p
      using that pd co(3) t(3) by (auto simp: in_kernel_pages)
  qed
  moreover have "destroyed s t fl fl' pds pd"
  proof -
    have us: "users (lookup (mem s1)) pds p = users (lookup (mem s)) ?P p" for p
      using users_empty_space(2) [OF nm, of pds p] users_cong [of ?P "lookup (mem s1)" "lookup (mem s)" p] sh(2) by simp
    have "set fl' = set fl \<union> pt_pages (mem s) pd \<union> {p \<in> user_frames (lookup (mem s)) pd. users (lookup (mem s)) ?P p = {}}"
      using t(3) sh(5) sh(1) [OF pd] us by auto
    moreover have "same_except (set fl') (mem s) (mem t)"
      using sh(1) [OF pd] t(3) by (intro same_except_trans [OF sh(3) t(4)]) auto
    moreover have "only_vm s t" by (rule only_vm_trans [OF sh(4) only_vm_mem [OF t(5)]])
    moreover have "lookup (mem t) q = lookup (mem s) q \<and> pt_pages (mem t) q = pt_pages (mem s) q" if "q \<in> ?P" for q
      using co(3,4) [OF that that] sh(1,2) [of q] that by auto
    ultimately show ?thesis by (simp add: destroyed_def)
  qed
  moreover have "freevm pd s = Some t"
    using s1(1) t(1) kpage_facts(4) [OF uvm_invD(3) [OF inv] pt_wf_pages(1) [OF pt_invD(3) [OF uvm_invD(1) [OF inv] pd]]]
    by (simp add: freevm_def)
  ultimately show ?thesis using that by blast
qed

section \<open>setupkvm\<close>

text \<open>The address spaces \<open>pds\<close> and all memory outside the pages of \<open>W\<close> are as before.\<close>

definition preserved :: "'z vm_scheme \<Rightarrow> 'z vm_scheme \<Rightarrow> u32 set \<Rightarrow> u32 set \<Rightarrow> bool" where
  "preserved s t W pds \<longleftrightarrow>
     (\<forall>q\<in>pds. lookup (mem t) q = lookup (mem s) q \<and> pt_pages (mem t) q = pt_pages (mem s) q) \<and>
     same_except W (mem s) (mem t) \<and> only_vm s t"

lemma preservedD:
  assumes "preserved s t W pds"
  shows "q \<in> pds \<Longrightarrow> lookup (mem t) q = lookup (mem s) q" and "q \<in> pds \<Longrightarrow> pt_pages (mem t) q = pt_pages (mem s) q"
    and "same_except W (mem s) (mem t)" and "only_vm s t"
  using assms by (auto simp: preserved_def)

lemma preserved_refl [simp]: "preserved s s W pds"
  by (simp add: preserved_def)

lemma preserved_trans:
  assumes "preserved s t W pds" and "preserved t u W' pds" and "W \<subseteq> V" and "W' \<subseteq> V"
  shows "preserved s u V pds"
  unfolding preserved_def
proof (intro conjI ballI)
  show "only_vm s u" by (rule only_vm_trans [OF preservedD(4) [OF assms(1)] preservedD(4) [OF assms(2)]])
  show "same_except V (mem s) (mem u)"
    by (rule same_except_trans [OF preservedD(3) [OF assms(1)] preservedD(3) [OF assms(2)] assms(3,4)])
  fix q assume "q \<in> pds"
  then show "lookup (mem u) q = lookup (mem s) q" "pt_pages (mem u) q = pt_pages (mem s) q"
    using preservedD(1,2) [OF assms(1)] preservedD(1,2) [OF assms(2)] by simp_all
qed

lemma uvm_grown:
  assumes inv: "uvm_inv s fl pds" and pd: "pd \<in> pds" and fl: "fl = used @ fl'" and pt: "pt_inv t fl' pds"
    and g: "grown s t pds pd used" and l: "\<And>va. va < KERNBASE \<Longrightarrow> lookup (mem t) pd va = lookup (mem s) pd va"
  shows "uvm_inv t fl' pds"
proof (rule uvm_invI [OF pt uvm_invD(2) [OF inv]])
  have om: "only_mem s t" using g by (simp add: grown_def)
  show "kend t = kend s" by (rule only_memD(1) [OF om])
  show "refs t p = refs s p" for p using only_memD(4) [OF om] by (simp add: refs_def)
  show "lookup (mem t) q va = lookup (mem s) q va" if "q \<in> pds" "va < KERNBASE" for q va
    using g l that by (cases "q = pd") (auto simp: grown_def)
  show "p \<in> kernel_pages s fl pds \<or> users (lookup (mem s)) pds p = {}" if "p \<in> kernel_pages t fl' pds" for p
  proof -
    have "p \<in> kernel_pages s fl pds"
      using that g pd fl unfolding in_kernel_pages grown_def by (cases "p \<in> set fl") auto
    then show ?thesis ..
  qed
qed

lemma grown_preserved:
  assumes "grown s t (insert d pds) d used" and "d \<notin> pds"
  shows "preserved s t (set used \<union> pt_pages (mem s) d) pds"
  using assms only_vm_mem by (auto simp: grown_def preserved_def)

lemma uvm_new_directory:
  assumes inv: "uvm_inv s (p # fl) pds" and card: "card pds < 127"
    and t: "t = s\<lparr>freelist := load32 (mem s) p, mem := memset (mem s) p 0 PGSIZE\<rparr>"
  shows "uvm_inv t fl (insert p pds)" and "preserved s t {p} pds"
proof -
  note nd = new_directory [OF uvm_invD(1) [OF inv] t]
  show pr: "preserved s t {p} pds" using nd(5,6) by (simp add: preserved_def only_vm_mem t)
  have pu: "users (lookup (mem s)) pds p = {}" by (rule uvm_fresh(5) [OF inv])
  have "cow_ok (kpage s) (kernel_pages s (p # fl) pds) (lookup (mem t)) (refs s) pds"
    by (rule cow_cong [OF uvm_invD(2) [OF inv]]) (use nd(5) in auto)
  then have "cow_ok (kpage s) (kernel_pages s (p # fl) pds) (lookup (mem t)) (refs s) (insert p pds)"
    by (rule cow_add_space [OF _ _ card]) (simp add: umap_def nd(2))
  then show "uvm_inv t fl (insert p pds)"
  proof (rule uvm_invI [OF nd(1)])
    show "q \<in> kernel_pages s (p # fl) pds \<or> users (lookup (mem t)) (insert p pds) q = {}"
      if "q \<in> kernel_pages t fl (insert p pds)" for q
      using that nd(3,5) by (auto simp: in_kernel_pages)
  qed (simp_all add: t)
qed

lemma covers_kernel: "kmap_ok ks \<Longrightarrow> k \<in> set ks \<Longrightarrow> covers k va \<Longrightarrow> KERNBASE \<le> va"
  by (induction ks) (auto simp: kmap_entry_ok_def covers_def word_le_nat_alt)

lemma kmap_pte_user: "layout_ok s \<Longrightarrow> va < KERNBASE \<Longrightarrow> kmap_pte (kmap s) va = 0"
proof -
  have "(\<And>k. k \<in> set ks \<Longrightarrow> \<not> covers k va) \<Longrightarrow> kmap_pte ks va = 0" for ks by (induction ks) auto
  moreover assume "layout_ok s" "va < KERNBASE"
  ultimately show ?thesis using covers_kernel [OF kmap_kmap_ok] by (metis not_le)
qed

lemma kmap_pte_uncovered: "(\<And>k. k \<in> set ks \<Longrightarrow> \<not> covers k va) \<Longrightarrow> kmap_pte ks va = 0"
  by (induction ks) auto

lemma setupkvm_spec:
  assumes inv: "uvm_inv s fl pds" and lay: "layout_ok s" and card: "card pds < 127"
  obtains (fail) t fl' where "setupkvm s = Some (0, t)" and "uvm_inv t fl' pds" and "set fl' = set fl"
      and "preserved s t (set fl) pds"
  | (ok) d t fl' where "setupkvm s = Some (d, t)" and "d \<noteq> 0" and "d \<notin> pds" and "uvm_inv t fl' (insert d pds)"
      and "set fl = set fl' \<union> pt_pages (mem t) d" and "\<And>va. lookup (mem t) d va = kmap_pte (kmap s) va"
      and "preserved s t (set fl) pds"
proof (cases fl)
  case Nil
  have "setupkvm s = Some (0, s)"
    using kalloc_empty [of s] pt_invD(2) [OF uvm_invD(1) [OF inv]] Nil by (simp add: setupkvm_def)
  with fail show ?thesis using inv by simp
next
  case (Cons p qs)
  note inv' = inv [unfolded Cons]
  define s1 where "s1 = s\<lparr>freelist := load32 (mem s) p, mem := memset (mem s) p 0 PGSIZE\<rparr>"
  note u1 = uvm_new_directory [OF inv' card s1_def] and nd = new_directory [OF uvm_invD(1) [OF inv'] s1_def]
  have km: "kmap s1 = kmap s" by (simp add: s1_def kmap_def)
  have "\<forall>k\<in>set (kmap s). \<forall>va. covers k va \<longrightarrow> \<not> present (lookup (mem s1) p va)" by (simp add: nd(2))
  from setupkvm_loop_gen [OF uvm_invD(1) [OF u1(1)] _ kmap_kmap_ok [OF lay] this]
  obtain ok t used fl' where t: "setupkvm_loop p (kmap s) s1 = Some (ok, t)" "qs = used @ fl'" "pt_inv t fl' (insert p pds)"
      "grown s1 t (insert p pds) p used" "\<forall>va<KERNBASE. lookup (mem t) p va = lookup (mem s1) p va"
      "ok \<longrightarrow> (\<forall>va. lookup (mem t) p va = (if \<exists>k\<in>set (kmap s). covers k va then kmap_pte (kmap s) va else lookup (mem s1) p va))"
    by auto
  have ut: "uvm_inv t fl' (insert p pds)" by (rule uvm_grown [OF u1(1) _ t(2,3,4)]) (use t(5) in auto)
  have pp: "pt_pages (mem t) p = set used \<union> {p}" using t(4) nd(3) by (simp add: grown_def)
  have pr: "preserved s t (set fl) pds"
    by (rule preserved_trans [OF u1(2) grown_preserved [OF t(4) nd(4)]]) (auto simp: Cons t(2) nd(3))
  have ex: "setupkvm s = (if ok then Some (p, t) else Option.bind (freevm p t) (\<lambda>s. Some (0, s)))"
  proof -
    have "\<not> P2V PHYSTOP > DEVSPACE" by (simp add: P2V_def layout_defs)
    then show ?thesis using uvm_pop(1) [OF inv'] uvm_fresh(2) [OF inv'] t(1)
      by (simp add: setupkvm_def s1_def [symmetric] km)
  qed
  show ?thesis
  proof (cases ok)
    case True
    have "lookup (mem t) p va = kmap_pte (kmap s) va" for va
      using t(6) True nd(2) kmap_pte_uncovered [of "kmap s" va] by auto
    moreover have "set fl = set fl' \<union> pt_pages (mem t) p" using pp t(2) Cons by auto
    moreover have "setupkvm s = Some (p, t)" using ex True by simp
    ultimately show ?thesis using ok uvm_fresh(2) [OF inv'] nd(4) ut pr by blast
  next
    case False
    obtain u fl'' where u: "freevm p t = Some u" "uvm_inv u fl'' (insert p pds - {p})" "destroyed t u fl' fl'' (insert p pds) p"
      by (rule freevm_spec [OF ut]) auto
    have "user_frames (lookup (mem t)) p = {}"
      using t(5) nd(2) by (auto simp: user_frames_def umap_def)
    then have fl'': "set fl'' = set fl" using u(3) pp Cons t(2) by (auto simp: destroyed_def)
    have pd: "insert p pds - {p} = pds" using nd(4) by auto
    have "preserved t u (set fl) pds" using u(3) fl'' pd by (auto simp: destroyed_def preserved_def)
    then have "preserved s u (set fl) pds" by (rule preserved_trans [OF pr]) auto
    then show ?thesis using fail [of u fl''] ex False u(1,2) fl'' pd by simp
  qed
qed

section \<open>What user programs see\<close>

text \<open>The byte a process reads at a user address, if the address is mapped.\<close>

definition uview :: "'z vm_scheme \<Rightarrow> u32 \<Rightarrow> u32 \<Rightarrow> u8 option" where
  "uview s pd va =
     (if umap (lookup (mem s)) pd va then Some (mem s (frame (lookup (mem s) pd va) + (va AND 0xFFF))) else None)"

text \<open>All pages in use or free: an operation that keeps this set loses no page.\<close>

definition pool :: "'z vm_scheme \<Rightarrow> u32 list \<Rightarrow> u32 set \<Rightarrow> u32 set" where
  "pool s fl pds = kernel_pages s fl pds \<union> {p. users (lookup (mem s)) pds p \<noteq> {}}"

lemma page_aligned_P2V: "page_aligned a \<Longrightarrow> page_aligned (P2V a)"
proof -
  assume a: "page_aligned a"
  have "page_aligned (- KERNBASE)" by (simp add: page_aligned_def KERNBASE_def)
  from page_aligned_diff [OF a this] show ?thesis by (simp add: P2V_def)
qed

lemma page_aligned_frame [simp]: "page_aligned (frame e)"
  by (simp add: frame_def page_aligned_P2V)

text \<open>Writes to page tables and free pages are invisible.\<close>

lemma uview_same:
  assumes "umap (lookup (mem s)) q va \<Longrightarrow> frame (lookup (mem s) q va) \<notin> W" and "same_except W (mem s) (mem t)"
    and "lookup (mem t) q va = lookup (mem s) q va"
  shows "uview t q va = uview s q va"
proof (cases "umap (lookup (mem s)) q va")
  case True
  have "in_page (frame (lookup (mem s) q va)) (frame (lookup (mem s) q va) + (va AND 0xFFF))" by simp
  then show ?thesis
    using True assms(3) same_except_page [OF assms(2) assms(1) [OF True]] by (simp add: uview_def umap_def)
qed (simp add: uview_def umap_def assms(3))

lemma uview_kernel_write:
  assumes "uvm_inv s fl pds" and "q \<in> pds" and "W \<subseteq> kernel_pages s fl pds" and "same_except W (mem s) (mem t)"
    and "lookup (mem t) q va = lookup (mem s) q va"
  shows "uview t q va = uview s q va"
  using cow_allocD [OF cow_okD(3) [OF uvm_invD(2) [OF assms(1)]] assms(2)] assms(3)
  by (intro uview_same [OF _ assms(4,5)]) blast

lemma uview_kernel_write':
  assumes "uvm_inv t fl pds" and "q \<in> pds" and "W \<subseteq> kernel_pages t fl pds" and "same_except W (mem s) (mem t)"
    and "lookup (mem t) q va = lookup (mem s) q va"
  shows "uview t q va = uview s q va"
  using cow_allocD [OF cow_okD(3) [OF uvm_invD(2) [OF assms(1)]] assms(2), of va] assms(3,5)
  by (intro uview_same [OF _ assms(4,5)]) (auto simp: umap_def)

definition others_same :: "'z vm_scheme \<Rightarrow> 'z vm_scheme \<Rightarrow> u32 set \<Rightarrow> u32 \<Rightarrow> bool" where
  "others_same s t pds pd \<longleftrightarrow> only_vm s t \<and>
     (\<forall>q\<in>pds - {pd}. lookup (mem t) q = lookup (mem s) q \<and> pt_pages (mem t) q = pt_pages (mem s) q \<and> uview t q = uview s q)"

lemma others_same_refl [simp]: "others_same s s pds pd"
  by (simp add: others_same_def)

lemma others_same_trans: "others_same s t pds pd \<Longrightarrow> others_same t u pds pd \<Longrightarrow> others_same s u pds pd"
  using only_vm_trans by (auto simp: others_same_def)

lemma shrunk_result:
  assumes inv: "uvm_inv t fl' pds" and sh: "shrunk s t fl fl' pds pd" and pd: "pd \<in> pds"
  shows "others_same s t pds pd" and "pool t fl' pds = pool s fl pds"
    and "lookup (mem t) pd va = lookup (mem s) pd va \<Longrightarrow> uview t pd va = uview s pd va"
    and "lookup (mem t) pd va = 0 \<Longrightarrow> uview t pd va = None"
proof -
  note d = shrunkD [OF sh]
  have W: "set fl' \<union> pt_pages (mem s) pd \<subseteq> kernel_pages t fl' pds"
    using d(1) [OF pd] pd by (auto simp: kernel_pages_def)
  note uv = uview_kernel_write' [OF inv _ W d(3)]
  show "lookup (mem t) pd va = lookup (mem s) pd va \<Longrightarrow> uview t pd va = uview s pd va" by (rule uv [OF pd])
  show "lookup (mem t) pd va = 0 \<Longrightarrow> uview t pd va = None" by (simp add: uview_def umap_def)
  show "others_same s t pds pd"
    using d(1,2,4) uv by (auto simp: others_same_def fun_eq_iff)
  have k: "p \<in> kernel_pages t fl' pds \<longleftrightarrow> p \<in> kernel_pages s fl pds \<or>
      p \<in> user_frames (lookup (mem s)) pd \<and> users (lookup (mem t)) pds p = {}" for p
    using d(1) unfolding in_kernel_pages d(5) by auto
  have u: "users (lookup (mem s)) pds p \<noteq> {} \<longleftrightarrow>
      users (lookup (mem t)) pds p \<noteq> {} \<or> p \<in> user_frames (lookup (mem s)) pd" for p
  proof
    assume "users (lookup (mem s)) pds p \<noteq> {}"
    then obtain q where q: "q \<in> users (lookup (mem s)) pds p" by blast
    then have "q \<noteq> pd \<Longrightarrow> users (lookup (mem t)) pds p \<noteq> {}" using shrunk_users(2) [OF sh _ q] by blast
    moreover have "q = pd \<Longrightarrow> p \<in> user_frames (lookup (mem s)) pd" using q by (simp add: users_def)
    ultimately show "users (lookup (mem t)) pds p \<noteq> {} \<or> p \<in> user_frames (lookup (mem s)) pd" by blast
  next
    assume "users (lookup (mem t)) pds p \<noteq> {} \<or> p \<in> user_frames (lookup (mem s)) pd"
    then show "users (lookup (mem s)) pds p \<noteq> {}" using shrunk_users(1) [OF sh, of p] pd by (auto simp: users_def)
  qed
  show "pool t fl' pds = pool s fl pds" unfolding pool_def using k u by auto
qed

end
