(* ===== verification/Grow.thy ===== *)
theory Grow
  imports Aspace
begin

text \<open>
  Mapping user pages: the common step of \<open>allocuvm\<close>, \<open>inituvm\<close>, \<open>copyuvm\<close> and \<open>copyuvmcow\<close>,
  and the correctness of \<open>allocuvm\<close> with its two failure paths.
\<close>

section \<open>Mapping one page\<close>

lemma or_AND_flag: "(x OR y) AND f \<noteq> 0 \<longleftrightarrow> x AND f \<noteq> 0 \<or> y AND f \<noteq> (0 :: u32)"
proof -
  have "(x OR y) AND f = (x AND f) OR (y AND f)" by (rule bit.conj_disj_distrib2)
  then show ?thesis by (simp add: or_eq_0_iff)
qed

lemma user_entry:
  assumes "KERNBASE \<le> kend s" and "kpage s p" and "f < 4096"
  shows "frame (V2P p OR f OR PTE_P) = p" and "present (V2P p OR f OR PTE_P)"
    and "writable (V2P p OR f OR PTE_P) \<longleftrightarrow> f AND PTE_W \<noteq> 0"
    and "(V2P p OR f OR PTE_P) AND PTE_U = f AND PTE_U"
    and "PTE_FLAGS (V2P p OR f OR PTE_P) = f OR PTE_P"
proof -
  have fp: "f OR PTE_P < 4096" using assms(3) by simp
  note e = entry_addr_flags [OF assms(1,2) fp]
  show "frame (V2P p OR f OR PTE_P) = p" using e(1) by (simp add: frame_def)
  show "present (V2P p OR f OR PTE_P)" using e(2) [of PTE_P] or_AND_flag [of f PTE_P PTE_P] by (simp add: PTE_defs)
  show "writable (V2P p OR f OR PTE_P) \<longleftrightarrow> f AND PTE_W \<noteq> 0"
    using e(2) [of PTE_W] or_AND_flag [of f PTE_P PTE_W] by (simp add: PTE_defs)
  have "PTE_P AND PTE_U = 0" by (simp add: PTE_defs)
  then show "(V2P p OR f OR PTE_P) AND PTE_U = f AND PTE_U"
    using e(2) [of PTE_U] bit.conj_disj_distrib2 [of f PTE_P PTE_U] by simp
  show "PTE_FLAGS (V2P p OR f OR PTE_P) = f OR PTE_P"
    using kpage_facts(5) [OF assms(1,2)] fp by (simp add: PTE_FLAGS_or)
qed

lemma uvm_map_page:
  assumes inv: "uvm_inv s fl pds" and pd: "pd \<in> pds" and a: "page_aligned a" "a < KERNBASE"
    and np: "\<not> present (lookup (mem s) pd a)" and p: "kpage s p" "p \<notin> kernel_pages s fl pds" and f: "f < 4096"
    and pu: "p \<notin> user_frames (lookup (mem s)) pd"
    and ex: "f AND PTE_W \<noteq> 0 \<Longrightarrow> users (lookup (mem s)) pds p = {}"
    and ro: "\<And>q va. q \<in> pds \<Longrightarrow> umap (lookup (mem s)) q va \<Longrightarrow> frame (lookup (mem s) q va) = p \<Longrightarrow>
               \<not> writable (lookup (mem s) q va)"
  obtains (fail) "mappages pd a PGSIZE (V2P p) f s = Some (-1, s)" and "fl = []"
  | (ok) t used fl' where "mappages pd a PGSIZE (V2P p) f s = Some (0, t)" and "fl = used @ fl'"
      and "pt_inv t fl' pds" and "grown s t pds pd used"
      and "\<And>q vb. q \<in> pds \<Longrightarrow> lookup (mem t) q vb = upd_entry (lookup (mem s)) pd a (V2P p OR f OR PTE_P) q vb"
      and "cow_ok (kpage s) (kernel_pages s fl pds) (upd_entry (lookup (mem s)) pd a (V2P p OR f OR PTE_P))
             ((refs s)(p := refs s p + 1)) pds"
proof -
  note ue = user_entry [OF uvm_invD(3) [OF inv] p(1) f]
  show ?thesis
  proof (rule mappages_page [OF uvm_invD(1) [OF inv] pd a(1) np, of "V2P p" f])
    assume "mappages pd a PGSIZE (V2P p) f s = Some (-1, s)" "fl = []"
    then show ?thesis by (rule fail)
  next
    fix t used fl'
    assume t: "mappages pd a PGSIZE (V2P p) f s = Some (0, t)" "fl = used @ fl'" "pt_inv t fl' pds" "grown s t pds pd used"
      "\<And>va. lookup (mem t) pd va = (if PGROUNDDOWN va = a then V2P p OR f OR PTE_P else lookup (mem s) pd va)"
    show ?thesis
    proof (rule ok [OF t(1-4)])
      show "lookup (mem t) q vb = upd_entry (lookup (mem s)) pd a (V2P p OR f OR PTE_P) q vb" if "q \<in> pds" for q vb
        using t(4,5) that by (cases "q = pd") (simp_all add: upd_entry_apply grown_def)
      show "cow_ok (kpage s) (kernel_pages s fl pds) (upd_entry (lookup (mem s)) pd a (V2P p OR f OR PTE_P))
             ((refs s)(p := refs s p + 1)) pds"
        by (rule cow_map [OF uvm_invD(2) [OF inv] paged_lookup pd a np ue(2)])
           (use p pu ex ro in \<open>simp_all add: ue\<close>)
    qed
  qed
qed

text \<open>Counting the new mapping completes the step.\<close>

lemma uvm_count_gen:
  assumes inv: "uvm_inv s fl pds" and p: "kpage s p" and pt: "pt_inv t fl' pds" and om: "only_mem s t"
    and kp: "\<And>q. q \<in> kernel_pages t fl' pds \<Longrightarrow> q \<in> kernel_pages s fl pds"
    and l: "\<And>q vb. q \<in> pds \<Longrightarrow> lookup (mem t) q vb = L q vb"
    and cow: "cow_ok (kpage s) (kernel_pages s fl pds) L ((refs s)(p := refs s p + 1)) pds"
  shows "add_refcount (V2P p) 1 t = Some (ref_upd p 1 t)" and "uvm_inv (ref_upd p 1 t) fl' pds"
proof -
  have ke: "kend t = kend s" by (rule only_memD(1) [OF om])
  have kpt: "kpage t q \<longleftrightarrow> kpage s q" for q by (rule kpage_cong [OF ke])
  have k: "KERNBASE \<le> kend t" using uvm_invD(3) [OF inv] ke by simp
  show "add_refcount (V2P p) 1 t = Some (ref_upd p 1 t)" using refcount_kpage(2) [OF k] p kpt by simp
  have r: "refs t q = refs s q" for q using only_memD(4) [OF om] by (simp add: refs_def)
  have pt': "pt_inv (ref_upd p 1 t) fl' pds"
  proof (rule pt_inv_frame [OF pt, of "{}"])
    show "kmem_inv (ref_upd p 1 t) fl'" by (rule kmem_inv_frame [OF pt_invD(2) [OF pt], of "{}"]) simp_all
  qed (use pt_invD(4) [OF pt] in simp_all)
  show "uvm_inv (ref_upd p 1 t) fl' pds"
  proof (rule uvm_invI [OF pt' cow])
    show "refs (ref_upd p 1 t) q = ((refs s)(p := refs s p + 1)) q" if "kpage s q" for q
      using refs_ref_upd [OF k, of p q 1] p that by (simp add: kpt r)
    show "q \<in> kernel_pages s fl pds \<or> users L pds q = {}" if "q \<in> kernel_pages (ref_upd p 1 t) fl' pds" for q
      using kp [of q] that by (simp add: kernel_pages_def)
  qed (simp_all add: ke l)
qed

lemma grown_kernel_pages:
  assumes "grown s t pds pd used" and "pd \<in> pds" and "fl = used @ fl'"
  shows "q \<in> kernel_pages t fl' pds \<longleftrightarrow> q \<in> kernel_pages s fl pds"
  using assms unfolding in_kernel_pages grown_def by (cases "q \<in> set fl") auto

lemma uvm_count:
  assumes inv: "uvm_inv s fl pds" and pd: "pd \<in> pds" and p: "kpage s p"
    and t: "fl = used @ fl'" "pt_inv t fl' pds" "grown s t pds pd used"
    and l: "\<And>q vb. q \<in> pds \<Longrightarrow> lookup (mem t) q vb = L q vb"
    and cow: "cow_ok (kpage s) (kernel_pages s fl pds) L ((refs s)(p := refs s p + 1)) pds"
  shows "add_refcount (V2P p) 1 t = Some (ref_upd p 1 t)" and "uvm_inv (ref_upd p 1 t) fl' pds"
proof -
  have "only_mem s t" using t(3) by (simp add: grown_def)
  note g = uvm_count_gen [OF inv p t(2) this grown_kernel_pages [OF t(3) pd t(1), THEN iffD1] l cow]
  show "add_refcount (V2P p) 1 t = Some (ref_upd p 1 t)" "uvm_inv (ref_upd p 1 t) fl' pds" by (rule g; assumption)+
qed

section \<open>Taking a page from the allocator and giving it back\<close>

text \<open>Address spaces and what they see are unchanged.\<close>

definition views_same :: "'z vm_scheme \<Rightarrow> 'z vm_scheme \<Rightarrow> u32 set \<Rightarrow> bool" where
  "views_same s t pds \<longleftrightarrow> only_vm s t \<and>
     (\<forall>q\<in>pds. lookup (mem t) q = lookup (mem s) q \<and> pt_pages (mem t) q = pt_pages (mem s) q \<and> uview t q = uview s q)"

lemma views_sameD:
  assumes "views_same s t pds"
  shows "only_vm s t" and "q \<in> pds \<Longrightarrow> lookup (mem t) q = lookup (mem s) q"
    and "q \<in> pds \<Longrightarrow> pt_pages (mem t) q = pt_pages (mem s) q" and "q \<in> pds \<Longrightarrow> uview t q = uview s q"
    and "users (lookup (mem t)) pds p = users (lookup (mem s)) pds p"
proof -
  show "users (lookup (mem t)) pds p = users (lookup (mem s)) pds p"
    using assms by (intro users_cong) (auto simp: views_same_def)
qed (use assms in \<open>auto simp: views_same_def\<close>)

lemma views_same_others: "views_same s t pds \<Longrightarrow> others_same s t pds pd"
  by (simp add: views_same_def others_same_def)

lemma in_pool: "p \<in> pool s fl pds \<longleftrightarrow> p \<in> kernel_pages s fl pds \<or> users (lookup (mem s)) pds p \<noteq> {}"
  by (simp add: pool_def)

lemma views_same_pool:
  assumes "views_same s t pds"
  shows "p \<in> pool t fl pds \<longleftrightarrow> p \<in> pool s fl pds"
  using views_sameD(3,5) [OF assms] by (auto simp: in_pool in_kernel_pages)

lemma pool_Cons: "pool s (p # fl) pds = insert p (pool s fl pds)"
  by (auto simp: pool_def kernel_pages_def)

lemma uvm_take:
  assumes inv: "uvm_inv s (p # fl) pds" and se: "same_except {p} (mem s) m"
    and t: "t = s\<lparr>freelist := load32 (mem s) p, mem := m\<rparr>"
  shows "kalloc s = Some (p, s\<lparr>freelist := load32 (mem s) p\<rparr>)" and "uvm_inv t fl pds" and "views_same s t pds"
    and "kpage t p" and "p \<notin> pool t fl pds" and "pool s (p # fl) pds = insert p (pool t fl pds)"
proof -
  let ?s1 = "s\<lparr>freelist := load32 (mem s) p\<rparr>"
  show "kalloc s = Some (p, ?s1)" by (rule uvm_pop(1) [OF inv])
  note i1 = uvm_pop(2) [OF inv] and fr = uvm_fresh [OF inv]
  have np: "p \<notin> kernel_pages ?s1 fl pds" using fr(3,4) by (auto simp: in_kernel_pages)
  have t': "t = ?s1\<lparr>mem := m\<rparr>" by (simp add: t)
  note w = uvm_write [OF i1 np, of m]
  show inv': "uvm_inv t fl pds" unfolding t' using w(1) se by simp
  have l: "lookup (mem t) q = lookup (mem s) q" "pt_pages (mem t) q = pt_pages (mem s) q" if "q \<in> pds" for q
    using w(2,3) [OF _ that] se by (simp_all add: t)
  have "uview t q va = uview s q va" if "q \<in> pds" for q va
    using se l(1) [OF that] by (intro uview_kernel_write [OF inv that, of "{p}"]) (auto simp: in_kernel_pages t)
  moreover have "only_vm s t" by (rule only_vm_mem) (simp add: t)
  ultimately show vs: "views_same s t pds" using l by (auto simp: views_same_def)
  show "kpage t p" using fr(1) by (simp add: kpage_def t)
  show "p \<notin> pool t fl pds" unfolding views_same_pool [OF vs] using fr(3-5) by (auto simp: in_pool in_kernel_pages)
  show "pool s (p # fl) pds = insert p (pool t fl pds)" using views_same_pool [OF vs] by (auto simp: pool_Cons)
qed

lemma uvm_kfree:
  assumes inv: "uvm_inv s fl pds" and p: "kpage s p" "p \<notin> pool s fl pds"
  obtains t where "kfree p s = Some t" and "uvm_inv t (p # fl) pds" and "views_same s t pds"
    and "pool t (p # fl) pds = insert p (pool s fl pds)"
proof -
  note pt = uvm_invD(1) [OF inv]
  have np: "p \<notin> set fl" "p \<notin> kernel_pages s fl pds" "users (lookup (mem s)) pds p = {}"
    using p(2) by (auto simp: in_pool in_kernel_pages)
  obtain t where t: "kfree p s = Some t" "kmem_inv t (p # fl)" "same_except {p} (mem s) (mem t)" "only_mem s t"
    by (rule kfree_ok [OF pt_invD(2) [OF pt] p(1) np(1)])
  have d: "pt_pages (mem s) q \<inter> {p} = {}" "pt_pages (mem s) q \<inter> set (p # fl) = {}" if "q \<in> pds" for q
    using np(2) that pt_invD(4) [OF pt that] by (auto simp: in_kernel_pages)
  note co = pt_cong [OF pt_invD(3) [OF pt] t(3) d(1)] and ke = only_memD(1) [OF t(4)]
  have l: "lookup (mem t) q = lookup (mem s) q" "pt_pages (mem t) q = pt_pages (mem s) q" if "q \<in> pds" for q
    using co(3,4) [OF that that] by auto
  have "uvm_inv t (p # fl) pds"
  proof (rule uvm_invI [OF pt_inv_frame [OF pt t(3) d(1) ke t(2) d(2)] uvm_invD(2) [OF inv] ke])
    show "refs t q = refs s q" for q using only_memD(4) [OF t(4)] by (simp add: refs_def)
    show "q \<in> kernel_pages s fl pds \<or> users (lookup (mem s)) pds q = {}" if "q \<in> kernel_pages t (p # fl) pds" for q
      using that l(2) np(3) by (auto simp: in_kernel_pages)
  qed (simp_all add: l)
  moreover have vs: "views_same s t pds"
  proof -
    have "uview t q va = uview s q va" if "q \<in> pds" for q va
      using t(3) l(1) [OF that] that
      by (intro uview_kernel_write' [OF calculation that, of "{p}"]) (auto simp: in_kernel_pages)
    then show ?thesis using l only_vm_mem [OF t(4)] by (auto simp: views_same_def)
  qed
  moreover have "pool t (p # fl) pds = insert p (pool s fl pds)" using views_same_pool [OF vs] by (auto simp: pool_Cons)
  ultimately show ?thesis using that t(1) by blast
qed

section \<open>Mapping a fresh page\<close>

lemma PGROUNDDOWN_user: "PGROUNDDOWN va < KERNBASE \<longleftrightarrow> va < KERNBASE"
  using page_range_iff [of 0 "2^19" va] by (simp add: page_aligned_def KERNBASE_def word_less_nat_alt)

text \<open>The state after \<open>p\<close> was mapped at \<open>a\<close> in \<open>pd\<close> and counted.\<close>

lemma mapped_result:
  assumes inv: "uvm_inv s fl pds" and pd: "pd \<in> pds" and a: "page_aligned a" "a < KERNBASE"
    and np: "\<not> present (lookup (mem s) pd a)" and p: "kpage s p" and e: "frame e = p" "present e"
    and t: "fl = used @ fl'" "grown s t pds pd used"
    and l: "\<And>q vb. q \<in> pds \<Longrightarrow> lookup (mem t) q vb = upd_entry (lookup (mem s)) pd a e q vb"
  shows "others_same s (ref_upd p 1 t) pds pd"
    and "pool (ref_upd p 1 t) fl' pds = insert p (pool s fl pds)"
    and "p \<notin> kernel_pages s fl pds \<Longrightarrow> uview (ref_upd p 1 t) pd va =
           (if PGROUNDDOWN va = a then Some (mem s (p + (va AND 0xFFF))) else uview s pd va)"
proof -
  have g: "pt_pages (mem t) pd = set used \<union> pt_pages (mem s) pd" "same_except (set used \<union> pt_pages (mem s) pd) (mem s) (mem t)"
    "only_mem s t" "\<And>q. q \<in> pds - {pd} \<Longrightarrow> pt_pages (mem t) q = pt_pages (mem s) q \<and> lookup (mem t) q = lookup (mem s) q"
    using t(2) by (auto simp: grown_def)
  have W: "set used \<union> pt_pages (mem s) pd \<subseteq> kernel_pages s fl pds" using pd t(1) by (auto simp: kernel_pages_def)
  have uv: "uview (ref_upd p 1 t) q va = uview s q va" if "q \<in> pds" "lookup (mem t) q va = lookup (mem s) q va" for q va
    using uview_kernel_write [OF inv that(1) W, of "ref_upd p 1 t" va] g(2) that(2) by simp
  have "only_vm s (ref_upd p 1 t)" by (rule only_vm_trans [OF only_vm_mem [OF g(3)] only_vm_simps(4)])
  then show "others_same s (ref_upd p 1 t) pds pd"
    using g(4) uv by (auto simp: others_same_def fun_eq_iff)
  have us: "users (lookup (mem t)) pds q = (if q = p then insert pd (users (lookup (mem s)) pds q) else users (lookup (mem s)) pds q)" for q
    using users_cong [of pds "lookup (mem t)" "upd_entry (lookup (mem s)) pd a e" q] l
      users_map [OF paged_lookup pd a np e(2), of q] e(1) by simp
  have k: "q \<in> kernel_pages (ref_upd p 1 t) fl' pds \<longleftrightarrow> q \<in> kernel_pages s fl pds" for q
    using grown_kernel_pages [OF t(2) pd t(1)] by (simp add: kernel_pages_def)
  have "q \<in> pool (ref_upd p 1 t) fl' pds \<longleftrightarrow> q = p \<or> q \<in> pool s fl pds" for q
    unfolding in_pool k by (simp add: us)
  then show "pool (ref_upd p 1 t) fl' pds = insert p (pool s fl pds)" by auto
  assume pk: "p \<notin> kernel_pages s fl pds"
  show "uview (ref_upd p 1 t) pd va = (if PGROUNDDOWN va = a then Some (mem s (p + (va AND 0xFFF))) else uview s pd va)"
  proof (cases "PGROUNDDOWN va = a")
    case True
    then have "va < KERNBASE" using a(2) PGROUNDDOWN_user [of va] by simp
    moreover have "mem t (p + (va AND 0xFFF)) = mem s (p + (va AND 0xFFF))"
      using pk W p by (intro same_except_page [OF g(2), of p]) (auto simp: kpage_def)
    ultimately show ?thesis using True l [OF pd] e by (simp add: uview_def umap_def upd_entry_apply)
  next
    case False
    then show ?thesis using uv [OF pd, of va] l [OF pd, of va] by (simp add: upd_entry_apply)
  qed
qed

section \<open>allocuvm\<close>

definition page_in :: "u32 \<Rightarrow> u32 \<Rightarrow> u32 \<Rightarrow> bool" where
  "page_in lo hi va \<longleftrightarrow> lo \<le> PGROUNDDOWN va \<and> PGROUNDDOWN va < hi"

text \<open>\<open>grew\<close>: the pages from \<open>lo\<close> to \<open>hi\<close> are writable user pages that read as zero;
  \<open>cut\<close>: they are not mapped. The rest of the address space is as before.\<close>

definition grew :: "'z vm_scheme \<Rightarrow> 'z vm_scheme \<Rightarrow> u32 \<Rightarrow> u32 \<Rightarrow> u32 \<Rightarrow> bool" where
  "grew s t pd lo hi \<longleftrightarrow> (\<forall>va.
     if page_in lo hi va then uview t pd va = Some 0 \<and>
       lookup (mem t) pd va = V2P (frame (lookup (mem t) pd va)) OR (PTE_W OR PTE_U) OR PTE_P
     else lookup (mem t) pd va = lookup (mem s) pd va \<and> uview t pd va = uview s pd va)"

definition cut :: "'z vm_scheme \<Rightarrow> 'z vm_scheme \<Rightarrow> u32 \<Rightarrow> u32 \<Rightarrow> u32 \<Rightarrow> bool" where
  "cut s t pd lo hi \<longleftrightarrow> (\<forall>va.
     if page_in lo hi va then \<not> present (lookup (mem t) pd va)
     else lookup (mem t) pd va = lookup (mem s) pd va \<and> uview t pd va = uview s pd va)"

lemma PGROUNDUP_ge:
  assumes "x < KERNBASE"
  shows "x \<le> PGROUNDUP x"
proof -
  let ?y = "x + PGSIZE - 1"
  have "?y AND 0xFFF = ?y - PGROUNDUP x"
    using page_split [of ?y] by (simp add: PGROUNDUP_def PGROUNDDOWN_def algebra_simps)
  moreover have le: "PGROUNDUP x \<le> ?y" unfolding PGROUNDUP_def by (rule word_and_le2)
  moreover have "unat (?y AND 0xFFF) \<le> 4095"
    using low12_less [of ?y] by (simp add: word_less_nat_alt del: low12_less)
  moreover have "unat ?y = unat x + 4095"
    using assms by (simp add: PGSIZE_def word_less_nat_alt KERNBASE_def unat_word_ariths add.commute [of x])
  ultimately show ?thesis using unat_sub [OF le] by (simp add: word_le_nat_alt)
qed

text \<open>The state the loop body works on: a zeroed page taken from the allocator.\<close>

lemma alloc_zeroed:
  assumes inv: "uvm_inv s (p # fl) pds" and s2: "s2 = s\<lparr>freelist := load32 (mem s) p, mem := memset (mem s) p 0 PGSIZE\<rparr>"
  shows "uvm_inv s2 fl pds" and "views_same s s2 pds" and "kpage s2 p" and "p \<notin> pool s2 fl pds"
    and "pool s (p # fl) pds = insert p (pool s2 fl pds)" and "in_page p x \<Longrightarrow> mem s2 x = 0"
proof -
  have al: "page_aligned p" using uvm_fresh(1) [OF inv] by (simp add: kpage_def)
  note tk = uvm_take [OF inv same_except_memset [OF al] s2]
  show "uvm_inv s2 fl pds" "views_same s s2 pds" "kpage s2 p" "p \<notin> pool s2 fl pds"
    "pool s (p # fl) pds = insert p (pool s2 fl pds)" by (rule tk)+
  show "in_page p x \<Longrightarrow> mem s2 x = 0" using al by (simp add: s2 memset_page)
qed

lemma cut_dealloc:
  assumes inv: "uvm_inv s fl pds" and pd: "pd \<in> pds" and hi: "hi < KERNBASE" "lo < hi"
  obtains t fl' where "deallocuvm pd hi lo s = Some (lo, t)" and "uvm_inv t fl' pds" and "others_same s t pds pd"
    and "pool t fl' pds = pool s fl pds" and "cut s t pd (PGROUNDUP lo) hi"
proof -
  obtain t fl' where t: "deallocuvm pd hi lo s = Some (if lo \<ge> hi then hi else lo, t)" "uvm_inv t fl' pds" "shrunk s t fl fl' pds pd"
    and l: "\<And>va. lookup (mem t) pd va = (if lo < hi \<and> PGROUNDUP lo \<le> PGROUNDDOWN va \<and> PGROUNDDOWN va < hi \<and>
      present (lookup (mem s) pd va) then 0 else lookup (mem s) pd va)"
    by (rule deallocuvm_spec [OF inv pd, of hi lo]) (use hi in auto)
  note sr = shrunk_result [OF t(2,3) pd]
  have "cut s t pd (PGROUNDUP lo) hi"
    unfolding cut_def using l sr(3) hi(2) by (auto simp: page_in_def)
  moreover have "deallocuvm pd hi lo s = Some (lo, t)" using t(1) hi(2) by (simp add: linorder_not_le [symmetric])
  ultimately show ?thesis using that t(2) sr(1,2) by blast
qed

lemma cut_views:
  assumes "views_same s t pds" and "pd \<in> pds"
  shows "cut t u pd lo hi \<Longrightarrow> cut s u pd lo hi" and "cut u s pd lo hi \<Longrightarrow> cut u t pd lo hi"
  using views_sameD(2,4) [OF assms(1,2)] by (auto simp: cut_def split: if_splits)

lemma cut_alloc_fail:
  assumes inv: "uvm_inv s (p # fl) pds" and pd: "pd \<in> pds" and hi: "hi < KERNBASE" "lo < hi"
    and s2: "s2 = s\<lparr>freelist := load32 (mem s) p, mem := memset (mem s) p 0 PGSIZE\<rparr>"
  obtains t1 t fl' where "deallocuvm pd hi lo s2 = Some (lo, t1)" and "kfree p t1 = Some t" and "uvm_inv t fl' pds"
    and "others_same s t pds pd" and "pool t fl' pds = pool s (p # fl) pds" and "cut s t pd (PGROUNDUP lo) hi"
proof -
  note z = alloc_zeroed [OF inv s2]
  obtain t1 fl1 where t1: "deallocuvm pd hi lo s2 = Some (lo, t1)" "uvm_inv t1 fl1 pds" "others_same s2 t1 pds pd"
      "pool t1 fl1 pds = pool s2 fl pds" "cut s2 t1 pd (PGROUNDUP lo) hi"
    by (rule cut_dealloc [OF z(1) pd hi])
  have "only_vm s2 t1" using t1(3) by (simp add: others_same_def)
  then have "kpage t1 p" using z(3) kpage_cong [OF only_vmD(1)] by blast
  then obtain t where t: "kfree p t1 = Some t" "uvm_inv t (p # fl1) pds" "views_same t1 t pds"
      "pool t (p # fl1) pds = insert p (pool t1 fl1 pds)"
    using uvm_kfree [OF t1(2), of p] z(4) t1(4) by blast
  have "others_same s t pds pd"
    by (rule others_same_trans [OF views_same_others [OF z(2)] others_same_trans [OF t1(3) views_same_others [OF t(3)]]])
  moreover have "cut s t pd (PGROUNDUP lo) hi"
    using cut_views(1) [OF z(2) pd] cut_views(2) [OF t(3) pd] t1(5) by blast
  ultimately show ?thesis using that t1(1,4) t(1,2,4) z(5) by metis
qed

text \<open>A page mapped at \<open>a\<close>, then the pages after it.\<close>

lemma grew_step:
  assumes "page_aligned a" "a < KERNBASE" "a < hi"
    and "\<And>va. lookup (mem s3) pd va = (if PGROUNDDOWN va = a then e else lookup (mem s) pd va)"
    and "\<And>va. uview s3 pd va = (if PGROUNDDOWN va = a then Some 0 else uview s pd va)"
    and "e = V2P (frame e) OR (PTE_W OR PTE_U) OR PTE_P"
    and "grew s3 t pd (a + PGSIZE) hi"
  shows "grew s t pd a hi"
  unfolding grew_def
proof
  fix va
  note nx = next_page(3) [OF assms(1,2) page_aligned_PGROUNDDOWN, of va]
  have "\<not> (a + PGSIZE \<le> PGROUNDDOWN va)" if "PGROUNDDOWN va = a"
    using next_page(1) [OF assms(1,2)] that by (simp add: word_le_nat_alt)
  then show "if page_in a hi va then uview t pd va = Some 0 \<and>
       lookup (mem t) pd va = V2P (frame (lookup (mem t) pd va)) OR (PTE_W OR PTE_U) OR PTE_P
     else lookup (mem t) pd va = lookup (mem s) pd va \<and> uview t pd va = uview s pd va"
    using assms(3-7) nx by (cases "PGROUNDDOWN va = a") (auto simp: grew_def page_in_def split: if_splits)
qed

lemma cut_step:
  assumes "page_aligned a" "a < hi" "lo \<le> a"
    and "\<And>va. lookup (mem s3) pd va = (if PGROUNDDOWN va = a then e else lookup (mem s) pd va)"
    and "\<And>va. uview s3 pd va = (if PGROUNDDOWN va = a then x else uview s pd va)"
    and "cut s3 t pd lo hi"
  shows "cut s t pd lo hi"
  using assms by (auto simp: cut_def page_in_def split: if_splits)

lemma alloc_round:
  assumes inv: "uvm_inv s (p # fl) pds" and pd: "pd \<in> pds" and a: "page_aligned a" "a < KERNBASE"
    and np: "\<not> present (lookup (mem s) pd a)"
    and s2: "s2 = s\<lparr>freelist := load32 (mem s) p, mem := memset (mem s) p 0 PGSIZE\<rparr>"
  obtains (fail) "mappages pd a PGSIZE (V2P p) (PTE_W OR PTE_U) s2 = Some (-1, s2)" and "fl = []"
  | (ok) t e fl' where "mappages pd a PGSIZE (V2P p) (PTE_W OR PTE_U) s2 = Some (0, t)"
      and "add_refcount (V2P p) 1 t = Some (ref_upd p 1 t)" and "uvm_inv (ref_upd p 1 t) fl' pds"
      and "others_same s (ref_upd p 1 t) pds pd" and "pool (ref_upd p 1 t) fl' pds = pool s (p # fl) pds"
      and "\<And>va. lookup (mem t) pd va = (if PGROUNDDOWN va = a then e else lookup (mem s) pd va)"
      and "\<And>va. uview (ref_upd p 1 t) pd va = (if PGROUNDDOWN va = a then Some 0 else uview s pd va)"
      and "e = V2P (frame e) OR (PTE_W OR PTE_U) OR PTE_P"
proof -
  note z = alloc_zeroed [OF inv s2] and vs = views_sameD [OF alloc_zeroed(2) [OF inv s2]]
  let ?f = "PTE_W OR PTE_U" let ?e = "V2P p OR ?f OR PTE_P"
  have np2: "\<not> present (lookup (mem s2) pd a)" using np vs(2) [OF pd] by simp
  have out: "p \<notin> kernel_pages s2 fl pds" "users (lookup (mem s2)) pds p = {}" using z(4) by (auto simp: in_pool)
  then have nu: "p \<notin> user_frames (lookup (mem s2)) q" if "q \<in> pds" for q using that by (auto simp: users_def)
  have f: "?f < 4096" by simp
  have ro: "\<not> writable (lookup (mem s2) q va)" if "q \<in> pds" "umap (lookup (mem s2)) q va" "frame (lookup (mem s2) q va) = p" for q va
    using nu [OF that(1)] that(2,3) by (auto simp: user_frames_def)
  note ue = user_entry [OF uvm_invD(3) [OF z(1)] z(3) f]
  show ?thesis
  proof (rule uvm_map_page [OF z(1) pd a np2 z(3) out(1) f nu [OF pd]])
    assume "mappages pd a PGSIZE (V2P p) ?f s2 = Some (-1, s2)" "fl = []"
    then show ?thesis by (rule fail)
  next
    fix t used fl'
    assume t: "mappages pd a PGSIZE (V2P p) ?f s2 = Some (0, t)" "fl = used @ fl'" "pt_inv t fl' pds" "grown s2 t pds pd used"
      and l: "\<And>q vb. q \<in> pds \<Longrightarrow> lookup (mem t) q vb = upd_entry (lookup (mem s2)) pd a ?e q vb"
      and c: "cow_ok (kpage s2) (kernel_pages s2 fl pds) (upd_entry (lookup (mem s2)) pd a ?e) ((refs s2)(p := refs s2 p + 1)) pds"
    note cnt = uvm_count [OF z(1) pd z(3) t(2-4) l c]
    note mr = mapped_result [OF z(1) pd a np2 z(3) ue(1,2) t(2,4) l]
    show ?thesis
    proof (rule ok [OF t(1) cnt])
      show "others_same s (ref_upd p 1 t) pds pd" by (rule others_same_trans [OF views_same_others [OF z(2)] mr(1)])
      show "pool (ref_upd p 1 t) fl' pds = pool s (p # fl) pds" by (simp add: mr(2) z(5))
      show "lookup (mem t) pd va = (if PGROUNDDOWN va = a then ?e else lookup (mem s) pd va)" for va
        using l [OF pd] vs(2) [OF pd] by (simp add: upd_entry_apply)
      have "page_aligned p" using z(3) by (simp add: kpage_def)
      then show "uview (ref_upd p 1 t) pd va = (if PGROUNDDOWN va = a then Some 0 else uview s pd va)" for va
        using mr(3) [OF _ out(1), of va] z(6) [of "p + (va AND 0xFFF)"] vs(4) [OF pd] by simp
      show "?e = V2P (frame ?e) OR ?f OR PTE_P" by (simp only: ue(1))
    qed
  qed (use out(2) ro in auto)
qed

lemma allocuvm_loop_spec:
  assumes pd: "pd \<in> pds" and nz: "newsz < KERNBASE" "oldsz < KERNBASE"
    and "uvm_inv s fl pds" and "page_aligned a" and "PGROUNDUP oldsz \<le> a"
    and "\<forall>va. page_in a newsz va \<longrightarrow> \<not> present (lookup (mem s) pd va)"
  shows "\<exists>r t fl'. allocuvm_loop pd oldsz newsz a s = Some (r, t) \<and> uvm_inv t fl' pds \<and> others_same s t pds pd \<and>
           pool t fl' pds = pool s fl pds \<and>
           (r = newsz \<and> grew s t pd a newsz \<or> r = 0 \<and> cut s t pd (PGROUNDUP oldsz) newsz)"
  using assms(4-7)
proof (induction "unat newsz - unat a" arbitrary: s fl a rule: less_induct)
  case less
  note inv = less.prems(1) and al = less.prems(2)
  show ?case
  proof (cases "a < newsz")
    case False
    then have "allocuvm_loop pd oldsz newsz a s = Some (newsz, s)" by (subst allocuvm_loop.simps) simp
    moreover have "grew s s pd a newsz" using False by (auto simp: grew_def page_in_def)
    ultimately show ?thesis using inv by fastforce
  next
    case True
    with nz(1) have kb: "a < KERNBASE" by simp
    have old: "oldsz < newsz" using True less.prems(3) PGROUNDUP_ge [OF nz(2)] by simp
    show ?thesis
    proof (cases fl)
      case Nil
      obtain t fl' where t: "deallocuvm pd newsz oldsz s = Some (oldsz, t)" "uvm_inv t fl' pds" "others_same s t pds pd"
          "pool t fl' pds = pool s fl pds" "cut s t pd (PGROUNDUP oldsz) newsz"
        by (rule cut_dealloc [OF inv pd nz(1) old])
      have "kalloc s = Some (0, s)"
        using kalloc_empty pt_invD(2) [OF uvm_invD(1) [OF inv]] Nil by blast
      then have "allocuvm_loop pd oldsz newsz a s = Some (0, t)"
        using True t(1) by (subst allocuvm_loop.simps) simp
      with t show ?thesis by blast
    next
      case (Cons p fl1)
      note inv' = inv [unfolded Cons]
      define s2 where "s2 = s\<lparr>freelist := load32 (mem s) p, mem := memset (mem s) p 0 PGSIZE\<rparr>"
      have np: "\<not> present (lookup (mem s) pd a)" using less.prems(4) True al by (simp add: page_in_def)
      have step: "allocuvm_loop pd oldsz newsz a s =
          (case mappages pd a PGSIZE (V2P p) (PTE_W OR PTE_U) s2 of None \<Rightarrow> None | Some (r, t) \<Rightarrow>
            if r < 0 then Option.bind (deallocuvm pd newsz oldsz t) (\<lambda>(_, s). Option.bind (kfree p s) (\<lambda>s. Some (0, s)))
            else Option.bind (add_refcount (V2P p) 1 t) (allocuvm_loop pd oldsz newsz (a + PGSIZE)))"
        using True uvm_pop(1) [OF inv'] uvm_fresh(2) [OF inv']
        by (subst allocuvm_loop.simps) (auto simp: s2_def Let_def split: option.splits)
      show ?thesis
      proof (rule alloc_round [OF inv' pd al kb np s2_def])
        assume m: "mappages pd a PGSIZE (V2P p) (PTE_W OR PTE_U) s2 = Some (-1, s2)"
        obtain t1 t fl' where t: "deallocuvm pd newsz oldsz s2 = Some (oldsz, t1)" "kfree p t1 = Some t" "uvm_inv t fl' pds"
            "others_same s t pds pd" "pool t fl' pds = pool s (p # fl1) pds" "cut s t pd (PGROUNDUP oldsz) newsz"
          by (rule cut_alloc_fail [OF inv' pd nz(1) old s2_def])
        then show ?thesis using step m Cons by auto
      next
        fix t e fl'
        assume t: "mappages pd a PGSIZE (V2P p) (PTE_W OR PTE_U) s2 = Some (0, t)"
          "add_refcount (V2P p) 1 t = Some (ref_upd p 1 t)" "uvm_inv (ref_upd p 1 t) fl' pds"
          "others_same s (ref_upd p 1 t) pds pd" "pool (ref_upd p 1 t) fl' pds = pool s (p # fl1) pds"
          and l: "\<And>va. lookup (mem t) pd va = (if PGROUNDDOWN va = a then e else lookup (mem s) pd va)"
          and v: "\<And>va. uview (ref_upd p 1 t) pd va = (if PGROUNDDOWN va = a then Some 0 else uview s pd va)"
          and e: "e = V2P (frame e) OR (PTE_W OR PTE_U) OR PTE_P"
        let ?s3 = "ref_upd p 1 t"
        have l3: "lookup (mem ?s3) pd va = (if PGROUNDDOWN va = a then e else lookup (mem s) pd va)" for va by (simp add: l)
        note nx = next_page [OF al kb]
        have dec: "unat newsz - unat (a + PGSIZE) < unat newsz - unat a" using True nx(1) by (simp add: word_less_nat_alt)
        have lo: "PGROUNDUP oldsz \<le> a + PGSIZE" using less.prems(3) nx(1) by (simp add: word_le_nat_alt)
        have free: "\<forall>va. page_in (a + PGSIZE) newsz va \<longrightarrow> \<not> present (lookup (mem ?s3) pd va)"
          using less.prems(4) nx(1) by (auto simp: l page_in_def word_le_nat_alt)
        from less.hyps [OF dec t(3) nx(2) lo free] obtain r u fl'' where u:
          "allocuvm_loop pd oldsz newsz (a + PGSIZE) ?s3 = Some (r, u)" "uvm_inv u fl'' pds" "others_same ?s3 u pds pd"
          "pool u fl'' pds = pool ?s3 fl' pds"
          "r = newsz \<and> grew ?s3 u pd (a + PGSIZE) newsz \<or> r = 0 \<and> cut ?s3 u pd (PGROUNDUP oldsz) newsz" by blast
        have "r = newsz \<and> grew s u pd a newsz \<or> r = 0 \<and> cut s u pd (PGROUNDUP oldsz) newsz"
          using u(5) grew_step [OF al kb True l3 v e] cut_step [OF al True less.prems(3) l3 v] by blast
        moreover have "allocuvm_loop pd oldsz newsz a s = Some (r, u)" using step t(1,2) u(1) by simp
        ultimately show ?thesis using u(2,4) t(5) Cons others_same_trans [OF t(4) u(3)] by auto
      qed
    qed
  qed
qed

end
