(* ===== verification/Cow.thy ===== *)
theory Cow
  imports Grow
begin

text \<open>
  Copy-on-write: \<open>pagefault\<close> and \<open>copyuvmcow\<close> of \<^verbatim>\<open>vm.c\<close>. A process never sees the effect of
  sharing: forking copies what the parent sees, a page fault on a shared page changes no
  view and makes the page private, and a write through a writable entry changes the view of
  the writing process alone. \<open>user_store\<close> is the store instruction of a user program.
\<close>

section \<open>Changing the flags of an entry\<close>

lemma low12_flag_clear:
  assumes "f < 4096"
  shows "PTE_ADDR (e AND NOT f) = PTE_ADDR e" and "PTE_ADDR (e OR f) = PTE_ADDR e"
proof -
  have m: "f AND mask 12 = f" using assms by (simp add: low12_mask)
  have f: "\<not> bit f n" if "12 \<le> n" for n
  proof -
    have "bit f n = (bit f n \<and> n < 12)" by (subst m [symmetric]) (auto simp: bit_simps)
    with that show ?thesis by simp
  qed
  show "PTE_ADDR (e AND NOT f) = PTE_ADDR e" "PTE_ADDR (e OR f) = PTE_ADDR e"
    unfolding PTE_ADDR_eq by (rule bit_word_eqI; use f in \<open>auto simp: bit_PGROUNDDOWN bit_simps\<close>)+
qed

lemma frame_flags [simp]: "f < 4096 \<Longrightarrow> frame (e AND NOT f) = frame e" "f < 4096 \<Longrightarrow> frame (e OR f) = frame e"
  by (simp_all add: frame_def low12_flag_clear)

lemma and_not_flag: "(e AND NOT f) AND g = (e AND g) AND NOT (f :: u32)"
  by (simp add: and.assoc and.commute and.left_commute)

lemma bit_flags: "bit PTE_P n \<longleftrightarrow> n = 0" "bit PTE_W n \<longleftrightarrow> n = 1" "bit PTE_U n \<longleftrightarrow> n = 2" "bit PTE_COW n \<longleftrightarrow> n = 10"
proof -
  have b: "bit ((2 :: u32) ^ k) n \<longleftrightarrow> n = k" if "k < 32" for k
    using that by (auto simp: bit_exp_iff possible_bit_def)
  show "bit PTE_P n \<longleftrightarrow> n = 0" "bit PTE_W n \<longleftrightarrow> n = 1" "bit PTE_U n \<longleftrightarrow> n = 2" "bit PTE_COW n \<longleftrightarrow> n = 10"
    using b [of 0] b [of 1] b [of 2] b [of 10] by (simp_all add: PTE_defs)
qed

lemma flag_bits:
  "(e AND NOT PTE_W) AND PTE_P = e AND PTE_P" "(e AND NOT PTE_W) AND PTE_U = e AND PTE_U" "(e AND NOT PTE_W) AND PTE_W = 0"
  "(e AND NOT PTE_COW) AND PTE_P = e AND PTE_P" "(e AND NOT PTE_COW) AND PTE_U = e AND PTE_U" "(e AND NOT PTE_COW) AND PTE_W = e AND PTE_W"
  "(e OR PTE_COW) AND PTE_P = e AND PTE_P" "(e OR PTE_COW) AND PTE_U = e AND PTE_U" "(e OR PTE_COW) AND PTE_W = e AND PTE_W"
  "(e OR PTE_W) AND PTE_P = e AND PTE_P" "(e OR PTE_W) AND PTE_U = e AND PTE_U" "(e OR PTE_W) AND PTE_W = PTE_W"
  by (rule bit_word_eqI; auto simp: bit_simps bit_flags)+

lemma set_flags:
  assumes inv: "uvm_inv s fl pds" and pd: "pd \<in> pds" and a: "page_aligned a" "a < KERNBASE"
    and pr: "present (lookup (mem s) pd a)" and e: "present e" "frame e = frame (lookup (mem s) pd a)"
    and ex: "writable e \<Longrightarrow> users (lookup (mem s)) pds (frame e) = {pd}"
    and t: "t = wr (pte_addr (mem s) pd a) e s"
  shows "uvm_inv t fl pds" and "q \<in> pds \<Longrightarrow> lookup (mem t) q vb = upd_entry (lookup (mem s)) pd a e q vb"
    and "q \<in> pds \<Longrightarrow> uview t q = uview s q" and "pool t fl pds = pool s fl pds"
    and "q \<in> pds \<Longrightarrow> pt_pages (mem t) q = pt_pages (mem s) q" and "has_table (mem s) pd (PDX a)"
    and "pte_addr (mem t) pd a = pte_addr (mem s) pd a"
proof -
  note pt = uvm_invD(1) [OF inv] and ok = uvm_invD(2) [OF inv]
  show ht: "has_table (mem s) pd (PDX a)" by (rule present_has_table [OF pr])
  note sp = set_pte [OF pt pd ht, of "mem t" e]
  have m: "mem t = store32 (mem s) (pte_addr (mem s) pd a) e" by (simp add: t)
  show l: "lookup (mem t) q vb = upd_entry (lookup (mem s)) pd a e q vb" if "q \<in> pds" for q vb
    using lookup_set_pte [OF pt pd ht a(1) that] by (simp add: m)
  show pp: "pt_pages (mem t) q = pt_pages (mem s) q" if "q \<in> pds" for q using sp(2) [OF m that] .
  show "pte_addr (mem t) pd a = pte_addr (mem s) pd a" using sp(6) [OF m pd PDX_less] by (simp add: pte_addr_def)
  have us: "users (lookup (mem t)) pds p = users (lookup (mem s)) pds p" for p
    using users_cong [of pds "lookup (mem t)" "upd_entry (lookup (mem s)) pd a e" p] l
      users_flags [OF paged_lookup cow_okD(4) [OF ok] pd a pr e] by simp
  have k: "q \<in> kernel_pages t fl pds \<longleftrightarrow> q \<in> kernel_pages s fl pds" for q
    using pp by (auto simp: in_kernel_pages)
  show "pool t fl pds = pool s fl pds" by (auto simp: pool_def us k)
  have cow: "cow_ok (kpage s) (kernel_pages s fl pds) (upd_entry (lookup (mem s)) pd a e) (refs s) pds"
    by (rule cow_flags [OF ok paged_lookup pd a pr e ex])
  have "pt_inv t fl pds" using sp(1) [OF m] by (simp add: t)
  then show "uvm_inv t fl pds" by (rule uvm_invI [OF _ cow _ l]) (simp_all add: t k [unfolded t])
  show "uview t q = uview s q" if "q \<in> pds" for q
  proof
    fix va
    have se: "same_except (pt_pages (mem s) pd) (mem s) (mem t)" by (rule sp(4) [OF m])
    have W: "pt_pages (mem s) pd \<subseteq> kernel_pages s fl pds" using pd by (auto simp: kernel_pages_def)
    have eq: "umap (lookup (mem t)) q va = umap (lookup (mem s)) q va \<and> frame (lookup (mem t) q va) = frame (lookup (mem s) q va)"
      if "umap (lookup (mem s)) q va \<or> umap (lookup (mem t)) q va"
    proof (cases "q = pd \<and> PGROUNDDOWN va = a")
      case True
      then have "lookup (mem s) q va = lookup (mem s) pd a" using paged_page [OF paged_lookup] by blast
      then show ?thesis using True e pr that l [OF \<open>q \<in> pds\<close>, of va] by (auto simp: umap_def upd_entry_apply)
    next
      case False
      then show ?thesis using l [OF \<open>q \<in> pds\<close>, of va] by (auto simp: umap_def upd_entry_apply)
    qed
    show "uview t q va = uview s q va"
    proof (cases "umap (lookup (mem s)) q va")
      case True
      then have "frame (lookup (mem s) q va) \<notin> pt_pages (mem s) pd"
        using cow_allocD [OF cow_okD(3) [OF ok] \<open>q \<in> pds\<close> True] W by blast
      then have "mem t (frame (lookup (mem s) q va) + (va AND 0xFFF)) = mem s (frame (lookup (mem s) q va) + (va AND 0xFFF))"
        by (rule same_except_page [OF se _ in_page_offset]) simp_all
      then show ?thesis using True eq by (simp add: uview_def)
    next
      case False
      then show ?thesis using eq by (auto simp: uview_def)
    qed
  qed
qed

section \<open>pagefault\<close>

lemma copy_page:
  assumes "KERNBASE \<le> kend s" and "kpage s p" and "kpage s q"
  shows "same_except {p} m (memmove m p q PGSIZE)" and "memmove m p q PGSIZE (p + (va AND 0xFFF)) = m (q + (va AND 0xFFF))"
proof -
  have b: "unat x + unat PGSIZE < 2 ^ 32" if "kpage s x" for x
    using kpage_facts(3) [OF assms(1) that] by (simp add: word_less_nat_alt P2V_def layout_defs)
  have al: "page_aligned p" using assms(2) by (simp add: kpage_def)
  have mm: "memmove m p q PGSIZE a = (if in_page p a then m (q + (a - p)) else m a)" for a
    using memmove_apply [OF b b, OF assms(3,2)] al by (simp add: in_page_iff PGSIZE_def)
  show "same_except {p} m (memmove m p q PGSIZE)" by (auto simp: same_except_def mm in_page_def)
  have "in_page p (p + (va AND 0xFFF))" by (rule in_page_offset [OF al low12_less])
  then show "memmove m p q PGSIZE (p + (va AND 0xFFF)) = m (q + (va AND 0xFFF))" by (simp add: mm)
qed

lemma pte_addr_PGROUNDDOWN [simp]: "pte_addr m pd (PGROUNDDOWN va) = pte_addr m pd va"
  by (simp add: pte_addr_def)

text \<open>A private page whose only flaw is that it is not writable.\<close>

lemma pagefault_private:
  assumes inv: "uvm_inv s fl pds" and pd: "pd \<in> pds" and va: "va < KERNBASE" and e: "e = lookup (mem s) pd va"
    and fl: "present e" "e AND PTE_U \<noteq> 0" "\<not> writable e" and one: "users (lookup (mem s)) pds (frame e) = {pd}"
  obtains t where "pagefault (Some pd) va s = Some (False, lcr3 (V2P pd) t)" and "uvm_inv t fl pds"
    and "pool t fl pds = pool s fl pds" and "\<And>q. q \<in> pds \<Longrightarrow> uview t q = uview s q"
    and "\<And>q vb. q \<in> pds \<Longrightarrow> lookup (mem t) q vb =
           upd_entry (lookup (mem s)) pd (PGROUNDDOWN va) ((e AND NOT PTE_COW) OR PTE_W) q vb"
proof -
  let ?a = "PGROUNDDOWN va" let ?e1 = "e AND NOT PTE_COW" let ?e2 = "?e1 OR PTE_W" let ?pte = "pte_addr (mem s) pd va"
  have a: "page_aligned ?a" "?a < KERNBASE" using va by (simp_all add: PGROUNDDOWN_user)
  have le: "lookup (mem s) pd ?a = e" by (simp add: e)
  define s1 where "s1 = wr ?pte ?e1 s"
  note f1 = set_flags [OF inv pd a, of ?e1 s1, unfolded le]
  have h1: "present e" "present ?e1" "frame ?e1 = frame e" "\<not> writable ?e1"
    using fl by (simp_all add: flag_bits)
  have s1: "uvm_inv s1 fl pds" "\<And>q vb. q \<in> pds \<Longrightarrow> lookup (mem s1) q vb = upd_entry (lookup (mem s)) pd ?a ?e1 q vb"
    "\<And>q. q \<in> pds \<Longrightarrow> uview s1 q = uview s q" "pool s1 fl pds = pool s fl pds" "has_table (mem s) pd (PDX va)"
    "pte_addr (mem s1) pd va = ?pte"
    using f1 h1 by (simp_all add: s1_def)
  define t where "t = wr ?pte ?e2 s1"
  have le1: "lookup (mem s1) pd ?a = ?e1" using s1(2) [OF pd] by (simp add: upd_entry_apply)
  have us: "users (lookup (mem s1)) pds (frame e) = {pd}"
  proof -
    have "users (upd_entry (lookup (mem s)) pd ?a ?e1) pds (frame e) = users (lookup (mem s)) pds (frame e)"
      by (rule users_flags [OF paged_lookup cow_okD(4) [OF uvm_invD(2) [OF inv]] pd a]) (use h1 le in simp_all)
    moreover have "users (lookup (mem s1)) pds (frame e) = users (upd_entry (lookup (mem s)) pd ?a ?e1) pds (frame e)"
      by (rule users_cong) (simp add: s1(2))
    ultimately show ?thesis using one by simp
  qed
  have h2: "present ?e2" "frame ?e2 = frame e" using h1 by (simp_all add: flag_bits)
  note f2 = set_flags [OF s1(1) pd a, of ?e2 t, unfolded le1]
  have t: "uvm_inv t fl pds" "\<And>q vb. q \<in> pds \<Longrightarrow> lookup (mem t) q vb = upd_entry (lookup (mem s1)) pd ?a ?e2 q vb"
    "\<And>q. q \<in> pds \<Longrightarrow> uview t q = uview s1 q" "pool t fl pds = pool s1 fl pds"
    using f2 h1 h2 us s1(6) by (simp_all add: t_def)
  show ?thesis
  proof (rule that [OF _ t(1)])
    have kp: "kpage s (frame e)"
      using cow_allocD [OF cow_okD(3) [OF uvm_invD(2) [OF inv]] pd] va fl(1) e by (auto simp: umap_def)
    have "refs s (frame e) = 1"
      using cow_refsD [OF cow_okD(5) [OF uvm_invD(2) [OF inv]] kp] one by simp
    then have "refcount (PTE_ADDR e) s = Some 1"
      using refcount_kpage(1) [OF uvm_invD(3) [OF inv] kp] by (simp add: V2P_frame)
    moreover have "rd s ?pte = e" "rd s1 ?pte = ?e1"
      using lookup_pte_addr [OF s1(5)] e by (simp_all add: s1_def load32_store32_same)
    moreover have "?pte \<noteq> 0" by (rule pte_addr_nonzero [OF uvm_invD(1) [OF inv] pd s1(5)])
    ultimately show "pagefault (Some pd) va s = Some (False, lcr3 (V2P pd) t)"
      using walk_hit [OF s1(5)] va fl by (simp add: pagefault_def t_def s1_def Let_def)
    show "lookup (mem t) q vb = upd_entry (lookup (mem s)) pd ?a ?e2 q vb" if "q \<in> pds" for q vb
      using t(2) [OF that, of vb] s1(2) [OF that, of vb] by (simp add: upd_entry_apply)
  qed (use s1(3,4) t(3,4) in simp_all)
qed

text \<open>An entry is redirected from a shared page \<open>f\<close> to the fresh page \<open>p\<close>.\<close>

lemma remap_page:
  assumes inv: "uvm_inv s fl pds" and pd: "pd \<in> pds" and a: "page_aligned a" "a < KERNBASE"
    and pr: "present (lookup (mem s) pd a)" and f: "f = frame (lookup (mem s) pd a)"
    and many: "users (lookup (mem s)) pds f \<noteq> {pd}" and p: "kpage s p" "p \<notin> pool s fl pds"
    and e: "frame e = p" "present e"
    and t: "t = wr (pte_addr (mem s) pd a) e (ref_upd p 1 (ref_upd f (-1) s))"
  shows "uvm_inv t fl pds" and "pool t fl pds = insert p (pool s fl pds)"
    and "q \<in> pds \<Longrightarrow> lookup (mem t) q vb = upd_entry (lookup (mem s)) pd a e q vb"
    and "users (lookup (mem t)) pds p = {pd}"
    and "q \<in> pds \<Longrightarrow> uview t q vb =
           (if q = pd \<and> PGROUNDDOWN vb = a then Some (mem s (p + (vb AND 0xFFF))) else uview s q vb)"
proof -
  let ?L = "lookup (mem s)" let ?L' = "upd_entry ?L pd a e" let ?s1 = "ref_upd p 1 (ref_upd f (-1) s)"
  note pt = uvm_invD(1) [OF inv] and ok = uvm_invD(2) [OF inv] and ke = uvm_invD(3) [OF inv]
  have m: "umap ?L pd a" using pr a(2) by (simp add: umap_def)
  have kf: "kpage s f" "f \<notin> kernel_pages s fl pds" using cow_allocD [OF cow_okD(3) [OF ok] pd m] f by auto
  have out: "p \<notin> kernel_pages s fl pds" "users ?L pds p = {}" using p(2) by (auto simp: in_pool)
  have pf: "p \<noteq> f" using users_in [OF pd m] f out(2) by auto
  have ht: "has_table (mem s) pd (PDX a)" by (rule present_has_table [OF pr])
  have mt: "mem t = store32 (mem s) (pte_addr (mem s) pd a) e" by (simp add: t)
  note sp = set_pte [OF pt pd ht mt]
  show l: "lookup (mem t) q vb = ?L' q vb" if "q \<in> pds" for q vb
    using lookup_set_pte [OF pt pd ht a(1) that] by (simp add: mt)
  let ?M = "upd_entry ?L pd a 0"
  have c0: "cow_ok (kpage s) (kernel_pages s fl pds) ?M ((refs s)(f := refs s f - 1)) pds"
    by (rule cow_unmap [OF ok paged_lookup pd a pr]) (simp_all add: f)
  have u0: "users ?M pds x = (if x = f then users ?L pds x - {pd} else users ?L pds x)" for x
    using users_unmap [OF paged_lookup cow_okD(4) [OF ok] pd a pr, of 0 x] f by simp
  have np: "\<not> present (?M pd a)" using a(1) by (simp add: upd_entry_apply)
  have up: "users ?M pds p = {}" using u0 pf out(2) by simp
  then have nu: "p \<notin> user_frames ?M q" if "q \<in> pds" for q using that by (auto simp: users_def)
  have u1: "users ?L' pds x = (if x = p then {pd} else users ?M pds x)" for x
    using users_map [OF paged_upd [OF paged_lookup] pd a np e(2), of x] up e(1) by (auto simp: upd_entry_upd)
  have "cow_ok (kpage s) (kernel_pages s fl pds) (upd_entry ?M pd a e) ((refs s)(f := refs s f - 1, p := refs s p + 1)) pds"
  proof (rule cow_map [OF c0 paged_upd [OF paged_lookup] pd a np e(2)])
    show "\<not> writable (?M q va)" if "q \<in> pds" "umap ?M q va" "frame (?M q va) = frame e" for q va
      using nu [OF that(1)] that(2,3) e(1) by (auto simp: user_frames_def)
    show "(refs s)(f := refs s f - 1, p := refs s p + 1) = ((refs s)(f := refs s f - 1))(frame e := ((refs s)(f := refs s f - 1)) (frame e) + 1)"
      using pf e(1) by simp
    show "kpage s (frame e)" "frame e \<notin> kernel_pages s fl pds" "frame e \<notin> user_frames ?M pd" "users ?M pds (frame e) = {}"
      using p(1) out(1) nu [OF pd] up e(1) by simp_all
  qed
  then have cow: "cow_ok (kpage s) (kernel_pages s fl pds) ?L' ((refs s)(f := refs s f - 1, p := refs s p + 1)) pds"
    by (simp only: upd_entry_upd)
  have r: "refs t x = ((refs s)(f := refs s f - 1, p := refs s p + 1)) x" if "kpage s x" for x
  proof -
    have kp1: "kpage (ref_upd f (-1) s) y \<longleftrightarrow> kpage s y" for y by (simp add: kpage_def)
    have "refs t x = refs ?s1 x" by (simp add: t)
    then show ?thesis
      using refs_ref_upd [of "ref_upd f (-1) s" p x 1] refs_ref_upd [OF ke kf(1), of _ "-1"] ke p(1) that pf
      by (simp add: kp1)
  qed
  have k: "x \<in> kernel_pages t fl pds \<longleftrightarrow> x \<in> kernel_pages s fl pds" for x
    using sp(2) by (auto simp: in_kernel_pages)
  have pts: "pt_inv t fl pds"
  proof (rule pt_inv_frame [OF sp(1), of "{}"])
    show "kmem_inv t fl" by (rule kmem_inv_frame [OF pt_invD(2) [OF sp(1)], of "{}"]) (simp_all add: t)
  qed (use pt_invD(4) [OF sp(1)] in \<open>simp_all add: t\<close>)
  have kt: "kend t = kend s" by (simp add: t)
  show "uvm_inv t fl pds" by (rule uvm_invI [OF pts cow kt l r]) (simp_all add: k)
  have us: "users (lookup (mem t)) pds x = users ?L' pds x" for x by (rule users_cong) (simp add: l)
  show "users (lookup (mem t)) pds p = {pd}" by (simp add: us u1)
  have many': "users ?L pds f - {pd} \<noteq> {}" using many users_in [OF pd m] f by auto
  have "users ?L' pds x \<noteq> {} \<longleftrightarrow> x = p \<or> users ?L pds x \<noteq> {}" for x
    using u1 [of x] u0 [of x] many' by (cases "x = p"; cases "x = f") auto
  then show "pool t fl pds = insert p (pool s fl pds)" by (auto simp: pool_def us k)
  show "uview t q vb = (if q = pd \<and> PGROUNDDOWN vb = a then Some (mem s (p + (vb AND 0xFFF))) else uview s q vb)"
    if q: "q \<in> pds" for q vb
  proof (cases "q = pd \<and> PGROUNDDOWN vb = a")
    case True
    then have "vb < KERNBASE" using a(2) PGROUNDDOWN_user [of vb] by simp
    moreover have "mem t (p + (vb AND 0xFFF)) = mem s (p + (vb AND 0xFFF))"
      by (rule same_except_page [OF sp(4) _ in_page_offset]) (use out(1) pd p(1) in \<open>auto simp: in_kernel_pages kpage_def\<close>)
    ultimately show ?thesis using True l [OF pd] e by (simp add: uview_def umap_def upd_entry_apply)
  next
    case False
    have "uview t q vb = uview s q vb"
      by (rule uview_kernel_write [OF inv q _ sp(4)]) (use False pd l [OF q] in \<open>auto simp: kernel_pages_def upd_entry_apply\<close>)
    with False show ?thesis by auto
  qed
qed

text \<open>A shared page is copied to a fresh one.\<close>

lemma pagefault_shared:
  assumes inv: "uvm_inv s (p # fl) pds" and pd: "pd \<in> pds" and va: "va < KERNBASE" and e: "e = lookup (mem s) pd va"
    and fl: "present e" "e AND PTE_U \<noteq> 0" "\<not> writable e" and many: "users (lookup (mem s)) pds (frame e) \<noteq> {pd}"
  obtains t e' where "pagefault (Some pd) va s = Some (False, lcr3 (V2P pd) t)" and "uvm_inv t fl pds"
    and "pool t fl pds = pool s (p # fl) pds" and "\<And>q. q \<in> pds \<Longrightarrow> uview t q = uview s q"
    and "\<And>q vb. q \<in> pds \<Longrightarrow> lookup (mem t) q vb = upd_entry (lookup (mem s)) pd (PGROUNDDOWN va) e' q vb"
    and "e' = V2P p OR PTE_P OR PTE_W OR PTE_U" and "users (lookup (mem t)) pds p = {pd}"
proof -
  let ?a = "PGROUNDDOWN va" let ?pte = "pte_addr (mem s) pd va" let ?f = "frame e" let ?L = "lookup (mem s)"
  let ?e' = "V2P p OR PTE_P OR PTE_W OR PTE_U"
  note pt = uvm_invD(1) [OF inv] and ok = uvm_invD(2) [OF inv] and ke = uvm_invD(3) [OF inv]
  have a: "page_aligned ?a" "?a < KERNBASE" using va by (simp_all add: PGROUNDDOWN_user)
  have m: "umap ?L pd va" using va fl(1) e by (simp add: umap_def)
  have kf: "kpage s ?f" "?f \<notin> kernel_pages s (p # fl) pds" using cow_allocD [OF cow_okD(3) [OF ok] pd m] e by auto
  have ht: "has_table (mem s) pd (PDX va)" using present_has_table fl(1) e by blast
  note fr = uvm_fresh [OF inv]
  note cp = copy_page [OF ke fr(1) kf(1), of "mem s"]
  define s1 where "s1 = s\<lparr>freelist := load32 (mem s) p, mem := memmove (mem s) p ?f PGSIZE\<rparr>"
  note tk = uvm_take [OF inv cp(1) s1_def]
  note vs = views_sameD [OF tk(3)]
  note pt1 = uvm_invD(1) [OF tk(2)] and ok1 = uvm_invD(2) [OF tk(2)]
  have kend1: "kend s1 = kend s" by (simp add: s1_def)
  have out: "p \<notin> kernel_pages s1 fl pds" "users (lookup (mem s1)) pds p = {}" using tk(5) by (auto simp: in_pool)
  have le1: "lookup (mem s1) pd ?a = e" using vs(2) [OF pd] e by simp
  have dis: "pt_pages (mem s) pd \<inter> {p} = {}" using fr(4) [OF pd] by simp
  have se1: "same_except {p} (mem s) (mem s1)" using cp(1) by (simp add: s1_def)
  have pte: "pte_addr (mem s1) pd va = ?pte"
    using pt_cong(2) [OF pt_invD(3) [OF pt pd] se1 dis PDX_less] by (simp add: pte_addr_def)
  define t where "t = wr ?pte ?e' (ref_upd p 1 (ref_upd ?f (-1) s1))"
  have fw: "PTE_P OR PTE_W OR PTE_U < 4096" by simp
  have ef: "frame ?e' = p" "present ?e'"
    using entry_addr_flags(1) [OF ke fr(1) fw] entry_addr_flags(2) [OF ke fr(1) fw, of PTE_P]
    by (simp_all add: frame_def PTE_defs)
  note rm = remap_page [OF tk(2) pd a, unfolded le1, OF fl(1) refl _ tk(4,5) ef, of t]
  have t: "uvm_inv t fl pds" "pool t fl pds = insert p (pool s1 fl pds)"
    "\<And>q vb. q \<in> pds \<Longrightarrow> lookup (mem t) q vb = upd_entry (lookup (mem s1)) pd ?a ?e' q vb"
    "users (lookup (mem t)) pds p = {pd}"
    "\<And>q vb. q \<in> pds \<Longrightarrow> uview t q vb = (if q = pd \<and> PGROUNDDOWN vb = ?a then Some (mem s1 (p + (vb AND 0xFFF))) else uview s1 q vb)"
    using rm many vs(5) by (simp_all add: t_def pte)
  show ?thesis
  proof (rule that [OF _ t(1)])
    have uc: "sint (refs s ?f) = int (card (users ?L pds ?f))" by (rule refs_value(1) [OF ok kf(1)])
    have "pd \<in> users ?L pds ?f" using users_in [OF pd m] e by simp
    then have "card (users ?L pds ?f) \<noteq> 0 \<and> card (users ?L pds ?f) \<noteq> 1"
      using many users_finite [OF cow_okD(1) [OF ok]] by (auto simp: card_1_singleton_iff)
    then have "1 < card (users ?L pds ?f)" by arith
    then have c: "refs s ?f \<noteq> 1" "sint (refs s ?f) > 1" using uc by auto
    have k1: "KERNBASE \<le> kend s1" "kpage s1 ?f" "kpage (ref_upd ?f (-1) s1) p" "KERNBASE \<le> kend (ref_upd ?f (-1) s1)"
      using ke kend1 kf(1) fr(1) by (simp_all add: kpage_def)
    have rc: "refcount (PTE_ADDR e) s = Some (refs s ?f)" "P2V (PTE_ADDR e) = ?f"
      "add_refcount (PTE_ADDR e) (-1) s1 = Some (ref_upd ?f (-1) s1)"
      "add_refcount (V2P p) 1 (ref_upd ?f (-1) s1) = Some (ref_upd p 1 (ref_upd ?f (-1) s1))"
      using refcount_kpage(1) [OF ke kf(1)] refcount_kpage(2) [OF k1(1,2)] refcount_kpage(2) [OF k1(4,3)]
      by (simp_all add: V2P_frame) (simp add: frame_def)
    moreover have "rd s ?pte = e" using lookup_pte_addr [OF ht] e by simp
    moreover have "?pte \<noteq> 0" by (rule pte_addr_nonzero [OF pt pd ht])
    ultimately show "pagefault (Some pd) va s = Some (False, lcr3 (V2P pd) t)"
      using walk_hit [OF ht] va fl c tk(1) fr(2) by (simp add: pagefault_def t_def s1_def Let_def)
    show "pool t fl pds = pool s (p # fl) pds" by (simp add: t(2) tk(6))
    show "lookup (mem t) q vb = upd_entry ?L pd ?a ?e' q vb" if "q \<in> pds" for q vb
      using t(3) [OF that, of vb] vs(2) [OF that] by (simp add: upd_entry_apply)
    show "uview t q = uview s q" if "q \<in> pds" for q
    proof
      fix vb
      show "uview t q vb = uview s q vb"
      proof (cases "q = pd \<and> PGROUNDDOWN vb = ?a")
        case True
        then have "lookup (mem s) pd vb = e" "vb < KERNBASE" using PGROUNDDOWN_user [of vb] PGROUNDDOWN_user [of va] va e
          by (metis lookup_PGROUNDDOWN, metis)
        then have "uview s pd vb = Some (mem s (?f + (vb AND 0xFFF)))" using fl(1) by (simp add: uview_def umap_def)
        then show ?thesis using t(5) [OF that, of vb] True cp(2) [of vb] by (simp add: s1_def)
      next
        case False
        then show ?thesis using t(5) [OF that, of vb] vs(4) [OF that] by auto
      qed
    qed
  qed (rule refl t(4))+
qed

section \<open>The store instruction of a user program\<close>

text \<open>A store goes through when the entry is present, writable and a user entry; otherwise the
  processor raises a page fault.\<close>

definition user_store :: "u32 \<Rightarrow> u32 \<Rightarrow> u8 \<Rightarrow> 'z vm_scheme \<Rightarrow> 'z vm_scheme option" where
  "user_store pd va b s =
     (let e = lookup (mem s) pd va in
      if va < KERNBASE \<and> present e \<and> writable e \<and> e AND PTE_U \<noteq> 0
      then Some (s\<lparr>mem := (mem s)(frame e + (va AND 0xFFF) := b)\<rparr>) else None)"

lemma page_byte_eq: "PGROUNDDOWN a = PGROUNDDOWN b \<Longrightarrow> a AND 0xFFF = b AND 0xFFF \<Longrightarrow> a = b"
  using page_split [of a] page_split [of b] by metis

lemma user_store_isolated:
  assumes inv: "uvm_inv s fl pds" and pd: "pd \<in> pds" and st: "user_store pd va b s = Some t"
  shows "uvm_inv t fl pds" and "uview t pd va = Some b"
    and "q \<in> pds \<Longrightarrow> q \<noteq> pd \<or> vb \<noteq> va \<Longrightarrow> uview t q vb = uview s q vb"
proof -
  let ?L = "lookup (mem s)" let ?e = "?L pd va" let ?x = "frame ?e + (va AND 0xFFF)"
  note ok = uvm_invD(2) [OF inv]
  have c: "va < KERNBASE" "present ?e" "writable ?e" and t: "t = s\<lparr>mem := (mem s)(?x := b)\<rparr>"
    using st by (auto simp: user_store_def Let_def split: if_splits)
  have m: "umap ?L pd va" using c by (simp add: umap_def)
  have kf: "kpage s (frame ?e)" "frame ?e \<notin> kernel_pages s fl pds" using cow_allocD [OF cow_okD(3) [OF ok] pd m] by auto
  have px: "PGROUNDDOWN (f + (v AND 0xFFF)) = f" if "page_aligned f" for f v
    using that by (rule PGROUNDDOWN_offset) simp
  have se: "same_except {frame ?e} (mem s) ((mem s)(?x := b))" using px by (auto simp: same_except_def)
  note w = uvm_write [OF inv kf(2) se]
  show "uvm_inv t fl pds" using w(1) by (simp add: t)
  have l: "lookup (mem t) q = ?L q" if "q \<in> pds" for q using w(2) [OF that] by (simp add: t)
  show "uview t pd va = Some b" using l [OF pd] m by (simp add: uview_def umap_def t)
  assume q: "q \<in> pds" and ne: "q \<noteq> pd \<or> vb \<noteq> va"
  show "uview t q vb = uview s q vb"
  proof (cases "umap ?L q vb")
    case True
    have "frame (?L q vb) + (vb AND 0xFFF) \<noteq> ?x"
    proof
      assume eq: "frame (?L q vb) + (vb AND 0xFFF) = ?x"
      then have f: "frame (?L q vb) = frame ?e" using px [of "frame (?L q vb)" vb] px [of "frame ?e" va] by simp
      then have off: "vb AND 0xFFF = va AND 0xFFF" using eq by simp
      have "q \<in> users ?L pds (frame ?e)" using users_in [OF q True] f by simp
      then have "q = pd" using cow_exclD [OF cow_okD(6) [OF ok] pd m c(3)] by simp
      with True m f have "PGROUNDDOWN vb = PGROUNDDOWN va" by (intro cow_injD [OF cow_okD(4) [OF ok] pd]) simp_all
      then have "vb = va" using off by (rule page_byte_eq)
      with ne \<open>q = pd\<close> show False by simp
    qed
    then show ?thesis using True l [OF q] by (simp add: uview_def umap_def t)
  qed (use l [OF q] in \<open>simp add: uview_def umap_def t\<close>)
qed

end
