(* ===== verification/ForkCow.thy ===== *)
theory ForkCow
  imports Cow
begin

text \<open>
  \<open>copyuvmcow\<close>: the child of \<open>forkcow\<close> sees exactly the memory of its parent, the parent and all
  other processes see what they saw before, every page that the two share is read-only in both, and
  when memory runs out nothing is left behind.
\<close>

section \<open>One page\<close>

text \<open>Two entries that agree on the page they map and on whom they map it for.\<close>

definition alike :: "u32 \<Rightarrow> u32 \<Rightarrow> bool" where
  "alike e e' \<longleftrightarrow> frame e' = frame e \<and> (present e' \<longleftrightarrow> present e) \<and> e' AND PTE_U = e AND PTE_U"

lemma alike_refl [simp]: "alike e e" and alike_trans: "alike e e' \<Longrightarrow> alike e' e'' \<Longrightarrow> alike e e''"
  by (simp_all add: alike_def)

lemma share_frame:
  assumes inv: "uvm_inv s fl pds" and q: "pd \<in> pds" "q \<in> pds" and m: "umap (lookup (mem s)) pd a" "umap (lookup (mem s)) q va"
    and a: "page_aligned a" and w: "\<not> writable (lookup (mem s) pd a)" and f: "frame (lookup (mem s) q va) = frame (lookup (mem s) pd a)"
  shows "\<not> writable (lookup (mem s) q va)"
proof
  note ok = uvm_invD(2) [OF inv]
  assume wr: "writable (lookup (mem s) q va)"
  have "users (lookup (mem s)) pds (frame (lookup (mem s) pd a)) = {q}"
    using cow_exclD [OF cow_okD(6) [OF ok] q(2) m(2) wr] f by simp
  then have "q = pd" using users_in [OF q(1) m(1)] by simp
  with f m have "PGROUNDDOWN va = PGROUNDDOWN a" by (intro cow_injD [OF cow_okD(4) [OF ok] q(1)]) simp_all
  with a have "lookup (mem s) q va = lookup (mem s) pd a"
    using lookup_PGROUNDDOWN [of "mem s" q va] \<open>q = pd\<close> by simp
  with wr w show False by simp
qed

lemma grown_pte_addr:
  assumes inv: "uvm_inv s fl pds" and q: "q \<in> pds" "d \<in> pds" "q \<noteq> d" and u: "fl = used @ fl'" and g: "grown s t pds d used"
  shows "pte_addr (mem t) q va = pte_addr (mem s) q va" and "has_table (mem t) q (PDX va) = has_table (mem s) q (PDX va)"
proof -
  note pt = uvm_invD(1) [OF inv]
  have se: "same_except (set used \<union> pt_pages (mem s) d) (mem s) (mem t)" using g by (simp add: grown_def)
  have "pt_pages (mem s) q \<inter> (set used \<union> pt_pages (mem s) d) = {}"
    using pt_invD(4) [OF pt q(1)] pt_invD(5) [OF pt q(1,2,3)] u by auto
  note c = pt_cong [OF pt_invD(3) [OF pt q(1)] se this]
  show "pte_addr (mem t) q va = pte_addr (mem s) q va" by (simp add: pte_addr_def c(2))
  show "has_table (mem t) q (PDX va) = has_table (mem s) q (PDX va)" by (simp add: c(1))
qed

lemma copyuvmcow_step:
  assumes ht: "has_table (mem s) pd (PDX a)" and a: "a < sz" and pte: "pte = pte_addr (mem s) pd a" "pte \<noteq> 0"
    and e: "e = lookup (mem s) pd a" "present e" and s1: "s1 = wr pte (e AND NOT PTE_W) s"
  shows "copyuvmcow_loop pd d sz a s =
    (case mappages d a PGSIZE (PTE_ADDR e) (PTE_FLAGS (e AND NOT PTE_W)) s1 of None \<Rightarrow> None | Some (r, t) \<Rightarrow>
       if r < 0 then Some (False, t)
       else Option.bind (add_refcount (PTE_ADDR e) 1 (wr pte (rd t pte OR PTE_COW) t)) (copyuvmcow_loop pd d sz (a + PGSIZE)))"
proof -
  have r: "rd s pte = e" "rd s1 pte = e AND NOT PTE_W"
    using lookup_pte_addr [OF ht] e pte by (simp_all add: s1 load32_store32_same)
  have pa: "PTE_ADDR (e AND NOT PTE_W) = PTE_ADDR e" by (rule low12_flag_clear(1)) (simp add: PTE_defs)
  show ?thesis
    using a walk_hit [OF ht] pte r e(2) s1 pa
    by (subst copyuvmcow_loop.simps) (auto simp: Let_def load32_store32_same split: option.splits)
qed

lemma set_ro_flags:
  assumes inv: "uvm_inv s fl pds" and pd: "pd \<in> pds" and a: "page_aligned a" "a < KERNBASE"
    and pr: "present (lookup (mem s) pd a)" and e: "present e" "frame e = frame (lookup (mem s) pd a)" "\<not> writable e"
    and t: "t = wr (pte_addr (mem s) pd a) e s"
  shows "uvm_inv t fl pds" and "q \<in> pds \<Longrightarrow> lookup (mem t) q vb = upd_entry (lookup (mem s)) pd a e q vb"
    and "q \<in> pds \<Longrightarrow> uview t q = uview s q" and "pool t fl pds = pool s fl pds"
    and "has_table (mem s) pd (PDX a)" and "pte_addr (mem t) pd a = pte_addr (mem s) pd a"
  using set_flags [OF inv pd a pr e(1,2) _ t] e(3) by blast+

text \<open>The entry of the parent loses its write permission; the child gets the same entry.\<close>

lemma copyuvmcow_round:
  assumes inv: "uvm_inv s fl pds" and pd: "pd \<in> pds" "d \<in> pds" "d \<noteq> pd" and a: "page_aligned a" "a < KERNBASE" "a < sz"
    and pr: "present (lookup (mem s) pd a)" and np: "\<not> present (lookup (mem s) d a)"
    and nf: "frame (lookup (mem s) pd a) \<notin> user_frames (lookup (mem s)) d"
  obtains (fail) t where "copyuvmcow_loop pd d sz a s = Some (False, t)" and "uvm_inv t fl pds"
      and "pool t fl pds = pool s fl pds" and "\<And>q. q \<in> pds \<Longrightarrow> uview t q = uview s q" and "only_vm s t"
  | (ok) t fl' pe ce where "copyuvmcow_loop pd d sz a s = copyuvmcow_loop pd d sz (a + PGSIZE) t"
      and "uvm_inv t fl' pds" and "pool t fl' pds = pool s fl pds" and "only_vm s t"
      and "\<And>q. q \<in> pds \<Longrightarrow> q \<noteq> d \<Longrightarrow> uview t q = uview s q"
      and "\<And>va. uview t d va = (if PGROUNDDOWN va = a then uview s pd va else uview s d va)"
      and "\<And>q vb. q \<in> pds \<Longrightarrow> lookup (mem t) q vb = upd_entry (upd_entry (lookup (mem s)) d a ce) pd a pe q vb"
      and "alike (lookup (mem s) pd a) pe" and "alike (lookup (mem s) pd a) ce" and "\<not> writable pe" and "\<not> writable ce"
proof -
  let ?e = "lookup (mem s) pd a" let ?e1 = "?e AND NOT PTE_W" let ?fl = "PTE_FLAGS ?e1" let ?f = "frame ?e"
  let ?pte = "pte_addr (mem s) pd a" let ?ce = "V2P ?f OR ?fl OR PTE_P" let ?pe = "?e1 OR PTE_COW"
  define s1 where "s1 = wr ?pte ?e1 s"
  have h1: "present ?e1" "frame ?e1 = ?f" "\<not> writable ?e1" "?e1 AND PTE_U = ?e AND PTE_U"
    using pr by (simp_all add: flag_bits)
  note f1 = set_ro_flags [OF inv pd(1) a(1,2) pr h1(1,2,3) s1_def]
  note inv1 = f1(1) and ht = f1(5)
  have le1: "lookup (mem s1) pd a = ?e1" and ld1: "lookup (mem s1) d vb = lookup (mem s) d vb" for vb
    using f1(2) [OF pd(1), of a] f1(2) [OF pd(2), of vb] pd(3) a(1) by (simp_all add: upd_entry_apply)
  have m1: "umap (lookup (mem s1)) pd a" using le1 h1(1) a(2) by (simp add: umap_def)
  have kp: "kpage s1 ?f" "?f \<notin> kernel_pages s1 fl pds"
    using cow_allocD [OF cow_okD(3) [OF uvm_invD(2) [OF inv1]] pd(1) m1] le1 h1(2) by simp_all
  have nf1: "?f \<notin> user_frames (lookup (mem s1)) d" using nf user_frames_cong [of "lookup (mem s1)" d] ld1 by blast
  have np1: "\<not> present (lookup (mem s1) d a)" using np ld1 by simp
  have flg: "?fl < 4096" "?fl AND PTE_W = 0" "?fl AND PTE_U = ?e AND PTE_U"
    using h1(3,4) flag_of_flags [of PTE_W ?e1] flag_of_flags [of PTE_U ?e1] by (simp_all add: PTE_defs)
  have ro: "\<not> writable (lookup (mem s1) q va)" if "q \<in> pds" "umap (lookup (mem s1)) q va" "frame (lookup (mem s1) q va) = ?f" for q va
    using share_frame [OF inv1 pd(1) that(1) m1 that(2) a(1)] le1 h1(2,3) that(3) by simp
  have ex: "users (lookup (mem s1)) pds ?f = {}" if "?fl AND PTE_W \<noteq> 0" using that flg(2) by simp
  have step: "copyuvmcow_loop pd d sz a s = (case mappages d a PGSIZE (V2P ?f) ?fl s1 of None \<Rightarrow> None | Some (r, t) \<Rightarrow>
       if r < 0 then Some (False, t)
       else Option.bind (add_refcount (V2P ?f) 1 (wr ?pte (rd t ?pte OR PTE_COW) t)) (copyuvmcow_loop pd d sz (a + PGSIZE)))"
    unfolding V2P_frame
    using copyuvmcow_step [OF ht a(3) refl pte_addr_nonzero [OF uvm_invD(1) [OF inv] pd(1) ht] refl pr s1_def, of d] .
  show ?thesis
  proof (rule uvm_map_page [OF inv1 pd(2) a(1,2) np1 kp flg(1) nf1 ex ro])
    assume "mappages d a PGSIZE (V2P ?f) ?fl s1 = Some (-1, s1)"
    then show ?thesis using fail [of s1] step f1(1,3,4) by (simp add: s1_def)
  next
    fix t used fl'
    assume t: "mappages d a PGSIZE (V2P ?f) ?fl s1 = Some (0, t)" "fl = used @ fl'" "pt_inv t fl' pds" "grown s1 t pds d used"
      and l: "\<And>q vb. q \<in> pds \<Longrightarrow> lookup (mem t) q vb = upd_entry (lookup (mem s1)) d a ?ce q vb"
      and c: "cow_ok (kpage s1) (kernel_pages s1 fl pds) (upd_entry (lookup (mem s1)) d a ?ce) ((refs s1)(?f := refs s1 ?f + 1)) pds"
    note ue = user_entry [OF uvm_invD(3) [OF inv1] kp(1) flg(1)]
    note cnt = uvm_count [OF inv1 pd(2) kp(1) t(2-4) l c]
    note mr = mapped_result [OF inv1 pd(2) a(1,2) np1 kp(1) ue(1,2) t(2,4) l]
    note ga = grown_pte_addr [OF inv1 pd(1,2) pd(3) [symmetric] t(2,4)]
    define t1 where "t1 = ref_upd ?f 1 t"
    define u where "u = wr ?pte ?pe t1"
    have lt: "lookup (mem t1) pd a = ?e1" using l [OF pd(1), of a] le1 pd(3) by (simp add: t1_def upd_entry_apply)
    have pa: "pte_addr (mem t1) pd a = ?pte" using ga(1) f1(6) by (simp add: t1_def)
    have h2: "present ?pe" "frame ?pe = ?f" "\<not> writable ?pe" "?pe AND PTE_U = ?e AND PTE_U"
      using h1 by (simp_all add: flag_bits)
    have inv2: "uvm_inv t1 fl' pds" using cnt(2) by (simp add: t1_def)
    have fr2: "present (lookup (mem t1) pd a)" "frame ?pe = frame (lookup (mem t1) pd a)" using lt h1 h2 by simp_all
    have uu: "u = wr (pte_addr (mem t1) pd a) ?pe t1" by (simp add: u_def pa)
    note f2 = set_ro_flags [OF inv2 pd(1) a(1,2) fr2(1) h2(1) fr2(2) h2(3) uu]
    show ?thesis
    proof (rule ok [of u fl' ?ce ?pe])
      have "has_table (mem t) pd (PDX a)" using f2(5) by (simp add: t1_def)
      then have "rd t ?pte = ?e1" using lookup_pte_addr [of "mem t" pd a] pa lt by (simp add: t1_def)
      moreover have "add_refcount (V2P ?f) 1 (wr ?pte ?pe t) = Some u"
      proof -
        have "only_mem s1 t" using t(4) by (simp add: grown_def)
        then have ke: "kend (wr ?pte ?pe t) = kend s1" by (simp add: only_memD(1))
        have "kpage (wr ?pte ?pe t) ?f" using kp(1) kpage_cong [OF ke] by blast
        then have "add_refcount (V2P ?f) 1 (wr ?pte ?pe t) = Some (ref_upd ?f 1 (wr ?pte ?pe t))"
          using uvm_invD(3) [OF inv1] ke by (intro refcount_kpage(2)) simp_all
        then show ?thesis by (simp add: u_def t1_def ref_upd_def)
      qed
      ultimately show "copyuvmcow_loop pd d sz a s = copyuvmcow_loop pd d sz (a + PGSIZE) u" using step t(1) by simp
      show "uvm_inv u fl' pds" by (rule f2(1))
      show "pool u fl' pds = pool s fl pds"
        using f2(4) mr(2) f1(4) kp users_in [OF pd(1) m1] le1 h1(2) by (auto simp: t1_def in_pool)
      show "uview u q = uview s q" if "q \<in> pds" "q \<noteq> d" for q
        using f2(3) [OF that(1)] mr(1) f1(3) [OF that(1)] that by (simp add: t1_def others_same_def)
      show "uview u d va = (if PGROUNDDOWN va = a then uview s pd va else uview s d va)" for va
      proof -
        have "uview s1 pd va = Some (mem s1 (?f + (va AND 0xFFF)))" if "PGROUNDDOWN va = a"
        proof -
          have "lookup (mem s1) pd va = lookup (mem s1) pd a" "umap (lookup (mem s1)) pd va"
            using m1 paged_page [OF paged_lookup that] umap_page [OF paged_lookup that] by auto
          then show ?thesis using le1 h1(2) by (simp add: uview_def)
        qed
        then show ?thesis
          using f2(3) [OF pd(2)] mr(3) [OF _ kp(2), of va] f1(3) [OF pd(2)] f1(3) [OF pd(1)] by (simp add: t1_def)
      qed
      show "lookup (mem u) q vb = upd_entry (upd_entry (lookup (mem s)) d a ?ce) pd a ?pe q vb" if "q \<in> pds" for q vb
        using f2(2) [OF that, of vb] l [OF that, of vb] f1(2) [OF that, of vb] pd(3)
        by (auto simp: t1_def upd_entry_apply)
      have "only_vm s1 t" using t(4) by (simp add: grown_def only_vm_mem)
      moreover have "only_vm s s1" "only_vm t t1" "only_vm t1 u" by (simp_all add: s1_def t1_def u_def)
      ultimately show "only_vm s u" by (metis only_vm_trans)
      show "alike ?e ?pe" "alike ?e ?ce" "\<not> writable ?pe" "\<not> writable ?ce"
        using h2 ue flg pr by (simp_all add: alike_def)
    qed
  qed
qed

section \<open>The loop\<close>

text \<open>The pages of \<open>pd\<close> from \<open>lo\<close> to \<open>hi\<close> are now shared with \<open>d\<close>, read-only on both sides.\<close>

definition shares :: "'z vm_scheme \<Rightarrow> 'z vm_scheme \<Rightarrow> u32 \<Rightarrow> u32 \<Rightarrow> u32 \<Rightarrow> u32 \<Rightarrow> bool" where
  "shares s t pd d lo hi \<longleftrightarrow> (\<forall>va.
     if page_in lo hi va
     then uview t d va = uview s pd va \<and>
       alike (lookup (mem s) pd va) (lookup (mem t) d va) \<and> \<not> writable (lookup (mem t) d va) \<and>
       alike (lookup (mem s) pd va) (lookup (mem t) pd va) \<and> \<not> writable (lookup (mem t) pd va)
     else uview t d va = uview s d va \<and> lookup (mem t) d va = lookup (mem s) d va \<and>
       lookup (mem t) pd va = lookup (mem s) pd va)"

lemma shares_step:
  assumes a: "page_aligned a" "a < KERNBASE" "a < hi" and ne: "d \<noteq> pd"
    and v: "uview t pd = uview s pd" "\<And>va. uview t d va = (if PGROUNDDOWN va = a then uview s pd va else uview s d va)"
    and l: "\<And>vb. lookup (mem t) pd vb = (if PGROUNDDOWN vb = a then pe else lookup (mem s) pd vb)"
      "\<And>vb. lookup (mem t) d vb = (if PGROUNDDOWN vb = a then ce else lookup (mem s) d vb)"
    and e: "alike (lookup (mem s) pd a) pe" "alike (lookup (mem s) pd a) ce" "\<not> writable pe" "\<not> writable ce"
    and sh: "shares t u pd d (a + PGSIZE) hi"
  shows "shares s u pd d a hi"
  unfolding shares_def
proof
  fix va
  let ?P = "\<lambda>s lo. if page_in lo hi va then uview u d va = uview s pd va \<and>
       alike (lookup (mem s) pd va) (lookup (mem u) d va) \<and> \<not> writable (lookup (mem u) d va) \<and>
       alike (lookup (mem s) pd va) (lookup (mem u) pd va) \<and> \<not> writable (lookup (mem u) pd va)
     else uview u d va = uview s d va \<and> lookup (mem u) d va = lookup (mem s) d va \<and>
       lookup (mem u) pd va = lookup (mem s) pd va"
  have P: "?P t (a + PGSIZE)" using sh unfolding shares_def by (rule spec)
  note nx = next_page(3) [OF a(1,2) page_aligned_PGROUNDDOWN, of va]
  show "?P s a"
  proof (cases "PGROUNDDOWN va = a")
    case True
    then have "\<not> page_in (a + PGSIZE) hi va" "page_in a hi va"
      using next_page(1) [OF a(1,2)] a(3) by (simp_all add: page_in_def word_le_nat_alt)
    moreover have "lookup (mem s) pd va = lookup (mem s) pd a" using True paged_page [OF paged_lookup] by blast
    ultimately show ?thesis using P e v l True by simp
  next
    case False
    then have "page_in (a + PGSIZE) hi va \<longleftrightarrow> page_in a hi va" using nx by (simp add: page_in_def)
    moreover have "lookup (mem t) pd va = lookup (mem s) pd va" "lookup (mem t) d va = lookup (mem s) d va"
      "uview t d va = uview s d va" "uview t pd va = uview s pd va" using v l False by simp_all
    ultimately show ?thesis using P by presburger
  qed
qed

lemma page_in_user: "page_in lo hi va \<Longrightarrow> hi \<le> KERNBASE \<Longrightarrow> va < KERNBASE"
  using PGROUNDDOWN_user [of va] by (auto simp: page_in_def)

text \<open>What is left to share: pages that the parent has, the child has not, in frames the child does not use.\<close>

definition to_share :: "'z vm_scheme \<Rightarrow> u32 \<Rightarrow> u32 \<Rightarrow> u32 \<Rightarrow> u32 \<Rightarrow> bool" where
  "to_share s pd d lo hi \<longleftrightarrow> (\<forall>va. page_in lo hi va \<longrightarrow> present (lookup (mem s) pd va) \<and>
     \<not> present (lookup (mem s) d va) \<and> frame (lookup (mem s) pd va) \<notin> user_frames (lookup (mem s)) d)"

lemma to_share_step:
  assumes inv: "uvm_inv s fl pds" and pd: "pd \<in> pds" and a: "page_aligned a" "a < KERNBASE" "a < hi" "hi \<le> KERNBASE"
    and l: "\<And>vb. lookup (mem t) pd vb = (if PGROUNDDOWN vb = a then pe else lookup (mem s) pd vb)"
      "\<And>vb. lookup (mem t) d vb = (if PGROUNDDOWN vb = a then ce else lookup (mem s) d vb)"
    and e: "alike (lookup (mem s) pd a) ce" and ts: "to_share s pd d a hi"
  shows "to_share t pd d (a + PGSIZE) hi"
  unfolding to_share_def
proof (intro allI impI)
  fix va
  assume va: "page_in (a + PGSIZE) hi va"
  have lt: "a < a + PGSIZE" using next_page(1) [OF a(1,2)] by (simp add: word_less_nat_alt)
  then have ne: "PGROUNDDOWN va \<noteq> a" and pi: "page_in a hi va" using va by (auto simp: page_in_def)
  have S: "present (lookup (mem s) pd va)" "\<not> present (lookup (mem s) d va)"
    "frame (lookup (mem s) pd va) \<notin> user_frames (lookup (mem s)) d" using ts pi by (auto simp: to_share_def)
  have Sa: "present (lookup (mem s) pd a)" using ts a(1,3) by (simp add: to_share_def page_in_def)
  have fa: "frame (lookup (mem s) pd va) \<noteq> frame (lookup (mem s) pd a)"
  proof
    assume eq: "frame (lookup (mem s) pd va) = frame (lookup (mem s) pd a)"
    have "PGROUNDDOWN va = PGROUNDDOWN a"
      by (rule cow_injD [OF cow_okD(4) [OF uvm_invD(2) [OF inv]] pd _ _ eq])
        (use S(1) Sa a(2) page_in_user [OF pi a(4)] in \<open>simp_all add: umap_def\<close>)
    with ne a(1) show False by simp
  qed
  have "frame (lookup (mem s) pd va) \<notin> user_frames (lookup (mem t)) d"
  proof
    assume "frame (lookup (mem s) pd va) \<in> user_frames (lookup (mem t)) d"
    then obtain vb where vb: "umap (lookup (mem t)) d vb" "frame (lookup (mem s) pd va) = frame (lookup (mem t) d vb)"
      by (auto simp: user_frames_def)
    show False
    proof (cases "PGROUNDDOWN vb = a")
      case True
      then show False using vb(2) l(2) [of vb] e fa by (simp add: alike_def)
    next
      case False
      then have "lookup (mem t) d vb = lookup (mem s) d vb" using l(2) by simp
      then show False using vb S(3) by (auto simp: user_frames_def umap_def)
    qed
  qed
  then show "present (lookup (mem t) pd va) \<and> \<not> present (lookup (mem t) d va) \<and>
      frame (lookup (mem t) pd va) \<notin> user_frames (lookup (mem t)) d"
    using S l ne by simp
qed

lemma copyuvmcow_loop_spec:
  assumes pd: "pd \<in> pds" "d \<in> pds" "d \<noteq> pd" and sz: "sz \<le> KERNBASE"
    and "uvm_inv s fl pds" and "page_aligned a" and "to_share s pd d a sz"
  shows "\<exists>ok t fl'. copyuvmcow_loop pd d sz a s = Some (ok, t) \<and> uvm_inv t fl' pds \<and> only_vm s t \<and>
           pool t fl' pds = pool s fl pds \<and> (\<forall>q\<in>pds - {d}. uview t q = uview s q) \<and> (ok \<longrightarrow> shares s t pd d a sz)"
  using assms(5-)
proof (induction "unat sz - unat a" arbitrary: s fl a rule: less_induct)
  case less
  note inv = less.prems(1) and al = less.prems(2) and ts = less.prems(3)
  show ?case
  proof (cases "a < sz")
    case False
    then have "copyuvmcow_loop pd d sz a s = Some (True, s)" by (subst copyuvmcow_loop.simps) simp
    moreover have "shares s s pd d a sz" using False by (auto simp: shares_def page_in_def)
    ultimately show ?thesis using inv by (metis only_vm_simps(1))
  next
    case True
    with sz have kb: "a < KERNBASE" by simp
    have S: "present (lookup (mem s) pd a)" "\<not> present (lookup (mem s) d a)"
      "frame (lookup (mem s) pd a) \<notin> user_frames (lookup (mem s)) d"
      using ts True al by (auto simp: to_share_def page_in_def)
    show ?thesis
    proof (rule copyuvmcow_round [OF inv pd al kb True S])
      fix t assume "copyuvmcow_loop pd d sz a s = Some (False, t)" "uvm_inv t fl pds" "pool t fl pds = pool s fl pds"
        "\<And>q. q \<in> pds \<Longrightarrow> uview t q = uview s q" "only_vm s t"
      then show ?thesis by (metis DiffD1)
    next
      fix t fl' pe ce
      assume t: "copyuvmcow_loop pd d sz a s = copyuvmcow_loop pd d sz (a + PGSIZE) t" "uvm_inv t fl' pds"
          "pool t fl' pds = pool s fl pds" "only_vm s t" "\<And>q. q \<in> pds \<Longrightarrow> q \<noteq> d \<Longrightarrow> uview t q = uview s q"
          "\<And>va. uview t d va = (if PGROUNDDOWN va = a then uview s pd va else uview s d va)"
        and l: "\<And>q vb. q \<in> pds \<Longrightarrow> lookup (mem t) q vb = upd_entry (upd_entry (lookup (mem s)) d a ce) pd a pe q vb"
        and e: "alike (lookup (mem s) pd a) pe" "alike (lookup (mem s) pd a) ce" "\<not> writable pe" "\<not> writable ce"
      have lp: "lookup (mem t) pd vb = (if PGROUNDDOWN vb = a then pe else lookup (mem s) pd vb)"
        and ld: "lookup (mem t) d vb = (if PGROUNDDOWN vb = a then ce else lookup (mem s) d vb)" for vb
        using l pd by (simp_all add: upd_entry_apply)
      note nx = next_page [OF al kb]
      have dec: "unat sz - unat (a + PGSIZE) < unat sz - unat a" using True nx(1) by (simp add: word_less_nat_alt)
      have ts': "to_share t pd d (a + PGSIZE) sz" by (rule to_share_step [OF inv pd(1) al kb True sz lp ld e(2) ts])
      from less.hyps [OF dec t(2) nx(2) ts'] obtain ok u fl'' where u:
        "copyuvmcow_loop pd d sz (a + PGSIZE) t = Some (ok, u)" "uvm_inv u fl'' pds" "only_vm t u"
        "pool u fl'' pds = pool t fl' pds" "\<forall>q\<in>pds - {d}. uview u q = uview t q"
        "ok \<longrightarrow> shares t u pd d (a + PGSIZE) sz" by blast
      have "ok \<longrightarrow> shares s u pd d a sz"
        using shares_step [OF al kb True pd(3) t(5) [OF pd(1)] t(6) lp ld e] u(6) pd(3) by blast
      moreover have "\<forall>q\<in>pds - {d}. uview u q = uview s q" using u(5) t(5) by simp
      ultimately show ?thesis using t(1,3) u(1,2,4) only_vm_trans [OF t(4) u(3)] by auto
    qed
  qed
qed

section \<open>copyuvmcow\<close>

lemma lcr3_simps [simp]:
  "mem (lcr3 x s) = mem s" "refs (lcr3 x s) = refs s" "kpage (lcr3 x s) = kpage s" "kernel_pages (lcr3 x s) fl pds = kernel_pages s fl pds"
  "uview (lcr3 x s) = uview s" "pool (lcr3 x s) fl pds = pool s fl pds" "kmem_inv (lcr3 x s) fl = kmem_inv s fl"
  "pt_wf (lcr3 x s) = pt_wf s"
  by (auto simp: lcr3_def refs_def kpage_def kernel_pages_def uview_def pool_def kmem_inv_def pt_wf_def fun_eq_iff)

lemma uvm_inv_lcr3 [simp]: "uvm_inv (lcr3 x s) fl pds = uvm_inv s fl pds"
  by (simp add: uvm_inv_def pt_inv_def) (simp add: lcr3_def)

lemma setupkvm_views:
  assumes inv: "uvm_inv s fl pds" and inv': "uvm_inv t fl' pds'" and sub: "pds \<subseteq> pds'" and p: "preserved s t (set fl) pds" and q: "q \<in> pds"
  shows "uview t q = uview s q"
proof
  fix va
  show "uview t q va = uview s q va"
    by (rule uview_kernel_write [OF inv q _ preservedD(3) [OF p]])
      (use preservedD(1) [OF p q] in \<open>auto simp: kernel_pages_def\<close>)
qed

lemma setupkvm_pool:
  assumes p: "preserved s t W pds" and d: "\<And>va. va < KERNBASE \<Longrightarrow> lookup (mem t) d va = 0"
    and fl: "set fl = set fl' \<union> pt_pages (mem t) d"
  shows "pool t fl' (insert d pds) = pool s fl pds"
proof -
  have us: "users (lookup (mem t)) (insert d pds) x = users (lookup (mem s)) pds x" for x
    using users_empty_space(1) [of "lookup (mem t)" d] d preservedD(1) [OF p]
    by (simp add: umap_def users_cong [of pds "lookup (mem t)" "lookup (mem s)"])
  have "kernel_pages t fl' (insert d pds) = kernel_pages s fl pds"
    using preservedD(2) [OF p] fl by (auto simp: kernel_pages_def)
  then show ?thesis by (simp add: pool_def us)
qed

lemma destroyed_result:
  assumes inv: "uvm_inv s fl (insert d pds)" and d: "d \<notin> pds" and de: "destroyed s t fl fl' (insert d pds) d"
  shows "q \<in> pds \<Longrightarrow> uview t q = uview s q" and "pool t fl' pds = pool s fl (insert d pds)"
proof -
  have D: "set fl' = set fl \<union> pt_pages (mem s) d \<union> {p \<in> user_frames (lookup (mem s)) d. users (lookup (mem s)) pds p = {}}"
    "\<And>q. q \<in> pds \<Longrightarrow> lookup (mem t) q = lookup (mem s) q" "\<And>q. q \<in> pds \<Longrightarrow> pt_pages (mem t) q = pt_pages (mem s) q"
    "same_except (set fl') (mem s) (mem t)"
    using de d by (auto simp: destroyed_def)
  show "uview t q = uview s q" if q: "q \<in> pds"
  proof
    fix va
    show "uview t q va = uview s q va"
    proof (rule uview_same [OF _ D(4)])
      assume m: "umap (lookup (mem s)) q va"
      then have "frame (lookup (mem s) q va) \<notin> kernel_pages s fl (insert d pds)"
        using cow_allocD [OF cow_okD(3) [OF uvm_invD(2) [OF inv]], of q va] q by simp
      then show "frame (lookup (mem s) q va) \<notin> set fl'"
        using users_in [OF q m] unfolding D(1) by (auto simp: kernel_pages_def)
    qed (simp add: D(2) q)
  qed
  have us: "users (lookup (mem t)) pds p = users (lookup (mem s)) pds p" for p by (rule users_cong) (simp add: D(2))
  have ui: "users (lookup (mem s)) (insert d pds) p \<noteq> {} \<longleftrightarrow> p \<in> user_frames (lookup (mem s)) d \<or> users (lookup (mem s)) pds p \<noteq> {}" for p
    by (auto simp: users_def)
  show "pool t fl' pds = pool s fl (insert d pds)"
    unfolding pool_def us ui kernel_pages_def D(1) using D(3) by auto
qed

lemma copyuvmcow_spec:
  assumes inv: "uvm_inv s fl pds" and lay: "layout_ok s" and card: "card pds < 127" and pd: "pd \<in> pds"
    and sz: "sz \<le> KERNBASE" and pr: "\<And>va. page_in 0 sz va \<Longrightarrow> present (lookup (mem s) pd va)"
  obtains (fail) t fl' where "copyuvmcow pd sz s = Some (0, t)" and "uvm_inv t fl' pds" and "pool t fl' pds = pool s fl pds"
      and "\<And>q. q \<in> pds \<Longrightarrow> uview t q = uview s q"
  | (ok) d t fl' where "copyuvmcow pd sz s = Some (d, t)" and "d \<noteq> 0" and "d \<notin> pds" and "uvm_inv t fl' (insert d pds)"
      and "pool t fl' (insert d pds) = pool s fl pds" and "\<And>q. q \<in> pds \<Longrightarrow> uview t q = uview s q"
      and "\<And>va. uview t d va = (if page_in 0 sz va then uview s pd va else None)"
      and "\<And>va. page_in 0 sz va \<Longrightarrow> \<not> writable (lookup (mem t) d va) \<and> \<not> writable (lookup (mem t) pd va)"
proof (rule setupkvm_spec [OF inv lay card])
  fix t fl'
  assume t: "setupkvm s = Some (0, t)" "uvm_inv t fl' pds" "set fl' = set fl" "preserved s t (set fl) pds"
  have us: "users (lookup (mem t)) pds x = users (lookup (mem s)) pds x" for x
    by (rule users_cong) (simp add: preservedD(1) [OF t(4)])
  have "pool t fl' pds = pool s fl pds" using preservedD(2) [OF t(4)] t(3) by (auto simp: pool_def kernel_pages_def us)
  then show thesis using fail t setupkvm_views [OF inv t(2) _ t(4)] by (simp add: copyuvmcow_def)
next
  fix d t fl'
  assume t: "setupkvm s = Some (d, t)" "d \<noteq> 0" "d \<notin> pds" "uvm_inv t fl' (insert d pds)"
    "set fl = set fl' \<union> pt_pages (mem t) d" "\<And>va. lookup (mem t) d va = kmap_pte (kmap s) va" "preserved s t (set fl) pds"
  have d0: "lookup (mem t) d va = 0" if "va < KERNBASE" for va using t(6) kmap_pte_user [OF lay that] by simp
  have pool: "pool t fl' (insert d pds) = pool s fl pds" by (rule setupkvm_pool [OF t(7) d0 t(5)])
  have v: "uview t q = uview s q" if "q \<in> pds" for q by (rule setupkvm_views [OF inv t(4) _ t(7) that]) auto
  have dv: "uview t d va = None" for va using d0 [of va] by (auto simp: uview_def umap_def)
  have ts: "to_share t pd d 0 sz"
    using pr d0 page_in_user [OF _ sz] preservedD(1) [OF t(7) pd] by (auto simp: to_share_def user_frames_def umap_def)
  have ne: "d \<noteq> pd" using t(3) pd by auto
  obtain ok u fl'' where u: "copyuvmcow_loop pd d sz 0 t = Some (ok, u)" "uvm_inv u fl'' (insert d pds)"
      "pool u fl'' (insert d pds) = pool t fl' (insert d pds)" "\<forall>q\<in>insert d pds - {d}. uview u q = uview t q"
      "ok \<longrightarrow> shares t u pd d 0 sz"
    using copyuvmcow_loop_spec [OF _ _ ne sz t(4) _ ts] pd by (auto simp: page_aligned_def)
  show thesis
  proof (cases ok)
    case True
    then have sh: "shares t u pd d 0 sz" using u(5) by simp
    show thesis
    proof (rule ok [of d "lcr3 (V2P pd) u" fl''])
      show "copyuvmcow pd sz s = Some (d, lcr3 (V2P pd) u)" using t(1,2) u(1) True by (simp add: copyuvmcow_def)
      show "uview (lcr3 (V2P pd) u) d va = (if page_in 0 sz va then uview s pd va else None)" for va
        using sh [unfolded shares_def, THEN spec, of va] dv v [OF pd] by (auto split: if_splits)
      show "\<not> writable (lookup (mem (lcr3 (V2P pd) u)) d va) \<and> \<not> writable (lookup (mem (lcr3 (V2P pd) u)) pd va)"
        if "page_in 0 sz va" for va
        using sh [unfolded shares_def, THEN spec, of va] that by simp
    qed (use t(2,3) u pool v in auto)
  next
    case False
    obtain w fl3 where w: "freevm d u = Some w" "uvm_inv w fl3 (insert d pds - {d})" "destroyed u w fl'' fl3 (insert d pds) d"
      by (rule freevm_spec [OF u(2) insertI1])
    note dr = destroyed_result [OF u(2) t(3) w(3)]
    have "insert d pds - {d} = pds" using t(3) by auto
    then show thesis
      using fail [of "lcr3 (V2P pd) w" fl3] t(1,2,3) u False w(1,2) dr pool v by (simp add: copyuvmcow_def)
  qed
qed

end
