(* ===== verification/VmProps.thy ===== *)
theory VmProps
  imports ForkCow
begin

text \<open>
  The properties of the virtual memory system, stated on the operations of \<^verbatim>\<open>vm.c\<close> with the
  invariant \<open>uvm_inv\<close> (page tables well formed and disjoint, every reference count equal to the
  number of address spaces that use the page, every writable page used by one address space), what a
  process sees (\<open>uview\<close>) and the set of all pages (\<open>pool\<close>). The examples are machines built by running the
  operations on a small boot state.
\<close>

section \<open>Growing and shrinking\<close>

lemma allocuvm_spec:
  assumes inv: "uvm_inv s fl pds" and pd: "pd \<in> pds" and o: "oldsz < KERNBASE" "oldsz \<le> newsz" "newsz < KERNBASE"
    and free: "\<forall>va. page_in (PGROUNDUP oldsz) newsz va \<longrightarrow> \<not> present (lookup (mem s) pd va)"
  shows "\<exists>r t fl'. allocuvm pd oldsz newsz s = Some (r, t) \<and> uvm_inv t fl' pds \<and> others_same s t pds pd \<and>
           pool t fl' pds = pool s fl pds \<and>
           (r = newsz \<and> grew s t pd (PGROUNDUP oldsz) newsz \<or> r = 0 \<and> cut s t pd (PGROUNDUP oldsz) newsz)"
proof -
  have "\<not> newsz < oldsz" "\<not> newsz \<ge> KERNBASE" using o by simp_all
  then show ?thesis
    using allocuvm_loop_spec [OF pd o(3,1) inv page_aligned_PGROUNDUP order_refl free] by (simp add: allocuvm_def)
qed

section \<open>Page faults\<close>

lemma pagefault_cases:
  assumes inv: "uvm_inv s fl pds" and pd: "pd \<in> pds" and e: "e = lookup (mem s) pd va"
  shows "\<not> (va < KERNBASE \<and> present e \<and> e AND PTE_U \<noteq> 0) \<Longrightarrow> pagefault (Some pd) va s = Some (True, s)"
    and "va < KERNBASE \<Longrightarrow> present e \<Longrightarrow> e AND PTE_U \<noteq> 0 \<Longrightarrow> writable e \<Longrightarrow> pagefault (Some pd) va s = None"
    and "va < KERNBASE \<Longrightarrow> present e \<Longrightarrow> e AND PTE_U \<noteq> 0 \<Longrightarrow> \<not> writable e \<Longrightarrow>
      users (lookup (mem s)) pds (frame e) \<noteq> {pd} \<Longrightarrow> fl = [] \<Longrightarrow> pagefault (Some pd) va s = Some (True, s)"
proof -
  have H: "walkpgdir pd va False s = Some (pte_addr (mem s) pd va, s)" "pte_addr (mem s) pd va \<noteq> 0" "rd s (pte_addr (mem s) pd va) = e"
    if "has_table (mem s) pd (PDX va)"
    using walk_hit [OF that] pte_addr_nonzero [OF uvm_invD(1) [OF inv] pd that] lookup_pte_addr [OF that] e by auto
  have N: "e = 0" "walkpgdir pd va False s = Some (0, s)" if "\<not> has_table (mem s) pd (PDX va)"
    using lookup_no_table [OF that] walk_miss [OF that] e by simp_all
  show "pagefault (Some pd) va s = Some (True, s)" if "\<not> (va < KERNBASE \<and> present e \<and> e AND PTE_U \<noteq> 0)"
    using that H N by (cases "has_table (mem s) pd (PDX va)") (auto simp: pagefault_def not_le)
  show "pagefault (Some pd) va s = None" if "va < KERNBASE" "present e" "e AND PTE_U \<noteq> 0" "writable e"
    using that H present_has_table [of "mem s" pd va] e by (auto simp: pagefault_def)
  assume a: "va < KERNBASE" "present e" "e AND PTE_U \<noteq> 0" "\<not> writable e" "users (lookup (mem s)) pds (frame e) \<noteq> {pd}" "fl = []"
  note ok = uvm_invD(2) [OF inv]
  have m: "umap (lookup (mem s)) pd va" using a e by (simp add: umap_def)
  have kp: "kpage s (frame e)" using cow_allocD [OF cow_okD(3) [OF ok] pd m] e by simp
  have rv: "sint (refs s (frame e)) = int (card (users (lookup (mem s)) pds (frame e)))" by (rule refs_value(1) [OF ok kp])
  have "pd \<in> users (lookup (mem s)) pds (frame e)" using users_in [OF pd m] e by simp
  then have "card (users (lookup (mem s)) pds (frame e)) \<noteq> 0 \<and> card (users (lookup (mem s)) pds (frame e)) \<noteq> 1"
    using a(5) users_finite [OF cow_okD(1) [OF ok]] by (auto simp: card_1_singleton_iff)
  then have "1 < card (users (lookup (mem s)) pds (frame e))" by arith
  then have "refs s (frame e) \<noteq> 1" "1 < sint (refs s (frame e))" using rv by auto
  moreover have "refcount (PTE_ADDR e) s = Some (refs s (frame e))"
    using refcount_kpage(1) [OF uvm_invD(3) [OF inv] kp] by (simp add: V2P_frame)
  moreover have "kalloc s = Some (0, s)" using kalloc_empty pt_invD(2) [OF uvm_invD(1) [OF inv]] a(6) by blast
  ultimately show "pagefault (Some pd) va s = Some (True, s)"
    using a H present_has_table [of "mem s" pd va] e by (auto simp: pagefault_def Let_def)
qed

lemma user_store_None:
  "user_store pd va b s = None \<longleftrightarrow> \<not> (va < KERNBASE \<and> present (lookup (mem s) pd va) \<and>
     lookup (mem s) pd va AND PTE_U \<noteq> 0 \<and> writable (lookup (mem s) pd va))"
  by (auto simp: user_store_def Let_def)

text \<open>The access is one that the kernel grants: the page is a user page of the process.\<close>

definition user_page :: "'z vm_scheme \<Rightarrow> u32 \<Rightarrow> u32 \<Rightarrow> bool" where
  "user_page s pd va \<longleftrightarrow> va < KERNBASE \<and> present (lookup (mem s) pd va) \<and> lookup (mem s) pd va AND PTE_U \<noteq> 0"

definition page_shared :: "'z vm_scheme \<Rightarrow> u32 set \<Rightarrow> u32 \<Rightarrow> u32 \<Rightarrow> bool" where
  "page_shared s pds pd va \<longleftrightarrow> (\<exists>q\<in>pds - {pd}. frame (lookup (mem s) pd va) \<in> user_frames (lookup (mem s)) q)"

lemma page_shared_users:
  assumes "pd \<in> pds" and "user_page s pd va"
  shows "page_shared s pds pd va \<longleftrightarrow> users (lookup (mem s)) pds (frame (lookup (mem s) pd va)) \<noteq> {pd}"
  using users_in [of pd pds "lookup (mem s)" va] assms
  by (auto simp: page_shared_def users_def user_page_def umap_def)

lemma pagefault_granted:
  assumes inv: "uvm_inv s fl pds" and pd: "pd \<in> pds" and up: "user_page s pd va" and ro: "\<not> writable (lookup (mem s) pd va)"
    and mem: "fl \<noteq> [] \<or> \<not> page_shared s pds pd va"
  shows "\<exists>t fl'. pagefault (Some pd) va s = Some (False, t) \<and> uvm_inv t fl' pds \<and> pool t fl' pds = pool s fl pds \<and>
    (\<forall>q\<in>pds. uview t q = uview s q) \<and> user_page t pd va \<and> writable (lookup (mem t) pd va)" (is ?goal)
proof -
  let ?e = "lookup (mem s) pd va" let ?a = "PGROUNDDOWN va" let ?L = "lookup (mem s)"
  have va: "va < KERNBASE" and e: "present ?e" "?e AND PTE_U \<noteq> 0" using up by (auto simp: user_page_def)
  have fin: ?goal if "pagefault (Some pd) va s = Some (False, lcr3 (V2P pd) t)" "uvm_inv t fl' pds"
      "pool t fl' pds = pool s fl pds" "\<And>q. q \<in> pds \<Longrightarrow> uview t q = uview s q"
      "\<And>q vb. q \<in> pds \<Longrightarrow> lookup (mem t) q vb = upd_entry ?L pd ?a e' q vb"
      "present e'" "e' AND PTE_U \<noteq> 0" "writable e'" for t fl' e'
    by (rule exI [of _ "lcr3 (V2P pd) t"], rule exI [of _ fl']) (use that va pd in \<open>simp add: upd_entry_apply user_page_def\<close>)
  show ?goal
  proof (cases "page_shared s pds pd va")
    case False
    then have one: "users ?L pds (frame ?e) = {pd}" using page_shared_users [OF pd up] by blast
    obtain t where "pagefault (Some pd) va s = Some (False, lcr3 (V2P pd) t)" "uvm_inv t fl pds"
      "pool t fl pds = pool s fl pds" "\<And>q. q \<in> pds \<Longrightarrow> uview t q = uview s q"
      "\<And>q vb. q \<in> pds \<Longrightarrow> lookup (mem t) q vb = upd_entry ?L pd ?a ((?e AND NOT PTE_COW) OR PTE_W) q vb"
      by (rule pagefault_private [OF inv pd va refl e ro one]) blast
    then show ?goal by (rule fin) (use e in \<open>simp_all add: flag_bits\<close>, simp_all add: PTE_defs)
  next
    case True
    then have many: "users ?L pds (frame ?e) \<noteq> {pd}" and "fl \<noteq> []" using page_shared_users [OF pd up] mem by auto
    then obtain p fl1 where fl: "fl = p # fl1" by (auto simp: neq_Nil_conv)
    obtain t where "pagefault (Some pd) va s = Some (False, lcr3 (V2P pd) t)" "uvm_inv t fl1 pds"
      "pool t fl1 pds = pool s fl pds" "\<And>q. q \<in> pds \<Longrightarrow> uview t q = uview s q"
      "\<And>q vb. q \<in> pds \<Longrightarrow> lookup (mem t) q vb = upd_entry ?L pd ?a (V2P p OR PTE_P OR PTE_W OR PTE_U) q vb"
      unfolding fl by (rule pagefault_shared [OF inv [unfolded fl] pd va refl e ro many]) blast
    then show ?goal by (rule fin) (simp_all add: or_AND_flag PTE_defs)
  qed
qed

section \<open>A store with its fault\<close>

text \<open>A store by a user program: if the processor refuses it, \<^verbatim>\<open>trap\<close> calls \<open>pagefault\<close> and the
  instruction is executed again. The result says whether the process was killed instead.\<close>

definition user_write :: "u32 \<Rightarrow> u32 \<Rightarrow> u8 \<Rightarrow> 'z vm_scheme \<Rightarrow> (bool \<times> 'z vm_scheme) option" where
  "user_write pd va b s = (case user_store pd va b s of Some t \<Rightarrow> Some (False, t) | None \<Rightarrow>
     do {
       (killed, s) \<leftarrow> pagefault (Some pd) va s;
       if killed then Some (True, s) else do { s \<leftarrow> user_store pd va b s; Some (False, s) } })"

lemma user_store_spec:
  assumes inv: "uvm_inv s fl pds" and pd: "pd \<in> pds" and up: "user_page s pd va" "writable (lookup (mem s) pd va)"
  shows "\<exists>t. user_store pd va b s = Some t \<and> uvm_inv t fl pds \<and> pool t fl pds = pool s fl pds \<and>
    (\<forall>q\<in>pds. \<forall>vb. uview t q vb = (if q = pd \<and> vb = va then Some b else uview s q vb))"
proof -
  obtain t where t: "user_store pd va b s = Some t" using up user_store_None [of pd va b s] by (auto simp: user_page_def)
  note iso = user_store_isolated [OF inv pd t]
  have m: "umap (lookup (mem s)) pd va" using up by (simp add: user_page_def umap_def)
  let ?x = "frame (lookup (mem s) pd va) + (va AND 0xFFF)"
  have tm: "t = s\<lparr>mem := (mem s)(?x := b)\<rparr>" using t by (auto simp: user_store_def Let_def split: if_splits)
  have "PGROUNDDOWN ?x = frame (lookup (mem s) pd va)" by (rule PGROUNDDOWN_offset) simp_all
  then have se: "same_except {frame (lookup (mem s) pd va)} (mem s) (mem t)" by (auto simp: same_except_def tm)
  have nk: "frame (lookup (mem s) pd va) \<notin> kernel_pages s fl pds"
    using cow_allocD [OF cow_okD(3) [OF uvm_invD(2) [OF inv]] pd m] by simp
  note w = uvm_write [OF inv nk se]
  have us: "users (lookup (mem t)) pds p = users (lookup (mem s)) pds p" for p by (rule users_cong) (simp add: w(2))
  have "pool t fl pds = pool s fl pds" using w(3) by (auto simp: pool_def kernel_pages_def us)
  then show ?thesis using t iso by auto
qed

section \<open>Properties\<close>


text \<open>C3: \<open>pagefault\<close> after a refused store kills the process exactly when the page is not a user page
  of the process or the page is shared and no page is free; otherwise the page becomes writable and private. No
  address space changes what it sees, no page is lost and the kernel does not panic.\<close>

theorem pagefault_correct:
  assumes "uvm_inv s fl pds" and "pd \<in> pds" and "user_store pd va b s = None"
  shows "\<exists>killed t fl'. pagefault (Some pd) va s = Some (killed, t) \<and> uvm_inv t fl' pds \<and> pool t fl' pds = pool s fl pds \<and>
    (\<forall>q\<in>pds. uview t q = uview s q) \<and> (killed \<longleftrightarrow> \<not> user_page s pd va \<or> page_shared s pds pd va \<and> fl = []) \<and>
    (killed \<or> user_page t pd va \<and> writable (lookup (mem t) pd va) \<and> \<not> page_shared t pds pd va)"
proof -
  have ro: "\<not> writable (lookup (mem s) pd va)" if "user_page s pd va"
    using assms(3) that user_store_None [of pd va b s] by (auto simp: user_page_def)
  consider "\<not> user_page s pd va" | "user_page s pd va" "page_shared s pds pd va \<and> fl = []"
    | "user_page s pd va" "fl \<noteq> [] \<or> \<not> page_shared s pds pd va" by blast
  then show ?thesis
  proof cases
    case 1
    then show ?thesis using pagefault_cases(1) [OF assms(1,2) refl] assms(1) by (auto simp: user_page_def)
  next
    case 2
    then show ?thesis using pagefault_cases(3) [OF assms(1,2) refl, of va] ro assms(1) page_shared_users [OF assms(2) 2(1)]
      by (auto simp: user_page_def)
  next
    case 3
    obtain t fl' where t: "pagefault (Some pd) va s = Some (False, t)" "uvm_inv t fl' pds" "pool t fl' pds = pool s fl pds"
      "\<forall>q\<in>pds. uview t q = uview s q" "user_page t pd va" "writable (lookup (mem t) pd va)"
      using pagefault_granted [OF assms(1,2) 3(1) ro 3(2)] 3(1) by blast
    then have "\<not> page_shared t pds pd va"
      using page_shared_users [OF assms(2) t(5)] cow_exclD [OF cow_okD(6) [OF uvm_invD(2) [OF t(2)]] assms(2), of va]
      by (auto simp: user_page_def umap_def)
    then show ?thesis using t 3 by blast
  qed
qed

text \<open>C2: \<open>copyuvmcow\<close>, the heart of \<open>forkcow\<close>: for a process whose pages below \<open>sz\<close> are all mapped it
  either returns a fresh address space that sees exactly what the parent sees below \<open>sz\<close>, with the
  shared pages read-only on both sides, or it returns 0 and gives every page back. In both cases every existing
  address space sees what it saw, and no page is lost.\<close>

theorem copyuvmcow_correct:
  assumes "uvm_inv s fl pds" and "layout_ok s" and "card pds < 127" and "pd \<in> pds" and "sz \<le> KERNBASE"
    and "\<forall>va. page_in 0 sz va \<longrightarrow> present (lookup (mem s) pd va)"
  shows "\<exists>d t fl'. copyuvmcow pd sz s = Some (d, t) \<and> (\<forall>q\<in>pds. uview t q = uview s q) \<and>
    (if d = 0 then uvm_inv t fl' pds \<and> pool t fl' pds = pool s fl pds
     else d \<notin> pds \<and> uvm_inv t fl' (insert d pds) \<and> pool t fl' (insert d pds) = pool s fl pds \<and>
       (\<forall>va. uview t d va = (if page_in 0 sz va then uview s pd va else None)) \<and>
       (\<forall>va. page_in 0 sz va \<longrightarrow> \<not> writable (lookup (mem t) d va) \<and> \<not> writable (lookup (mem t) pd va)))"
proof (rule copyuvmcow_spec [OF assms(1-5)])
  show "present (lookup (mem s) pd va)" if "page_in 0 sz va" for va using assms(6) that by blast
next
  fix t fl'
  assume "copyuvmcow pd sz s = Some (0, t)" "uvm_inv t fl' pds" "pool t fl' pds = pool s fl pds"
    "\<And>q. q \<in> pds \<Longrightarrow> uview t q = uview s q"
  then show ?thesis by (intro exI [of _ 0] exI [of _ t] exI [of _ fl']) auto
next
  fix d t fl'
  assume "copyuvmcow pd sz s = Some (d, t)" "d \<noteq> 0" "d \<notin> pds" "uvm_inv t fl' (insert d pds)"
    "pool t fl' (insert d pds) = pool s fl pds" "\<And>q. q \<in> pds \<Longrightarrow> uview t q = uview s q"
    "\<And>va. uview t d va = (if page_in 0 sz va then uview s pd va else None)"
    "\<And>va. page_in 0 sz va \<Longrightarrow> \<not> writable (lookup (mem t) d va) \<and> \<not> writable (lookup (mem t) pd va)"
  then show ?thesis by (intro exI [of _ d] exI [of _ t] exI [of _ fl']) simp
qed

text \<open>C6: \<open>allocuvm\<close> either maps every page between the old and the new size as a writable user page of
  zeros and returns the new size, or it returns 0 and unmaps what it mapped. The other address spaces are
  unchanged and no page is lost.\<close>

theorem allocuvm_correct:
  assumes "uvm_inv s fl pds" and "pd \<in> pds" and "oldsz \<le> newsz" and "newsz < KERNBASE"
    and "\<forall>va. page_in (PGROUNDUP oldsz) newsz va \<longrightarrow> \<not> present (lookup (mem s) pd va)"
  shows "\<exists>r t fl'. allocuvm pd oldsz newsz s = Some (r, t) \<and> uvm_inv t fl' pds \<and> others_same s t pds pd \<and>
    pool t fl' pds = pool s fl pds \<and>
    (r = newsz \<and> grew s t pd (PGROUNDUP oldsz) newsz \<or> r = 0 \<and> cut s t pd (PGROUNDUP oldsz) newsz)"
  using allocuvm_spec [OF assms(1,2) _ assms(3,4,5)] assms(3,4) by simp




section \<open>The copy that fork makes is not counted\<close>

lemma kalloc_counts: "kalloc s = Some (p, t) \<Longrightarrow> pg_refcount t = pg_refcount s"
  by (auto simp: kalloc_def acquire_def release_def Let_def bind_eq_Some_conv split: if_splits)

lemma walkpgdir_counts: "walkpgdir pd va al s = Some (p, t) \<Longrightarrow> pg_refcount t = pg_refcount s"
  by (auto simp: walkpgdir_def Let_def bind_eq_Some_conv dest!: kalloc_counts split: if_splits)

lemma mappages_loop_counts:
  assumes "mappages_loop pd a l pa perm s = Some y"
  shows "pg_refcount (snd y) = pg_refcount s"
proof (rule mappages_loop.raw_induct [where P = "\<lambda>pd a l pa perm s y. pg_refcount (snd y) = pg_refcount s", OF _ assms])
  fix f :: "u32 \<Rightarrow> u32 \<Rightarrow> u32 \<Rightarrow> u32 \<Rightarrow> u32 \<Rightarrow> 'a vm_scheme \<Rightarrow> (int \<times> 'a vm_scheme) option" and pd a l pa perm s y
  assume IH: "\<And>pd a l pa perm s y. f pd a l pa perm s = Some y \<Longrightarrow> pg_refcount (snd y) = pg_refcount s"
    and y: "do { (pte, s) \<leftarrow> walkpgdir pd a True s;
       if pte = 0 then Some (-1, s) else if rd s pte AND PTE_P \<noteq> 0 then None
       else do { let s = wr pte (pa OR perm OR PTE_P) s;
         if a = l then Some (0, s) else f pd (a + PGSIZE) l (pa + PGSIZE) perm s } } = Some y"
  obtain pte u where u: "walkpgdir pd a True s = Some (pte, u)" using y by (auto simp: bind_eq_Some_conv)
  show "pg_refcount (snd y) = pg_refcount s"
    using y u walkpgdir_counts [OF u] IH [of pd "a + PGSIZE" l "pa + PGSIZE" perm "wr pte (pa OR perm OR PTE_P) u" y]
    by (auto simp: Let_def split: if_splits)
qed

lemma mappages_counts: "mappages pd va sz pa perm s = Some (r, t) \<Longrightarrow> pg_refcount t = pg_refcount s"
  using mappages_loop_counts by (fastforce simp: mappages_def)

lemma setupkvm_loop_counts: "setupkvm_loop pd ks s = Some (ok, t) \<Longrightarrow> pg_refcount t = pg_refcount s"
  by (induction pd ks s rule: setupkvm_loop.induct)
    (auto simp: bind_eq_Some_conv dest: mappages_counts split: if_splits)

lemma setupkvm_counts:
  assumes "setupkvm s = Some (d, t)" and "d \<noteq> 0"
  shows "pg_refcount t = pg_refcount s"
  using assms by (auto simp: setupkvm_def bind_eq_Some_conv Let_def split: if_splits dest!: kalloc_counts setupkvm_loop_counts)

lemma copyuvm_loop_counts:
  assumes "copyuvm_loop pd d sz i s = Some y"
  shows "pg_refcount (snd y) = pg_refcount s"
proof (rule copyuvm_loop.raw_induct [where P = "\<lambda>pd d sz i s y. pg_refcount (snd y) = pg_refcount s", OF _ assms])
  fix f :: "u32 \<Rightarrow> u32 \<Rightarrow> u32 \<Rightarrow> u32 \<Rightarrow> 'a vm_scheme \<Rightarrow> (bool \<times> 'a vm_scheme) option" and pd d sz i s y
  assume IH: "\<And>pd d sz i s y. f pd d sz i s = Some y \<Longrightarrow> pg_refcount (snd y) = pg_refcount s"
    and y: "(if i < sz then do {
        (pte, s) \<leftarrow> walkpgdir pd i False s;
        if pte = 0 then None else if rd s pte AND PTE_P = 0 then None
        else do {
          let pa = PTE_ADDR (rd s pte); let flags = PTE_FLAGS (rd s pte);
          (p, s) \<leftarrow> kalloc s;
          if p = 0 then Some (False, s)
          else do {
            let s = s\<lparr>mem := memmove (mem s) p (P2V pa) PGSIZE\<rparr>;
            (r, s) \<leftarrow> mappages d i PGSIZE (V2P p) flags s;
            if r < 0 then Some (False, s) else f pd d sz (i + PGSIZE) s } } }
      else Some (True, s)) = Some y"
  show "pg_refcount (snd y) = pg_refcount s"
  proof (cases "i < sz")
    case True
    then obtain pte s1 p s2 where a: "walkpgdir pd i False s = Some (pte, s1)" "kalloc s1 = Some (p, s2)"
      using y by (auto simp: bind_eq_Some_conv Let_def split: if_splits)
    let ?s3 = "s2\<lparr>mem := memmove (mem s2) p (P2V (PTE_ADDR (rd s1 pte))) PGSIZE\<rparr>"
    let ?m = "mappages d i PGSIZE (V2P p) (PTE_FLAGS (rd s1 pte)) ?s3"
    have c: "pg_refcount s2 = pg_refcount s" using walkpgdir_counts [OF a(1)] kalloc_counts [OF a(2)] by simp
    have m: "pg_refcount t = pg_refcount s" if "?m = Some (r, t)" for r t using mappages_counts [OF that] c by simp
    have "y = (False, s2) \<or> (\<exists>r t. ?m = Some (r, t) \<and> (y = (False, t) \<or> f pd d sz (i + PGSIZE) t = Some y))"
      using y True a by (auto simp: bind_eq_Some_conv Let_def split: if_splits)
    then show ?thesis using c m IH by (metis snd_conv)
  qed (use y in auto)
qed



section \<open>Example machines\<close>

text \<open>\<open>boot_example\<close> has four free pages and no address space; \<open>dir_example\<close> has one empty
  address space, in \<open>user_example\<close> it has grown to one page, and in \<open>ro_example\<close> that page has lost
  its write permission.\<close>

definition boot_example :: "unit vm_scheme" where
  "boot_example = \<lparr>held = [],
     mem = store32 (store32 (store32 (\<lambda>_. 0) 0x80400000 0x80401000) 0x80401000 0x80402000) 0x80402000 0x80403000,
     kend = 0x80400000, use_lock = False, freelist = 0x80400000, pg_refcount = (\<lambda>_. 0), kpgdir = 0, kdata = 0x80108000,
     cr3 = 0, gdt = [], ts = \<lparr>esp0 = 0, ss0 = 0, iomb = 0\<rparr>, ts_addr = 0, tr = 0\<rparr>"

lemma boot_example_inv: "uvm_inv boot_example [0x80400000, 0x80401000, 0x80402000, 0x80403000] {}"
proof -
  have "kmem_inv boot_example [0x80400000, 0x80401000, 0x80402000, 0x80403000]"
    by (simp add: kmem_inv_def boot_example_def kpage_def page_aligned_def V2P_def layout_defs aligned4_def) (simp add: load32_def)
  then show ?thesis
    by (simp add: uvm_inv_def pt_inv_def cow_ok_def cow_alloc_def cow_inj_def cow_refs_def cow_excl_def users_def refs_def)
      (simp add: boot_example_def layout_defs)
qed

definition dir_example :: "unit vm_scheme" where
  "dir_example = boot_example\<lparr>freelist := load32 (mem boot_example) 0x80400000, mem := memset (mem boot_example) 0x80400000 0 PGSIZE\<rparr>"

lemma dir_example_inv: "uvm_inv dir_example [0x80401000, 0x80402000, 0x80403000] {0x80400000}"
  by (rule uvm_new_directory(1) [OF boot_example_inv]) (simp_all add: dir_example_def)

lemma dir_example_empty: "lookup (mem dir_example) 0x80400000 va = 0"
  by (rule new_directory(2) [OF uvm_invD(1) [OF boot_example_inv]]) (simp add: dir_example_def)

definition user_example :: "unit vm_scheme" where
  "user_example = snd (the (allocuvm 0x80400000 0 PGSIZE dir_example))"

lemma first_page: "PGROUNDDOWN va = 0 \<longleftrightarrow> va < PGSIZE"
proof -
  have "page_aligned (PGROUNDDOWN va)" by simp
  then have "4096 dvd unat (PGROUNDDOWN va)" by (simp only: page_aligned_unat)
  then have "unat (PGROUNDDOWN va) < 4096 \<longleftrightarrow> PGROUNDDOWN va = 0" by (auto simp: unat_eq_zero dest: nat_dvd_not_less)
  moreover have "unat (PGROUNDDOWN va) < 4096 \<longleftrightarrow> unat va < 4096" using page_range_iff [of 0 1 va] by (simp add: page_aligned_def)
  ultimately show ?thesis by (simp add: PGSIZE_def word_less_nat_alt)
qed

lemma user_example_facts:
  obtains fl where "allocuvm 0x80400000 0 PGSIZE dir_example = Some (PGSIZE, user_example)"
    and "uvm_inv user_example fl {0x80400000}"
    and "\<And>va. uview user_example 0x80400000 va = (if va < PGSIZE then Some 0 else None)"
    and "\<And>va. lookup (mem user_example) 0x80400000 va =
      (if va < PGSIZE then V2P (frame (lookup (mem user_example) 0x80400000 0)) OR (PTE_W OR PTE_U) OR PTE_P else 0)"
    and "layout_ok user_example"
proof -
  let ?pd = "0x80400000 :: u32" let ?p = "0x80401000 :: u32" let ?s = dir_example
  define s2 where "s2 = ?s\<lparr>freelist := load32 (mem ?s) ?p, mem := memset (mem ?s) ?p 0 PGSIZE\<rparr>"
  have np: "\<not> present (lookup (mem ?s) ?pd 0)" by (simp add: dir_example_empty)
  have uv: "uview ?s ?pd va = None" for va by (simp add: uview_def umap_def dir_example_empty)
  have al: "page_aligned (0 :: u32)" "(0 :: u32) < KERNBASE" by (simp_all add: page_aligned_def KERNBASE_def)
  show thesis
  proof (rule alloc_round [OF dir_example_inv _ al np s2_def])
    fix t e fl'
    assume t: "mappages ?pd 0 PGSIZE (V2P ?p) (PTE_W OR PTE_U) s2 = Some (0, t)"
      "add_refcount (V2P ?p) 1 t = Some (ref_upd ?p 1 t)" "uvm_inv (ref_upd ?p 1 t) fl' {?pd}"
      "others_same ?s (ref_upd ?p 1 t) {?pd} ?pd"
      and l: "\<And>va. lookup (mem t) ?pd va = (if PGROUNDDOWN va = 0 then e else lookup (mem ?s) ?pd va)"
      and v: "\<And>va. uview (ref_upd ?p 1 t) ?pd va = (if PGROUNDDOWN va = 0 then Some 0 else uview ?s ?pd va)"
      and e: "e = V2P (frame e) OR (PTE_W OR PTE_U) OR PTE_P"
    have "allocuvm_loop ?pd 0 PGSIZE 0 ?s = allocuvm_loop ?pd 0 PGSIZE PGSIZE (ref_upd ?p 1 t)"
      using t uvm_pop(1) [OF dir_example_inv]
      by (subst allocuvm_loop.simps) (simp add: s2_def Let_def PGSIZE_def)
    also have "\<dots> = Some (PGSIZE, ref_upd ?p 1 t)" by (subst allocuvm_loop.simps) simp
    finally have al: "allocuvm ?pd 0 PGSIZE ?s = Some (PGSIZE, ref_upd ?p 1 t)"
      by (simp add: allocuvm_def PGROUNDUP_def PGSIZE_def KERNBASE_def)
    then have u: "user_example = ref_upd ?p 1 t" by (simp add: user_example_def)
    have l0: "lookup (mem user_example) ?pd va = (if va < PGSIZE then e else 0)" for va
      using l [of va] by (simp add: u first_page dir_example_empty)
    have "only_vm ?s user_example" using t(4) by (simp add: u others_same_def)
    then have "kdata user_example = 0x80108000" by (simp add: only_vmD(5) dir_example_def boot_example_def)
    then have lay: "layout_ok user_example" by (simp add: layout_ok_def page_aligned_def layout_defs P2V_def)
    show thesis
      by (rule that [of fl']) (use al t(3) v e l0 uv lay in \<open>simp_all add: u first_page\<close>, simp add: PGSIZE_def)
  qed simp_all
qed

lemma user_example_page:
  "user_page user_example 0x80400000 va \<longleftrightarrow> va < PGSIZE"
  "va < PGSIZE \<Longrightarrow> writable (lookup (mem user_example) 0x80400000 va)"
proof -
  let ?pd = "0x80400000 :: u32"
  obtain fl where l: "\<And>va. lookup (mem user_example) ?pd va =
      (if va < PGSIZE then V2P (frame (lookup (mem user_example) ?pd 0)) OR (PTE_W OR PTE_U) OR PTE_P else 0)"
    by (rule user_example_facts) blast
  have k: "va < KERNBASE" if "va < PGSIZE" for va :: u32 using that by (simp add: PGSIZE_def KERNBASE_def word_less_nat_alt)
  show "user_page user_example ?pd va \<longleftrightarrow> va < PGSIZE"
    using k unfolding user_page_def by (subst (1 2) l) (auto simp: or_AND_flag PTE_defs)
  show "va < PGSIZE \<Longrightarrow> writable (lookup (mem user_example) ?pd va)"
    by (subst l) (simp add: or_AND_flag PTE_defs)
qed


text \<open>The page of \<open>user_example\<close> without its write permission.\<close>

definition ro_example :: "unit vm_scheme" where
  "ro_example = wr (pte_addr (mem user_example) 0x80400000 0) (lookup (mem user_example) 0x80400000 0 AND NOT PTE_W) user_example"

lemma ro_example_facts:
  obtains fl where "uvm_inv ro_example fl {0x80400000}" and "user_page ro_example 0x80400000 0"
    and "user_store 0x80400000 0 7 ro_example = None" and "uview ro_example 0x80400000 = uview user_example 0x80400000"
proof -
  let ?pd = "0x80400000 :: u32" let ?e = "lookup (mem user_example) ?pd 0"
  obtain fl where inv: "uvm_inv user_example fl {?pd}" by (rule user_example_facts) blast
  have up: "present ?e" "?e AND PTE_U \<noteq> 0" using user_example_page(1) [of 0] by (simp_all add: user_page_def PGSIZE_def)
  have a: "page_aligned (0 :: u32)" "(0 :: u32) < KERNBASE" by (simp_all add: page_aligned_def KERNBASE_def)
  have e: "present (?e AND NOT PTE_W)" "frame (?e AND NOT PTE_W) = frame ?e" "\<not> writable (?e AND NOT PTE_W)"
    using up by (simp_all add: flag_bits)
  note sf = set_ro_flags [OF inv _ a up(1) e ro_example_def]
  have l: "lookup (mem ro_example) ?pd 0 = ?e AND NOT PTE_W" using sf(2) by (simp add: upd_entry_apply page_aligned_def PGROUNDDOWN_def)
  show thesis
    by (rule that [of fl]) (use sf up a e in \<open>auto simp: user_page_def l flag_bits user_store_None\<close>)
qed

theorem pagefault_correct_witness:
  "\<exists>t. pagefault (Some 0x80400000) 0 ro_example = Some (False, t) \<and> writable (lookup (mem t) 0x80400000 0) \<and>
     uview t 0x80400000 0 = Some 0"
proof -
  let ?pd = "0x80400000 :: u32"
  obtain fl where r: "uvm_inv ro_example fl {?pd}" "user_page ro_example ?pd 0" "user_store ?pd 0 7 ro_example = None"
      "uview ro_example ?pd = uview user_example ?pd" by (rule ro_example_facts)
  have "uview user_example ?pd 0 = Some 0" by (rule user_example_facts) (simp add: PGSIZE_def)
  moreover have "\<not> page_shared ro_example {?pd} ?pd 0" by (simp add: page_shared_def)
  ultimately show ?thesis using pagefault_correct [OF r(1) _ r(3)] r(2,4) by fastforce
qed

lemma user_example_mapped: "page_in 0 PGSIZE va \<Longrightarrow> present (lookup (mem user_example) 0x80400000 va)"
  using user_example_page(1) [of va] first_page [of va] first_page [of "PGROUNDDOWN va"]
  by (simp add: page_in_def user_page_def)

theorem copyuvmcow_correct_witness:
  "\<exists>d t. copyuvmcow 0x80400000 PGSIZE user_example = Some (d, t) \<and> uview t 0x80400000 0 = Some 0 \<and>
     (d = 0 \<or> uview t d 0 = Some 0)"
proof -
  let ?pd = "0x80400000 :: u32"
  obtain fl where u: "uvm_inv user_example fl {?pd}" "layout_ok user_example" "uview user_example ?pd 0 = Some 0"
    by (rule user_example_facts) (auto simp: PGSIZE_def)
  have "page_in 0 PGSIZE 0" by (simp add: page_in_def PGSIZE_def PGROUNDDOWN_def)
  moreover have "PGSIZE \<le> KERNBASE" by (simp add: PGSIZE_def KERNBASE_def)
  ultimately show ?thesis
    using copyuvmcow_correct [OF u(1,2), of ?pd PGSIZE] user_example_mapped u(3) by (fastforce split: if_splits)
qed

theorem allocuvm_correct_witness:
  "\<exists>r t. allocuvm 0x80400000 0 PGSIZE dir_example = Some (r, t) \<and>
     (r = PGSIZE \<and> uview t 0x80400000 0 = Some 0 \<or> r = 0 \<and> \<not> present (lookup (mem t) 0x80400000 0))"
proof -
  have "page_in (PGROUNDUP 0) PGSIZE 0" by (simp add: page_in_def PGSIZE_def PGROUNDDOWN_def PGROUNDUP_def)
  then show ?thesis
    using allocuvm_correct [OF dir_example_inv, of "0x80400000" 0 PGSIZE] dir_example_empty
    by (fastforce simp: grew_def cut_def PGSIZE_def KERNBASE_def)
qed





end
