(* ===== verification/Pipe.thy ===== *)
theory Pipe
  imports Spinlock
begin

text \<open>
  Pipes, \<^verbatim>\<open>src/xv6/pipe.c\<close>. A pipe is a ring of 512 bytes with two free running 32-bit counters
  that wrap around. \<open>pipewrite\<close> and \<open>piperead\<close> hold the lock of the pipe except while they
  sleep, so what a thread does from one sleep to the next is one atomic segment: a function from
  the pipe to the pipe, the new state of the thread and the wakeups it makes. \<open>pipe_step\<close> interleaves
  any number of threads that write, read, close and kill each other. The bounded queue contract of the ring
  is the locale \<open>bounded_queue\<close>.
\<close>

section \<open>The ring\<close>

definition PIPESIZE :: u32 where "PIPESIZE = 512"

record pipe =
  pdata :: "u8 list"
  nread :: u32
  nwrite :: u32
  readopen :: bool
  writeopen :: bool

text \<open>The part of \<open>pipealloc\<close> that fills in the fresh pipe; the page it lives in holds junk.\<close>

definition pipe_init :: "u8 list \<Rightarrow> pipe" where
  "pipe_init junk = \<lparr>pdata = junk, nread = 0, nwrite = 0, readopen = True, writeopen = True\<rparr>"

definition pipe_full :: "pipe \<Rightarrow> bool" where
  "pipe_full p \<longleftrightarrow> nwrite p = nread p + PIPESIZE"

definition pipe_put :: "u8 \<Rightarrow> pipe \<Rightarrow> pipe" where
  "pipe_put b p = p\<lparr>pdata := (pdata p)[unat (nwrite p mod PIPESIZE) := b], nwrite := nwrite p + 1\<rparr>"

definition pipe_get :: "pipe \<Rightarrow> u8 \<times> pipe" where
  "pipe_get p = (pdata p ! unat (nread p mod PIPESIZE), p\<lparr>nread := nread p + 1\<rparr>)"

section \<open>Threads that use the pipe\<close>

datatype pthread =
    PIdle
  | PWriting "u8 list" int | PWriteSleep "u8 list" int | PWriteRet int
  | PReading nat | PReadSleep nat | PReadRet int "u8 list"

text \<open>The loop of \<open>pipewrite\<close> from its start or from a wakeup: the bytes left and the value it
  returns in the end. The last component says whether sleeping readers are woken.\<close>

fun pipewrite :: "bool \<Rightarrow> u8 list \<Rightarrow> int \<Rightarrow> pipe \<Rightarrow> pthread \<times> pipe \<times> bool" where
  "pipewrite killed [] n p = (PWriteRet n, p, True)"
| "pipewrite killed (b # bs) n p =
     (if pipe_full p then
        if \<not> readopen p \<or> killed then (PWriteRet (-1), p, False)
        else (PWriteSleep (b # bs) n, p, True)
      else pipewrite killed bs n (pipe_put b p))"

fun piperead_copy :: "nat \<Rightarrow> pipe \<Rightarrow> u8 list \<times> pipe" where
  "piperead_copy 0 p = ([], p)"
| "piperead_copy (Suc n) p =
     (if nread p = nwrite p then ([], p)
      else let (b, p) = pipe_get p; (bs, p) = piperead_copy n p in (b # bs, p))"

text \<open>\<open>piperead\<close>; the last component says whether sleeping writers are woken.\<close>

definition piperead :: "bool \<Rightarrow> nat \<Rightarrow> pipe \<Rightarrow> pthread \<times> pipe \<times> bool" where
  "piperead killed n p =
     (if nread p = nwrite p \<and> writeopen p then
        if killed then (PReadRet (-1) [], p, False) else (PReadSleep n, p, False)
      else let (bs, p) = piperead_copy n p in (PReadRet (int (length bs)) bs, p, True))"

text \<open>\<open>pipeclose\<close>: the pipe afterwards, and whether its page is freed.\<close>

definition pipeclose :: "bool \<Rightarrow> pipe \<Rightarrow> pipe \<times> bool" where
  "pipeclose wr p =
     (let p = (if wr then p\<lparr>writeopen := False\<rparr> else p\<lparr>readopen := False\<rparr>) in
      (p, \<not> readopen p \<and> \<not> writeopen p))"

section \<open>All threads together\<close>

record psys =
  pip :: pipe
  thr :: "nat \<Rightarrow> pthread"
  killed :: "nat set"
  sent :: "u8 list"
  received :: "u8 list"

text \<open>\<open>wakeup\<close> on the channels \<^verbatim>\<open>&p->nread\<close> and \<^verbatim>\<open>&p->nwrite\<close>.\<close>

fun wake_reader :: "pthread \<Rightarrow> pthread" where
  "wake_reader (PReadSleep n) = PReading n"
| "wake_reader x = x"

fun wake_writer :: "pthread \<Rightarrow> pthread" where
  "wake_writer (PWriteSleep bs n) = PWriting bs n"
| "wake_writer x = x"

definition wakeup_readers :: "bool \<Rightarrow> (nat \<Rightarrow> pthread) \<Rightarrow> nat \<Rightarrow> pthread" where
  "wakeup_readers w f = (if w then wake_reader \<circ> f else f)"

definition wakeup_writers :: "bool \<Rightarrow> (nat \<Rightarrow> pthread) \<Rightarrow> nat \<Rightarrow> pthread" where
  "wakeup_writers w f = (if w then wake_writer \<circ> f else f)"

fun writes :: "pthread \<Rightarrow> bool" where
  "writes (PWriting bs n) = True"
| "writes (PWriteSleep bs n) = True"
| "writes _ = False"

fun reads :: "pthread \<Rightarrow> bool" where
  "reads (PReading n) = True"
| "reads (PReadSleep n) = True"
| "reads _ = False"

text \<open>The free bytes of the ring.\<close>

definition room :: "pipe \<Rightarrow> nat" where
  "room p = 512 - unat (nwrite p - nread p)"

inductive pipe_step :: "psys \<Rightarrow> psys \<Rightarrow> bool" where
  call_write: "\<not> writes (thr s t) \<Longrightarrow> \<not> reads (thr s t) \<Longrightarrow> writeopen (pip s) \<Longrightarrow>
     pipe_step s (s\<lparr>thr := (thr s)(t := PWriting bs (int (length bs)))\<rparr>)"
| call_read: "\<not> writes (thr s t) \<Longrightarrow> \<not> reads (thr s t) \<Longrightarrow> readopen (pip s) \<Longrightarrow>
     pipe_step s (s\<lparr>thr := (thr s)(t := PReading n)\<rparr>)"
| run_write: "thr s t = PWriting bs n \<Longrightarrow> pipewrite (t \<in> killed s) bs n (pip s) = (th, p, w) \<Longrightarrow>
     pipe_step s (s\<lparr>pip := p, thr := (wakeup_readers w (thr s))(t := th),
       sent := sent s @ take (room (pip s)) bs\<rparr>)"
| run_read: "thr s t = PReading n \<Longrightarrow> piperead (t \<in> killed s) n (pip s) = (th, p, w) \<Longrightarrow>
     pipe_step s (s\<lparr>pip := p, thr := (wakeup_writers w (thr s))(t := th),
       received := received s @ (case th of PReadRet r bs \<Rightarrow> bs | _ \<Rightarrow> [])\<rparr>)"
| close_write: "(\<forall>t. \<not> writes (thr s t)) \<Longrightarrow> writeopen (pip s) \<Longrightarrow>
     pipe_step s (s\<lparr>pip := fst (pipeclose True (pip s)), thr := wakeup_readers True (thr s)\<rparr>)"
| close_read: "(\<forall>t. \<not> reads (thr s t)) \<Longrightarrow> readopen (pip s) \<Longrightarrow>
     pipe_step s (s\<lparr>pip := fst (pipeclose False (pip s)), thr := wakeup_writers True (thr s)\<rparr>)"
| kill: "pipe_step s (s\<lparr>killed := insert t (killed s), thr := (thr s)(t := wake_reader (wake_writer (thr s t)))\<rparr>)"

definition psys_init :: "u8 list \<Rightarrow> psys" where
  "psys_init junk = \<lparr>pip = pipe_init junk, thr = (\<lambda>_. PIdle), killed = {}, sent = [], received = []\<rparr>"

inductive pipe_reachable :: "psys \<Rightarrow> bool" where
  init: "length junk = 512 \<Longrightarrow> pipe_reachable (psys_init junk)"
| step: "pipe_reachable s \<Longrightarrow> pipe_step s t \<Longrightarrow> pipe_reachable t"

section \<open>Bounded queues\<close>

locale bounded_queue =
  fixes inv :: "'s \<Rightarrow> bool" and q :: "'s \<Rightarrow> 'a list" and cap :: nat
    and full :: "'s \<Rightarrow> bool" and empt :: "'s \<Rightarrow> bool" and put :: "'a \<Rightarrow> 's \<Rightarrow> 's" and get :: "'s \<Rightarrow> 'a \<times> 's"
  assumes bounded: "inv s \<Longrightarrow> length (q s) \<le> cap"
    and full_iff: "inv s \<Longrightarrow> full s \<longleftrightarrow> length (q s) = cap"
    and empty_iff: "inv s \<Longrightarrow> empt s \<longleftrightarrow> q s = []"
    and put_law: "inv s \<Longrightarrow> length (q s) < cap \<Longrightarrow> inv (put x s) \<and> q (put x s) = q s @ [x]"
    and get_law: "inv s \<Longrightarrow> q s \<noteq> [] \<Longrightarrow> inv (snd (get s)) \<and> q s = fst (get s) # q (snd (get s))"
begin

fun put_many :: "'a list \<Rightarrow> 's \<Rightarrow> 'a list \<times> 's" where
  "put_many [] s = ([], s)"
| "put_many (x # xs) s = (if full s then (x # xs, s) else put_many xs (put x s))"

fun get_many :: "nat \<Rightarrow> 's \<Rightarrow> 'a list \<times> 's" where
  "get_many 0 s = ([], s)"
| "get_many (Suc n) s =
     (if empt s then ([], s) else let (x, s) = get s; (xs, s) = get_many n s in (x # xs, s))"

lemma put_many_spec:
  assumes "inv s" and "put_many xs s = (r, t)"
  shows "inv t \<and> q t = q s @ take (cap - length (q s)) xs \<and> r = drop (cap - length (q s)) xs"
  using assms
proof (induction xs s arbitrary: r t rule: put_many.induct)
  case (2 x xs s)
  show ?case
  proof (cases "full s")
    case True
    with 2 show ?thesis by (simp add: full_iff)
  next
    case False
    with 2(2) have lt: "length (q s) < cap" using bounded [of s] full_iff [of s] by simp
    note p = put_law [OF 2(2) lt, of x]
    have "cap - length (q s) = Suc (cap - length (q (put x s)))" using p lt by simp
    then show ?thesis using 2 False p by simp
  qed
qed simp

lemma get_many_spec:
  assumes "inv s" and "get_many n s = (xs, t)"
  shows "inv t \<and> q s = xs @ q t \<and> length xs = min n (length (q s))"
  using assms
proof (induction n s arbitrary: xs t rule: get_many.induct)
  case (2 n s)
  show ?case
  proof (cases "empt s")
    case True
    with 2 show ?thesis by (simp add: empty_iff)
  next
    case False
    with 2(2) have ne: "q s \<noteq> []" by (simp add: empty_iff)
    note g = get_law [OF 2(2) ne]
    obtain ys where ys: "get_many n (snd (get s)) = (ys, t)" "xs = fst (get s) # ys"
      using 2(3) False by (cases "get s"; cases "get_many n (snd (get s))") simp
    have "inv t \<and> q (snd (get s)) = ys @ q t \<and> length ys = min n (length (q (snd (get s))))"
      by (rule 2(1) [OF False refl _ _ ys(1), of "fst (get s)"]) (use g in simp_all)
    then have IH: "inv t" "q (snd (get s)) = ys @ q t" "length ys = min n (length (q (snd (get s))))" by blast+
    have qs: "q s = fst (get s) # q (snd (get s))" using g by simp
    have "length xs = min (Suc n) (length (q s))" unfolding qs ys(2) by (simp add: IH(3))
    moreover have "q s = xs @ q t" unfolding qs ys(2) IH(2) by simp
    ultimately show ?thesis using IH(1) by simp
  qed
qed simp

end

section \<open>The ring is a bounded queue\<close>

definition pipe_inv :: "pipe \<Rightarrow> bool" where
  "pipe_inv p \<longleftrightarrow> length (pdata p) = 512 \<and> unat (nwrite p - nread p) \<le> 512"

definition pipe_queue :: "pipe \<Rightarrow> u8 list" where
  "pipe_queue p = map (\<lambda>i. pdata p ! unat ((nread p + of_nat i) mod PIPESIZE)) [0..<unat (nwrite p - nread p)]"

lemma unat_slot: "unat ((a :: u32) mod PIPESIZE) = unat a mod 512"
  by (simp add: PIPESIZE_def unat_mod)

lemma slot_less: "unat ((a :: u32) mod PIPESIZE) < 512"
  by (simp add: unat_slot)

lemma slot_add: "unat ((a + of_nat i) mod PIPESIZE) = (unat a + i) mod 512"
proof -
  have "unat (a + of_nat i) mod 512 = (unat a + i) mod 512"
    by (simp add: unat_word_ariths unat_of_nat mod_add_right_eq mod_mod_cancel)
  then show ?thesis by (simp add: unat_slot)
qed

lemma slot_inj:
  assumes "i < 512" "j < 512" and "(a + i) mod 512 = (a + j) mod (512 :: nat)"
  shows "i = j"
proof -
  have "x = y" if "x \<le> y" "y < 512" "(a + y) mod 512 = (a + x) mod 512" for x y
    using that mod_eq_dvd_iff_nat [of "a + x" "a + y" 512] by (auto dest: dvd_imp_le)
  then show ?thesis using assms by (metis nat_le_linear)
qed

lemma pipe_queue_nth: "i < unat (nwrite p - nread p) \<Longrightarrow> pipe_queue p ! i = pdata p ! ((unat (nread p) + i) mod 512)"
  by (simp add: pipe_queue_def slot_add)

lemma pipe_queue_length [simp]: "length (pipe_queue p) = unat (nwrite p - nread p)"
  by (simp add: pipe_queue_def)

lemma pipe_put_queue:
  assumes "pipe_inv p" and "length (pipe_queue p) < 512"
  shows "pipe_inv (pipe_put b p)" and "pipe_queue (pipe_put b p) = pipe_queue p @ [b]"
proof -
  let ?n = "unat (nwrite p - nread p)"
  have lt: "?n < 512" and len: "length (pdata p) = 512" using assms by (simp_all add: pipe_inv_def)
  have e: "nwrite p + 1 - nread p = (nwrite p - nread p) + 1" by simp
  have n: "unat (nwrite p + 1 - nread p) = Suc ?n" unfolding e using lt by (simp add: unat_word_ariths)
  then show "pipe_inv (pipe_put b p)" using lt len by (simp add: pipe_inv_def pipe_put_def)
  have w: "unat (nwrite p mod PIPESIZE) = (unat (nread p) + ?n) mod 512"
    using slot_add [of "nread p" ?n] by simp
  show "pipe_queue (pipe_put b p) = pipe_queue p @ [b]"
  proof (rule nth_equalityI)
    show "length (pipe_queue (pipe_put b p)) = length (pipe_queue p @ [b])" using n by (simp add: pipe_put_def)
    fix i assume "i < length (pipe_queue (pipe_put b p))"
    then have i: "i < Suc ?n" using n by (simp add: pipe_put_def)
    have "pipe_queue (pipe_put b p) ! i = (pdata p)[(unat (nread p) + ?n) mod 512 := b] ! ((unat (nread p) + i) mod 512)"
      using i n by (simp add: pipe_queue_nth pipe_put_def w)
    also have "\<dots> = (pipe_queue p @ [b]) ! i"
    proof (cases "i = ?n")
      case True
      then show ?thesis by (simp add: nth_append len)
    next
      case False
      with i have "i < ?n" by simp
      moreover have "(unat (nread p) + ?n) mod 512 \<noteq> (unat (nread p) + i) mod 512"
        using slot_inj [of ?n i "unat (nread p)"] lt \<open>i < ?n\<close> by auto
      ultimately show ?thesis by (simp add: nth_append pipe_queue_nth)
    qed
    finally show "pipe_queue (pipe_put b p) ! i = (pipe_queue p @ [b]) ! i" .
  qed
qed

lemma pipe_get_queue:
  assumes "pipe_inv p" and "pipe_queue p \<noteq> []"
  shows "pipe_inv (snd (pipe_get p))" and "pipe_queue p = fst (pipe_get p) # pipe_queue (snd (pipe_get p))"
proof -
  let ?n = "unat (nwrite p - nread p)"
  have pos: "0 < ?n" using assms(2) by (metis length_greater_0_conv pipe_queue_length)
  have e: "nwrite p - (nread p + 1) = (nwrite p - nread p) - 1" by simp
  have n: "unat (nwrite p - (nread p + 1)) = ?n - 1" unfolding e using pos by (simp add: unat_minus_one unat_gt_0)
  then show "pipe_inv (snd (pipe_get p))" using assms(1) by (auto simp: pipe_inv_def pipe_get_def)
  show "pipe_queue p = fst (pipe_get p) # pipe_queue (snd (pipe_get p))"
  proof (rule nth_equalityI)
    show "length (pipe_queue p) = length (fst (pipe_get p) # pipe_queue (snd (pipe_get p)))"
      using n pos by (simp add: pipe_get_def)
    fix i assume "i < length (pipe_queue p)"
    then have i: "i < ?n" by simp
    show "pipe_queue p ! i = (fst (pipe_get p) # pipe_queue (snd (pipe_get p))) ! i"
    proof (cases i)
      case 0
      then show ?thesis using i by (simp add: pipe_queue_nth pipe_get_def unat_slot)
    next
      case (Suc j)
      have "unat ((nread p + 1 + of_nat j) mod PIPESIZE) = (unat (nread p) + i) mod 512"
        using slot_add [of "nread p" "Suc j"] by (simp add: Suc add.assoc)
      moreover have "j < unat (nwrite (snd (pipe_get p)) - nread (snd (pipe_get p)))" using i n Suc by (simp add: pipe_get_def)
      then have "pipe_queue (snd (pipe_get p)) ! j = pdata p ! unat ((nread p + 1 + of_nat j) mod PIPESIZE)"
        by (simp add: pipe_queue_def pipe_get_def)
      ultimately show ?thesis using Suc pipe_queue_nth [OF i] by simp
    qed
  qed
qed

lemma pipe_full_iff:
  assumes "pipe_inv p"
  shows "pipe_full p \<longleftrightarrow> length (pipe_queue p) = 512"
proof -
  have "nwrite p = nread p + PIPESIZE \<longleftrightarrow> nwrite p - nread p = PIPESIZE" by (auto simp: algebra_simps)
  then show ?thesis by (simp add: pipe_full_def PIPESIZE_def word_unat_eq_iff)
qed

lemma pipe_empty_iff: "nread p = nwrite p \<longleftrightarrow> pipe_queue p = []"
  by (simp add: pipe_queue_def unat_eq_zero) (auto simp: algebra_simps)

interpretation ring: bounded_queue pipe_inv pipe_queue 512 pipe_full "\<lambda>p. nread p = nwrite p" pipe_put pipe_get
proof unfold_locales
  fix p :: pipe and b
  assume inv: "pipe_inv p"
  show "length (pipe_queue p) \<le> 512" using inv by (simp add: pipe_inv_def)
  show "pipe_full p \<longleftrightarrow> length (pipe_queue p) = 512" by (rule pipe_full_iff [OF inv])
  show "nread p = nwrite p \<longleftrightarrow> pipe_queue p = []" by (rule pipe_empty_iff)
  show "length (pipe_queue p) < 512 \<Longrightarrow> pipe_inv (pipe_put b p) \<and> pipe_queue (pipe_put b p) = pipe_queue p @ [b]"
    using pipe_put_queue [OF inv] by simp
  show "pipe_queue p \<noteq> [] \<Longrightarrow> pipe_inv (snd (pipe_get p)) \<and> pipe_queue p = fst (pipe_get p) # pipe_queue (snd (pipe_get p))"
    using pipe_get_queue [OF inv] by blast
qed

section \<open>What the threads do to the queue\<close>

lemma room_queue: "room p = 512 - length (pipe_queue p)"
  by (simp add: room_def)

lemma pipe_put_open [simp]: "readopen (pipe_put b p) = readopen p" "writeopen (pipe_put b p) = writeopen p"
  by (simp_all add: pipe_put_def)

lemma pipewrite_run:
  "pipewrite k bs n p =
     (let (r, p') = ring.put_many bs p in
      if r = [] then (PWriteRet n, p', True)
      else if \<not> readopen p \<or> k then (PWriteRet (-1), p', False)
      else (PWriteSleep r n, p', True))"
  by (induction bs arbitrary: p) (auto simp: Let_def split: prod.splits)

lemma put_many_open: "ring.put_many bs p = (r, p') \<Longrightarrow> readopen p' = readopen p \<and> writeopen p' = writeopen p"
  by (induction bs arbitrary: p) (auto split: if_splits)

lemma pipewrite_spec:
  assumes "pipe_inv p" and "pipewrite k bs n p = (th, p', w)"
  shows "pipe_inv p'" and "pipe_queue p' = pipe_queue p @ take (room p) bs"
    and "readopen p' = readopen p" and "writeopen p' = writeopen p"
    and "th = (if length bs \<le> room p then PWriteRet n else if \<not> readopen p \<or> k then PWriteRet (-1) else PWriteSleep (drop (room p) bs) n)"
    and "w \<longleftrightarrow> length bs \<le> room p \<or> readopen p \<and> \<not> k"
proof -
  obtain r where r: "ring.put_many bs p = (r, p')" using assms(2) by (auto simp: pipewrite_run Let_def split: prod.splits if_splits)
  note s = ring.put_many_spec [OF assms(1) r] and opn = put_many_open [OF r]
  show "pipe_inv p'" "pipe_queue p' = pipe_queue p @ take (room p) bs" using s by (simp_all add: room_def)
  show "readopen p' = readopen p" "writeopen p' = writeopen p" using opn by simp_all
  have rr: "r = drop (room p) bs" using s by (simp add: room_def)
  show "th = (if length bs \<le> room p then PWriteRet n else if \<not> readopen p \<or> k then PWriteRet (-1) else PWriteSleep (drop (room p) bs) n)"
    "w \<longleftrightarrow> length bs \<le> room p \<or> readopen p \<and> \<not> k"
    using assms(2) by (auto simp: pipewrite_run r rr split: if_splits)
qed

lemma piperead_copy_run: "piperead_copy n p = ring.get_many n p"
  by (induction n p rule: piperead_copy.induct) (auto simp: Let_def split: prod.splits)

lemma get_many_open: "ring.get_many n p = (bs, p') \<Longrightarrow> readopen p' = readopen p \<and> writeopen p' = writeopen p"
proof (induction n arbitrary: p bs p')
  case (Suc n)
  obtain ys p2 where g: "ring.get_many n (snd (pipe_get p)) = (ys, p2)" by (cases "ring.get_many n (snd (pipe_get p))")
  have "readopen (snd (pipe_get p)) = readopen p" "writeopen (snd (pipe_get p)) = writeopen p" by (simp_all add: pipe_get_def)
  then show ?case using Suc.IH [OF g] Suc.prems g by (cases "pipe_get p") (auto split: if_splits)
qed simp

lemma piperead_spec:
  assumes "pipe_inv p" and "piperead k n p = (th, p', w)"
  shows "pipe_inv p'" and "readopen p' = readopen p" and "writeopen p' = writeopen p"
    and "pipe_queue p = [] \<and> writeopen p \<Longrightarrow> p' = p \<and> \<not> w \<and> th = (if k then PReadRet (-1) [] else PReadSleep n)"
    and "\<not> (pipe_queue p = [] \<and> writeopen p) \<Longrightarrow> w \<and> th = PReadRet (int (min n (length (pipe_queue p)))) (take n (pipe_queue p)) \<and>
      pipe_queue p' = drop n (pipe_queue p)"
proof -
  obtain bs p2 where g: "piperead_copy n p = (bs, p2)" by (cases "piperead_copy n p")
  note s = ring.get_many_spec [OF assms(1) g [unfolded piperead_copy_run]]
  note opn = get_many_open [OF g [unfolded piperead_copy_run]]
  have len: "length bs = min n (length (pipe_queue p))" and inv2: "pipe_inv p2" using s by blast+
  have b: "bs = take n (pipe_queue p)" "pipe_queue p2 = drop n (pipe_queue p)"
    using s by (metis append_eq_conv_conj append_take_drop_id length_take min.commute)+
  show "pipe_inv p'" "readopen p' = readopen p" "writeopen p' = writeopen p"
    using assms inv2 opn g by (auto simp: piperead_def split: if_splits)
  show "p' = p \<and> \<not> w \<and> th = (if k then PReadRet (-1) [] else PReadSleep n)" if "pipe_queue p = [] \<and> writeopen p"
    using assms(2) that by (auto simp: piperead_def pipe_empty_iff split: if_splits)
  show "w \<and> th = PReadRet (int (min n (length (pipe_queue p)))) (take n (pipe_queue p)) \<and> pipe_queue p' = drop n (pipe_queue p)"
    if "\<not> (pipe_queue p = [] \<and> writeopen p)"
    using assms(2) that g b len by (auto simp: piperead_def pipe_empty_iff split: if_splits)
qed

section \<open>All interleavings\<close>

text \<open>What is in the ring is what was sent and not yet received; a sleeping writer has no room and someone
  to read, and, unless a killed writer gave up, a sleeping reader has nothing to read and someone to write.\<close>

definition psys_inv :: "psys \<Rightarrow> bool" where
  "psys_inv s \<longleftrightarrow> pipe_inv (pip s) \<and> sent s = received s @ pipe_queue (pip s) \<and>
     (\<forall>t bs n. thr s t = PWriteSleep bs n \<longrightarrow> pipe_full (pip s) \<and> readopen (pip s) \<and> bs \<noteq> []) \<and>
     (\<forall>t. reads (thr s t) \<longrightarrow> readopen (pip s))"

definition readers_inv :: "psys \<Rightarrow> bool" where
  "readers_inv s \<longleftrightarrow> (\<forall>t n. thr s t = PReadSleep n \<longrightarrow> pipe_queue (pip s) = [] \<and> writeopen (pip s))"

lemma wake_sleep [simp]:
  "wakeup_readers w f t = PWriteSleep bs n \<longleftrightarrow> f t = PWriteSleep bs n"
  "wakeup_writers w f t = PReadSleep m \<longleftrightarrow> f t = PReadSleep m"
  "wakeup_readers True f t \<noteq> PReadSleep m" "wakeup_writers True f t \<noteq> PWriteSleep bs n"
  "wakeup_readers False f = f" "wakeup_writers False f = f"
  "wake_reader (wake_writer x) \<noteq> PReadSleep m" "wake_reader (wake_writer x) \<noteq> PWriteSleep bs n"
  by (cases "f t"; cases x; simp add: wakeup_readers_def wakeup_writers_def)+

lemma wake_reads [simp]: "reads (wakeup_readers w f t) = reads (f t)" "reads (wakeup_writers w f t) = reads (f t)"
  "reads (wake_reader (wake_writer x)) = reads x"
  by (cases "f t"; cases x; simp add: wakeup_readers_def wakeup_writers_def)+

lemma pipe_queue_open [simp]: "pipe_queue (fst (pipeclose w p)) = pipe_queue p" "pipe_inv (fst (pipeclose w p)) = pipe_inv p"
  "pipe_full (fst (pipeclose w p)) = pipe_full p" "readopen (fst (pipeclose w p)) = (readopen p \<and> w)"
  "writeopen (fst (pipeclose w p)) = (writeopen p \<and> \<not> w)"
  by (simp_all add: pipeclose_def Let_def pipe_queue_def pipe_inv_def pipe_full_def)

lemma psys_inv_step:
  assumes inv: "psys_inv s" and st: "pipe_step s s'"
  shows "psys_inv s'"
  using st
proof cases
  case (run_write t bs n th p w)
  have pi: "pipe_inv (pip s)" using inv by (simp add: psys_inv_def)
  note sp = pipewrite_spec [OF pi run_write(3)]
  have full: "pipe_full p" if "\<not> length bs \<le> room (pip s)"
    using that sp(2) pi by (simp add: pipe_full_iff [OF sp(1)] room_def pipe_inv_def)
  have old: "pipe_full (pip s) \<Longrightarrow> pipe_full p"
    using sp(2) by (simp add: pipe_full_iff [OF sp(1)] pipe_full_iff [OF pi] room_def)
  show ?thesis
    using inv sp full old unfolding run_write(1) psys_inv_def by (auto split: if_splits)
next
  case (run_read t n th p w)
  have pi: "pipe_inv (pip s)" using inv by (simp add: psys_inv_def)
  note sp = piperead_spec [OF pi run_read(3)]
  show ?thesis
  proof (cases "pipe_queue (pip s) = [] \<and> writeopen (pip s)")
    case True
    have "readopen (pip s)" using inv run_read(2) unfolding psys_inv_def by (metis reads.simps(1))
    then show ?thesis using inv sp(4) True unfolding run_read(1) psys_inv_def by (auto split: if_splits)
  next
    case False
    then show ?thesis using inv sp unfolding run_read(1) psys_inv_def by auto
  qed
qed (use inv in \<open>auto simp: psys_inv_def\<close>)

lemma readers_inv_step:
  assumes pi: "psys_inv s" and inv: "readers_inv s" and st: "pipe_step s s'" and nk: "killed s = {}"
  shows "readers_inv s'"
  using st
proof cases
  case (run_write t bs n th p w)
  have p: "pipe_inv (pip s)" using pi by (simp add: psys_inv_def)
  note sp = pipewrite_spec [OF p run_write(3)]
  have full: "length bs \<le> room (pip s) \<or> readopen (pip s)" if "thr s u = PReadSleep m" for u m
    using pi that unfolding psys_inv_def by (metis reads.simps(2))
  show ?thesis using inv sp full nk unfolding run_write(1) readers_inv_def by (auto split: if_splits)
next
  case (run_read t n th p w)
  have p: "pipe_inv (pip s)" using pi by (simp add: psys_inv_def)
  note sp = piperead_spec [OF p run_read(3)]
  show ?thesis
  proof (cases "pipe_queue (pip s) = [] \<and> writeopen (pip s)")
    case True
    then show ?thesis using inv sp(4) unfolding run_read(1) readers_inv_def by (auto split: if_splits)
  next
    case False
    then show ?thesis using inv sp unfolding run_read(1) readers_inv_def by (auto split: if_splits)
  qed
qed (use inv in \<open>auto simp: readers_inv_def\<close>)

lemma psys_inv_reachable: "pipe_reachable s \<Longrightarrow> psys_inv s"
proof (induction rule: pipe_reachable.induct)
  case (init junk)
  then show ?case by (simp add: psys_inv_def psys_init_def pipe_init_def pipe_inv_def pipe_queue_def)
qed (rule psys_inv_step)

lemma readers_inv_reachable: "pipe_reachable s \<Longrightarrow> killed s = {} \<Longrightarrow> readers_inv s"
proof (induction rule: pipe_reachable.induct)
  case (init junk)
  then show ?case by (simp add: readers_inv_def psys_init_def)
next
  case (step s t)
  from step.hyps(2) step.prems have "killed s = {}" by cases auto
  then show ?case using step readers_inv_step psys_inv_reachable by blast
qed

section \<open>Two runs\<close>

text \<open>A reader that found the pipe empty, and the same reader after a killed thread has filled the ring.\<close>

definition sleep_example :: psys where
  "sleep_example = \<lparr>pip = pipe_init (replicate 512 0), thr = (\<lambda>_. PIdle)(0 := PReadSleep 1), killed = {}, sent = [], received = []\<rparr>"

definition lost_example :: psys where
  "lost_example = \<lparr>pip = snd (ring.put_many (replicate 513 7) (pipe_init (replicate 512 0))),
     thr = (\<lambda>_. PIdle)(0 := PReadSleep 1, 1 := PWriteRet (-1)), killed = {1}, sent = replicate 512 7, received = []\<rparr>"

lemma sleep_example_reachable: "pipe_reachable sleep_example"
proof -
  let ?p = "pipe_init (replicate 512 0)" let ?s0 = "psys_init (replicate 512 0)"
  let ?s1 = "?s0\<lparr>thr := (thr ?s0)(0 := PReading 1)\<rparr>"
  have r0: "pipe_reachable ?s0" by (rule pipe_reachable.init) simp
  have "pipe_step ?s0 ?s1" by (rule call_read) (simp_all add: psys_init_def pipe_init_def)
  with r0 have r1: "pipe_reachable ?s1" by (rule pipe_reachable.step)
  have "pipe_step ?s1 (?s1\<lparr>pip := ?p, thr := (wakeup_writers False (thr ?s1))(0 := PReadSleep 1), received := received ?s1 @ []\<rparr>)"
    using run_read [of ?s1 0 1 "PReadSleep 1" ?p False] by (simp add: psys_init_def piperead_def pipe_init_def)
  moreover have "?s1\<lparr>pip := ?p, thr := (wakeup_writers False (thr ?s1))(0 := PReadSleep 1), received := received ?s1 @ []\<rparr> = sleep_example"
    by (simp add: psys_init_def sleep_example_def)
  ultimately show ?thesis using r1 pipe_reachable.step by metis
qed

lemma lost_example_facts: "pipe_reachable lost_example" "length (pipe_queue (pip lost_example)) = 512"
proof -
  let ?p = "pipe_init (replicate 512 0)" let ?bs = "replicate 513 7 :: u8 list" let ?s2 = sleep_example
  have inv: "pipe_inv ?p" and q: "pipe_queue ?p = []" and rm: "room ?p = 512"
    by (simp_all add: pipe_inv_def pipe_init_def pipe_queue_def room_def)
  obtain th p w where r: "pipewrite True ?bs 513 ?p = (th, p, w)" by (cases "pipewrite True ?bs 513 ?p")
  note sp = pipewrite_spec [OF inv r]
  have p: "p = snd (ring.put_many ?bs ?p)"
    using r unfolding pipewrite_run by (auto simp: Let_def split: prod.splits if_splits)
  have th: "th = PWriteRet (-1)" "\<not> w" using sp(5,6) rm by simp_all
  let ?s3 = "?s2\<lparr>thr := (thr ?s2)(1 := PWriting ?bs 513)\<rparr>"
  let ?s4 = "?s3\<lparr>killed := insert 1 (killed ?s3), thr := (thr ?s3)(1 := wake_reader (wake_writer (thr ?s3 1)))\<rparr>"
  have "pipe_step ?s2 (?s2\<lparr>thr := (thr ?s2)(1 := PWriting ?bs (int (length ?bs)))\<rparr>)"
    by (rule call_write) (simp_all add: sleep_example_def pipe_init_def)
  then have r3: "pipe_reachable ?s3" using sleep_example_reachable pipe_reachable.step by simp
  have r4: "pipe_reachable ?s4" by (rule pipe_reachable.step [OF r3 kill])
  have "pipe_step ?s4 (?s4\<lparr>pip := p, thr := (wakeup_readers w (thr ?s4))(1 := th), sent := sent ?s4 @ take (room (pip ?s4)) ?bs\<rparr>)"
    by (rule run_write) (use r in \<open>simp_all add: sleep_example_def\<close>)
  moreover have "?s4\<lparr>pip := p, thr := (wakeup_readers w (thr ?s4))(1 := th), sent := sent ?s4 @ take (room (pip ?s4)) ?bs\<rparr> = lost_example"
    using th p rm by (simp add: lost_example_def sleep_example_def)
  ultimately show "pipe_reachable lost_example" using r4 pipe_reachable.step by metis
  show "length (pipe_queue (pip lost_example)) = 512"
    using sp(2) q rm unfolding lost_example_def p [symmetric] by (simp add: p del: pipe_queue_length)
qed

section \<open>Properties\<close>

text \<open>C27: Whatever threads write, read, close and are killed in any order, the bytes received are the bytes sent, in
  order: what was sent is what was received followed by the content of the ring, and the ring never holds more than
  512 bytes although both counters wrap around.\<close>

theorem pipe_fifo:
  assumes "pipe_reachable s"
  shows "sent s = received s @ pipe_queue (pip s) \<and> length (pipe_queue (pip s)) \<le> 512"
  using psys_inv_reachable [OF assms] by (simp add: psys_inv_def pipe_inv_def)

text \<open>C28: As long as no thread is killed no wakeup is lost: a thread asleep in \<open>pipewrite\<close> has no room and an
  open read end, and a thread asleep in \<open>piperead\<close> has nothing to read and an open write end.\<close>

theorem pipe_no_lost_wakeup:
  assumes "pipe_reachable s" and "killed s = {}"
  shows "(\<forall>t bs n. thr s t = PWriteSleep bs n \<longrightarrow> pipe_full (pip s) \<and> readopen (pip s)) \<and>
    (\<forall>t n. thr s t = PReadSleep n \<longrightarrow> pipe_queue (pip s) = [] \<and> writeopen (pip s))"
  using psys_inv_reachable [OF assms(1)] readers_inv_reachable [OF assms] by (auto simp: psys_inv_def readers_inv_def)

theorem pipe_fifo_witness:
  "sent lost_example = received lost_example @ pipe_queue (pip lost_example) \<and> length (pipe_queue (pip lost_example)) \<le> 512"
  using pipe_fifo [OF lost_example_facts(1)] .

theorem pipe_no_lost_wakeup_witness:
  "thr sleep_example 0 = PReadSleep 1 \<and> pipe_queue (pip sleep_example) = [] \<and> writeopen (pip sleep_example)"
  using pipe_no_lost_wakeup [OF sleep_example_reachable] by (simp add: sleep_example_def)


end
