(* ===== verification/Ulib.thy ===== *)
theory Ulib
  imports KString
begin

text \<open>
  The user library, \<^verbatim>\<open>src/xv6/ulib.c\<close> and \<^verbatim>\<open>src/xv6/printf.c\<close>. String functions work on the
  flat memory of a process; \<open>None\<close> stands for a loop that does not end. What \<open>printf\<close> writes is the
  list of the bytes it passes to \<^verbatim>\<open>write\<close>, one at a time.
\<close>

section \<open>ulib.c\<close>

partial_function (option) strcpy :: "memory \<Rightarrow> u32 \<Rightarrow> u32 \<Rightarrow> memory option" where
  "strcpy m s t = (let m' = m(s := m t) in if m t \<noteq> 0 then strcpy m' (s + 1) (t + 1) else Some m')"

partial_function (option) strcmp :: "memory \<Rightarrow> u32 \<Rightarrow> u32 \<Rightarrow> int option" where
  "strcmp m p q = (if m p \<noteq> 0 \<and> m p = m q then strcmp m (p + 1) (q + 1) else Some (uint (m p) - uint (m q)))"

partial_function (option) strchr :: "memory \<Rightarrow> u32 \<Rightarrow> u8 \<Rightarrow> u32 option" where
  "strchr m s c = (if m s = 0 then Some 0 else if m s = c then Some s else strchr m (s + 1) c)"

definition ulib_memset :: "memory \<Rightarrow> u32 \<Rightarrow> u32 \<Rightarrow> u32 \<Rightarrow> memory" where
  "ulib_memset m dst c n = stosb m dst (ucast c) (unat n)"

text \<open>\<open>memmove\<close> of the library copies upwards whatever the overlap.\<close>

definition ulib_memmove :: "memory \<Rightarrow> u32 \<Rightarrow> u32 \<Rightarrow> int \<Rightarrow> memory" where
  "ulib_memmove m dst src n = move_up m dst src (nat n)"

text \<open>\<open>atoi\<close> computes in \<^verbatim>\<open>int\<close>, which wraps around.\<close>

partial_function (option) atoi_loop :: "memory \<Rightarrow> u32 \<Rightarrow> u32 \<Rightarrow> u32 option" where
  "atoi_loop m s n =
     (if 48 \<le> m s \<and> m s \<le> 57 then atoi_loop m (s + 1) (n * 10 + ucast (m s) - 48) else Some n)"

definition atoi :: "memory \<Rightarrow> u32 \<Rightarrow> int option" where
  "atoi m s = map_option sint (atoi_loop m s 0)"

text \<open>\<open>gets\<close> reads single bytes from file 0: \<open>inp\<close> is what they return, the end of the list is an
  end of file or an error. The result is the memory and the input that is left.\<close>

fun gets_loop :: "memory \<Rightarrow> u32 \<Rightarrow> nat \<Rightarrow> nat \<Rightarrow> u8 list \<Rightarrow> memory \<times> u8 list" where
  "gets_loop m buf i 0 inp = (m(buf + of_nat i := 0), inp)"
| "gets_loop m buf i (Suc left) [] = (m(buf + of_nat i := 0), [])"
| "gets_loop m buf i (Suc left) (c # inp) =
     (let m = m(buf + of_nat i := c) in
      if c = 10 \<or> c = 13 then (m(buf + of_nat (Suc i) := 0), inp) else gets_loop m buf (Suc i) left inp)"

definition gets :: "memory \<Rightarrow> u32 \<Rightarrow> int \<Rightarrow> u8 list \<Rightarrow> memory \<times> u8 list" where
  "gets m buf lim inp = gets_loop m buf 0 (nat (lim - 1)) inp"

text \<open>\<open>stat\<close> over the system calls \<^verbatim>\<open>open\<close>, \<^verbatim>\<open>fstat\<close> and \<^verbatim>\<open>close\<close> of a process state.\<close>

definition ustat ::
  "('s \<Rightarrow> int \<times> 's) \<Rightarrow> (int \<Rightarrow> 's \<Rightarrow> int \<times> 's) \<Rightarrow> (int \<Rightarrow> 's \<Rightarrow> 's) \<Rightarrow> 's \<Rightarrow> int \<times> 's" where
  "ustat opn fstat cls s =
     (let (fd, s) = opn s in
      if fd < 0 then (-1, s) else let (r, s) = fstat fd s in (r, cls fd s))"

section \<open>printf.c\<close>

text \<open>The digits \<^verbatim>\<open>0123456789ABCDEF\<close>.\<close>

definition digits :: "u8 list" where
  "digits = [48, 49, 50, 51, 52, 53, 54, 55, 56, 57, 65, 66, 67, 68, 69, 70]"

text \<open>The loop that fills \<^verbatim>\<open>buf\<close>, lowest digit first. Division by zero is an error.\<close>

partial_function (option) printint_buf :: "u32 \<Rightarrow> u32 \<Rightarrow> u8 list option" where
  "printint_buf x base =
     (if base = 0 \<or> 16 \<le> unat (x mod base) then None
      else if x div base = 0 then Some [digits ! unat (x mod base)]
      else do { bs \<leftarrow> printint_buf (x div base) base; Some (digits ! unat (x mod base) # bs) })"

definition printint :: "u32 \<Rightarrow> u32 \<Rightarrow> bool \<Rightarrow> u8 list option" where
  "printint xx base sg =
     (let neg = sg \<and> sint xx < 0; x = (if neg then - xx else xx) in
      do {
        buf \<leftarrow> printint_buf x base;
        let buf = (if neg then buf @ [45] else buf);
        if 16 < length buf then None else Some (rev buf) })"

partial_function (option) put_string :: "memory \<Rightarrow> u32 \<Rightarrow> u8 list option" where
  "put_string m s = (if m s = 0 then Some [] else do { r \<leftarrow> put_string m (s + 1); Some (m s # r) })"

text \<open>\<^verbatim>\<open>"(null)"\<close>\<close>

definition null_string :: "u8 list" where "null_string = [40, 110, 117, 108, 108, 41]"

text \<open>\<open>printf\<close> on the bytes of the format, the state (whether the last byte was a percent sign), and the
  argument words; \<open>None\<close> also when it takes more arguments than there are.\<close>

fun printf_loop :: "memory \<Rightarrow> bool \<Rightarrow> u8 list \<Rightarrow> u32 list \<Rightarrow> u8 list option" where
  "printf_loop m state [] ap = Some []"
| "printf_loop m False (c # fmt) ap =
     (if c = 37 then printf_loop m True fmt ap
      else do { r \<leftarrow> printf_loop m False fmt ap; Some (c # r) })"
| "printf_loop m True (c # fmt) ap =
     (if c = 100 \<or> c = 120 \<or> c = 112 \<or> c = 115 \<or> c = 99 then
        (case ap of [] \<Rightarrow> None
         | a # ap \<Rightarrow> do {
             out \<leftarrow> (if c = 100 then printint a 10 True
                      else if c = 120 \<or> c = 112 then printint a 16 False
                      else if c = 115 then if a = 0 then Some null_string else put_string m a
                      else Some [ucast a]);
             r \<leftarrow> printf_loop m False fmt ap;
             Some (out @ r) })
      else do {
        r \<leftarrow> printf_loop m False fmt ap;
        Some ((if c = 37 then [c] else [37, c]) @ r) })"

definition printf :: "memory \<Rightarrow> u8 list \<Rightarrow> u32 list \<Rightarrow> u8 list option" where
  "printf m fmt ap = printf_loop m False fmt ap"

section \<open>C strings\<close>

text \<open>\<open>cstr m a xs\<close>: the memory holds the terminated string \<open>xs\<close> at \<open>a\<close>.\<close>

fun cstr :: "memory \<Rightarrow> u32 \<Rightarrow> u8 list \<Rightarrow> bool" where
  "cstr m a [] \<longleftrightarrow> m a = 0"
| "cstr m a (x # xs) \<longleftrightarrow> x \<noteq> 0 \<and> m a = x \<and> cstr m (a + 1) xs"

text \<open>The value of a string of decimal digits.\<close>

fun dec_value :: "nat \<Rightarrow> u8 list \<Rightarrow> nat" where
  "dec_value n [] = n"
| "dec_value n (d # ds) = dec_value (n * 10 + (unat d - 48)) ds"

definition dec_digits :: "u8 list \<Rightarrow> bool" where
  "dec_digits ds \<longleftrightarrow> (\<forall>d\<in>set ds. 48 \<le> d \<and> d \<le> 57)"

section \<open>Numbers\<close>

lemma dec_value_ge: "k \<le> dec_value k ds"
proof (induction ds arbitrary: k)
  case (Cons d ds)
  show ?case using Cons.IH [of "k * 10 + (unat d - 48)"] by simp
qed simp

lemma atoi_loop_digits:
  assumes "cstr m a ds" and "dec_digits ds" and "dec_value (unat n) ds < 2 ^ 32"
  shows "atoi_loop m a n = Some (of_nat (dec_value (unat n) ds))"
  using assms
proof (induction ds arbitrary: a n)
  case Nil
  then show ?case by (subst atoi_loop.simps) simp
next
  case (Cons d ds)
  have d: "m a = d" "48 \<le> d" "d \<le> 57" using Cons.prems by (auto simp: dec_digits_def)
  let ?n = "n * 10 + ucast d - 48"
  note mono = dec_value_ge [of "unat n * 10 + (unat d - 48)" ds]
  define k where "k = unat n * 10 + (unat d - 48)"
  have "k < 2 ^ 32" using mono Cons.prems(3) by (simp add: k_def)
  moreover have "48 \<le> unat d" using d(2) by (simp add: word_le_nat_alt)
  then have eq: "?n = of_nat k" by (simp add: k_def of_nat_diff)
  ultimately have u: "unat ?n = k" unfolding eq by (simp add: unat_of_nat take_bit_nat_eq_self)
  have "atoi_loop m a n = atoi_loop m (a + 1) ?n" using d by (subst atoi_loop.simps) simp
  also have "\<dots> = Some (of_nat (dec_value (unat ?n) ds))"
    by (rule Cons.IH) (use Cons.prems u in \<open>auto simp: dec_digits_def k_def\<close>)
  finally show ?case by (simp add: u k_def)
qed

lemma dec_value_append: "dec_value n (xs @ [d]) = dec_value n xs * 10 + (unat d - 48)"
  by (induction xs arbitrary: n) simp_all

lemma digits_dec: "i < 10 \<Longrightarrow> unat (digits ! i) = i + 48"
proof -
  assume "i < 10"
  then have "i = 0 \<or> i = 1 \<or> i = 2 \<or> i = 3 \<or> i = 4 \<or> i = 5 \<or> i = 6 \<or> i = 7 \<or> i = 8 \<or> i = 9" by arith
  then show ?thesis by (elim disjE) (simp_all add: digits_def)
qed

lemma printint_buf_dec:
  "\<exists>bs. printint_buf x 10 = Some bs \<and> bs \<noteq> [] \<and> dec_digits bs \<and> dec_value 0 (rev bs) = unat x \<and>
     unat x < 10 ^ length bs \<and> (length bs = 1 \<or> 10 ^ (length bs - 1) \<le> unat x)"
proof (induction "unat x" arbitrary: x rule: less_induct)
  case less
  let ?d = "digits ! unat (x mod 10)"
  have m: "unat (x mod 10) = unat x mod 10" "unat (x div 10) = unat x div 10" by (simp_all add: unat_mod unat_div)
  then have d: "unat ?d = unat x mod 10 + 48" by (simp add: digits_dec)
  then have dd: "48 \<le> ?d" "?d \<le> 57" by (simp_all add: word_le_nat_alt)
  have ok: "\<not> 16 \<le> unat (x mod 10)" by (simp add: m)
  show ?case
  proof (cases "x div 10 = 0")
    case True
    then have "unat x < 10" using m(2) by simp
    moreover have "printint_buf x 10 = Some [?d]" using True ok by (subst printint_buf.simps) simp
    ultimately show ?thesis using d dd by (simp add: dec_digits_def)
  next
    case False
    then have ge: "10 \<le> unat x" using m(2) by (simp add: word_unat_eq_iff)
    then obtain bs where bs: "printint_buf (x div 10) 10 = Some bs" "bs \<noteq> []" "dec_digits bs" "dec_value 0 (rev bs) = unat (x div 10)"
        "unat (x div 10) < 10 ^ length bs" "length bs = 1 \<or> 10 ^ (length bs - 1) \<le> unat (x div 10)"
      using less.hyps [of "x div 10"] m(2) by auto
    have "printint_buf x 10 = Some (?d # bs)" using False ok bs(1) by (subst printint_buf.simps) simp
    moreover have "dec_value 0 (rev (?d # bs)) = unat x" using bs(4) d by (simp add: dec_value_append m)
    moreover have "unat x < 10 ^ length (?d # bs)" using bs(5) by (simp add: m)
    moreover have "10 ^ (length (?d # bs) - 1) \<le> unat x"
      using bs(2,6) ge by (cases bs) (auto simp: m power_Suc intro: order_trans)
    ultimately show ?thesis using bs(3) dd by (auto simp: dec_digits_def)
  qed
qed



end
