(* ===== verification/Ondisk.thy ===== *)
theory Ondisk
  imports KString
begin

text \<open>
  The on-disk format of \<^verbatim>\<open>fs.h\<close>: the super block, inodes and directory entries as bytes of a block, little
  endian, and the log header. A block is a list of bytes; \<open>get32\<close>, \<open>put32\<close>, \<open>get16\<close> and \<open>put16\<close> are the accesses
  that the C code makes through a pointer to a structure cast from the data of a buffer.
\<close>

section \<open>Words inside a block\<close>

definition get16 :: "u8 list \<Rightarrow> nat \<Rightarrow> u16" where
  "get16 bs i = word_cat (bs ! (i + 1)) (bs ! i)"

definition put16 :: "nat \<Rightarrow> u16 \<Rightarrow> u8 list \<Rightarrow> u8 list" where
  "put16 i w bs = bs[i := ucast w, i + 1 := ucast (drop_bit 8 w)]"

definition get32 :: "u8 list \<Rightarrow> nat \<Rightarrow> u32" where
  "get32 bs i = word_cat (get16 bs (i + 2)) (get16 bs i)"

definition put32 :: "nat \<Rightarrow> u32 \<Rightarrow> u8 list \<Rightarrow> u8 list" where
  "put32 i w bs = put16 (i + 2) (ucast (drop_bit 16 w)) (put16 i (ucast w) bs)"

text \<open>An array of 32-bit words that starts at byte \<open>i\<close>.\<close>

definition get_array :: "u8 list \<Rightarrow> nat \<Rightarrow> nat \<Rightarrow> u32 list" where
  "get_array bs i n = map (\<lambda>k. get32 bs (i + 4 * k)) [0..<n]"

fun put_array :: "nat \<Rightarrow> u32 list \<Rightarrow> u8 list \<Rightarrow> u8 list" where
  "put_array i [] bs = bs"
| "put_array i (w # ws) bs = put_array (i + 4) ws (put32 i w bs)"

section \<open>fs.h\<close>

definition BSIZE :: nat where "BSIZE = 512"
definition NDIRECT :: nat where "NDIRECT = 12"
definition NINDIRECT :: nat where "NINDIRECT = BSIZE div 4"
definition MAXFILE :: nat where "MAXFILE = NDIRECT + NINDIRECT"
definition DIRSIZ :: nat where "DIRSIZ = 14"
definition ROOTINO :: u32 where "ROOTINO = 1"
definition ROOTDEV :: u32 where "ROOTDEV = 1"
definition FSSIZE :: u32 where "FSSIZE = 1000"
definition T_DIR :: u16 where "T_DIR = 1"
definition T_FILE :: u16 where "T_FILE = 2"
definition T_DEV :: u16 where "T_DEV = 3"

record superblock =
  sb_size :: u32
  sb_nblocks :: u32
  sb_ninodes :: u32
  sb_nlog :: u32
  sb_logstart :: u32
  sb_inodestart :: u32
  sb_bmapstart :: u32

definition get_superblock :: "u8 list \<Rightarrow> superblock" where
  "get_superblock bs = \<lparr>sb_size = get32 bs 0, sb_nblocks = get32 bs 4, sb_ninodes = get32 bs 8,
     sb_nlog = get32 bs 12, sb_logstart = get32 bs 16, sb_inodestart = get32 bs 20, sb_bmapstart = get32 bs 24\<rparr>"

definition put_superblock :: "superblock \<Rightarrow> u8 list \<Rightarrow> u8 list" where
  "put_superblock s bs = put_array 0 [sb_size s, sb_nblocks s, sb_ninodes s, sb_nlog s, sb_logstart s,
     sb_inodestart s, sb_bmapstart s] bs"

record dinode =
  di_type :: u16
  di_major :: u16
  di_minor :: u16
  di_nlink :: u16
  di_size :: u32
  di_addrs :: "u32 list"

definition sizeof_dinode :: nat where "sizeof_dinode = 64"

definition get_dinode :: "u8 list \<Rightarrow> nat \<Rightarrow> dinode" where
  "get_dinode bs i = \<lparr>di_type = get16 bs i, di_major = get16 bs (i + 2), di_minor = get16 bs (i + 4),
     di_nlink = get16 bs (i + 6), di_size = get32 bs (i + 8), di_addrs = get_array bs (i + 12) (NDIRECT + 1)\<rparr>"

definition put_dinode :: "nat \<Rightarrow> dinode \<Rightarrow> u8 list \<Rightarrow> u8 list" where
  "put_dinode i d bs = put_array (i + 12) (di_addrs d) (put32 (i + 8) (di_size d) (put16 (i + 6) (di_nlink d)
     (put16 (i + 4) (di_minor d) (put16 (i + 2) (di_major d) (put16 i (di_type d) bs)))))"

definition IPB :: nat where "IPB = BSIZE div sizeof_dinode"
definition BPB :: u32 where "BPB = 512 * 8"

definition IBLOCK :: "u32 \<Rightarrow> superblock \<Rightarrow> u32" where
  "IBLOCK i s = i div of_nat IPB + sb_inodestart s"

definition BBLOCK :: "u32 \<Rightarrow> superblock \<Rightarrow> u32" where
  "BBLOCK b s = b div BPB + sb_bmapstart s"

record dirent =
  de_inum :: u16
  de_name :: "u8 list"

definition sizeof_dirent :: nat where "sizeof_dirent = 16"

definition get_dirent :: "u8 list \<Rightarrow> dirent" where
  "get_dirent bs = \<lparr>de_inum = get16 bs 0, de_name = take DIRSIZ (drop 2 bs)\<rparr>"

definition dirent_bytes :: "dirent \<Rightarrow> u8 list" where
  "dirent_bytes d = ucast (de_inum d) # ucast (drop_bit 8 (de_inum d)) # de_name d"

section \<open>Round trips\<close>

lemma length_put16 [simp]: "length (put16 i w bs) = length bs"
  by (simp add: put16_def)

lemma length_put32 [simp]: "length (put32 i w bs) = length bs"
  by (simp add: put32_def)

lemma length_put_array [simp]: "length (put_array i ws bs) = length bs"
  by (induction i ws bs rule: put_array.induct) auto

lemma length_put_dinode [simp]: "length (put_dinode i d bs) = length bs"
  by (simp add: put_dinode_def)

lemma length_get_array [simp]: "length (get_array bs i n) = n"
  by (simp add: get_array_def)

lemma word_cat_bytes: "word_cat (ucast (drop_bit 8 (w :: u16)) :: u8) (ucast w :: u8) = w"
  by (rule bit_word_eqI) (auto simp: bit_simps)

lemma word_cat_halves: "word_cat (ucast (drop_bit 16 (w :: u32)) :: u16) (ucast w :: u16) = w"
  by (rule bit_word_eqI) (auto simp: bit_simps)

lemma get16_put16 [simp]: "i + 1 < length bs \<Longrightarrow> get16 (put16 i w bs) i = w"
  by (simp add: get16_def put16_def word_cat_bytes)

lemma get16_put16_other [simp]: "i + 2 \<le> j \<or> j + 2 \<le> i \<Longrightarrow> get16 (put16 i w bs) j = get16 bs j"
  by (auto simp: get16_def put16_def)

lemma get32_put32 [simp]: "i + 3 < length bs \<Longrightarrow> get32 (put32 i w bs) i = w"
  by (simp add: get32_def put32_def word_cat_halves)

lemma get32_put32_other [simp]: "i + 4 \<le> j \<or> j + 4 \<le> i \<Longrightarrow> get32 (put32 i w bs) j = get32 bs j"
  by (auto simp: get32_def put32_def)

lemma get16_put32_other [simp]: "i + 4 \<le> j \<or> j + 2 \<le> i \<Longrightarrow> get16 (put32 i w bs) j = get16 bs j"
  by (auto simp: put32_def)

lemma get32_put16_other [simp]: "i + 2 \<le> j \<or> j + 4 \<le> i \<Longrightarrow> get32 (put16 i w bs) j = get32 bs j"
  by (auto simp: get32_def)

lemma get32_put_array_other:
  "i + 4 * length ws \<le> j \<or> j + 4 \<le> i \<Longrightarrow> get32 (put_array i ws bs) j = get32 bs j"
  by (induction i ws bs rule: put_array.induct) auto

lemma get16_put_array_other:
  "i + 4 * length ws \<le> j \<or> j + 2 \<le> i \<Longrightarrow> get16 (put_array i ws bs) j = get16 bs j"
  by (induction i ws bs rule: put_array.induct) auto

lemma get32_put_array:
  "k < length ws \<Longrightarrow> i + 4 * length ws \<le> length bs \<Longrightarrow> get32 (put_array i ws bs) (i + 4 * k) = ws ! k"
proof (induction i ws bs arbitrary: k rule: put_array.induct)
  case (2 i w ws bs)
  show ?case
  proof (cases k)
    case 0
    with 2 show ?thesis by (simp add: get32_put_array_other)
  next
    case (Suc l)
    with 2 show ?thesis by (simp add: add.assoc [symmetric] add.commute)
  qed
qed simp

lemma get_put_array: "i + 4 * length ws \<le> length bs \<Longrightarrow> get_array (put_array i ws bs) i (length ws) = ws"
  by (rule nth_equalityI) (auto simp: get_array_def get32_put_array)

lemma get_put_array_n:
  "n = length ws \<Longrightarrow> i + 4 * n \<le> length bs \<Longrightarrow> get_array (put_array i ws bs) i n = ws"
  using get_put_array by blast

lemma get_dinode_put_dinode:
  assumes "i + sizeof_dinode \<le> length bs" and "length (di_addrs d) = NDIRECT + 1"
  shows "get_dinode (put_dinode i d bs) i = d"
  using assms
  by (simp add: get_dinode_def put_dinode_def sizeof_dinode_def NDIRECT_def get32_put_array_other
      get16_put_array_other get_put_array_n)

lemma get_superblock_put: "28 \<le> length bs \<Longrightarrow> get_superblock (put_superblock s bs) = s"
  by (simp add: get_superblock_def put_superblock_def)

lemma get_dirent_bytes: "length (de_name d) = DIRSIZ \<Longrightarrow> get_dirent (dirent_bytes d) = d"
  by (simp add: get_dirent_def dirent_bytes_def get16_def word_cat_bytes DIRSIZ_def)

lemma length_dirent_bytes: "length (de_name d) = DIRSIZ \<Longrightarrow> length (dirent_bytes d) = sizeof_dirent"
  by (simp add: dirent_bytes_def DIRSIZ_def sizeof_dirent_def)

text \<open>Writing one inode of a block leaves the others alone.\<close>

lemma get_dinode_put_other:
  assumes "i + sizeof_dinode \<le> j \<or> j + sizeof_dinode \<le> i" and "length (di_addrs d) = NDIRECT + 1"
  shows "get_dinode (put_dinode i d bs) j = get_dinode bs j"
  using assms
  by (auto simp: get_dinode_def put_dinode_def sizeof_dinode_def NDIRECT_def get32_put_array_other
      get16_put_array_other get_array_def)

end
