(* ===== verification/Uprogs.thy ===== *)
theory Uprogs
  imports Ulib Ondisk
begin

text \<open>
  User programs: \<^verbatim>\<open>grep.c\<close>, \<^verbatim>\<open>wc.c\<close>, \<^verbatim>\<open>cat.c\<close>, \<^verbatim>\<open>echo.c\<close> and the name formatting of \<^verbatim>\<open>ls.c\<close>. Strings are lists of
  bytes without the terminator. A file descriptor is the list of what its \<^verbatim>\<open>read\<close> calls can return at most:
  a chunk of bytes (an empty one is an end of file) or an error; a pipe or the console hands out whatever is there,
  so the cuts between chunks are arbitrary.
\<close>

section \<open>Reading\<close>

type_synonym stream = "u8 list option list"

fun uread :: "nat \<Rightarrow> stream \<Rightarrow> u8 list option \<times> stream" where
  "uread n [] = (Some [], [])"
| "uread n (None # inp) = (None, inp)"
| "uread n (Some bs # inp) =
     (if length bs \<le> n then (Some bs, inp) else (Some (take n bs), Some (drop n bs) # inp))"

text \<open>Bytes and chunks still to come.\<close>

fun stream_size :: "stream \<Rightarrow> nat" where
  "stream_size [] = 0"
| "stream_size (None # inp) = Suc (stream_size inp)"
| "stream_size (Some bs # inp) = Suc (length bs + stream_size inp)"

lemma uread_size: "uread n inp = (Some bs, inp') \<Longrightarrow> bs \<noteq> [] \<Longrightarrow> stream_size inp' < stream_size inp"
  by (cases inp rule: stream_size.cases) (auto split: if_splits)

section \<open>cat.c\<close>

text \<open>What \<open>cat\<close> writes to file 1 and whether a read failed.\<close>

function cat :: "stream \<Rightarrow> u8 list \<times> bool" where
  "cat inp = (case uread 512 inp of
       (None, inp) \<Rightarrow> ([], True)
     | (Some bs, inp) \<Rightarrow>
         if bs = [] then ([], False) else let (out, err) = cat inp in (bs @ out, err))"
  by auto
termination by (relation "measure stream_size") (auto dest: uread_size [OF sym])

section \<open>wc.c\<close>

record wc_state =
  wc_l :: int
  wc_w :: int
  wc_c :: int
  inword :: bool

definition wc_byte :: "u8 \<Rightarrow> wc_state \<Rightarrow> wc_state" where
  "wc_byte b s =
     (let s = s\<lparr>wc_c := wc_c s + 1\<rparr>;
          s = (if b = 10 then s\<lparr>wc_l := wc_l s + 1\<rparr> else s) in
      if b \<in> {32, 13, 9, 10, 11} then s\<lparr>inword := False\<rparr>
      else if \<not> inword s then s\<lparr>wc_w := wc_w s + 1, inword := True\<rparr> else s)"

function wc_loop :: "wc_state \<Rightarrow> stream \<Rightarrow> wc_state \<times> bool" where
  "wc_loop s inp = (case uread 512 inp of
       (None, inp) \<Rightarrow> (s, True)
     | (Some bs, inp) \<Rightarrow> if bs = [] then (s, False) else wc_loop (fold wc_byte bs s) inp)"
  by auto
termination by (relation "measure (stream_size \<circ> snd)") (auto dest: uread_size [OF sym])

definition wc :: "stream \<Rightarrow> (int \<times> int \<times> int) option" where
  "wc inp = (case wc_loop \<lparr>wc_l = 0, wc_w = 0, wc_c = 0, inword = False\<rparr> inp of
     (s, err) \<Rightarrow> if err then None else Some (wc_l s, wc_w s, wc_c s))"

section \<open>echo.c and the file names of ls.c\<close>

fun echo :: "u8 list list \<Rightarrow> u8 list" where
  "echo [] = []"
| "echo [a] = a @ [10]"
| "echo (a # as) = a @ [32] @ echo as"


definition fmtname :: "u8 list \<Rightarrow> u8 list" where
  "fmtname path =
     (let p = rev (takeWhile (\<lambda>c. c \<noteq> 47) (rev path)) in
      if DIRSIZ \<le> length p then p else p @ replicate (DIRSIZ - length p) 32)"

section \<open>grep.c\<close>

function matchhere :: "u8 list \<Rightarrow> u8 list \<Rightarrow> bool" and matchstar :: "u8 \<Rightarrow> u8 list \<Rightarrow> u8 list \<Rightarrow> bool" where
  "matchhere re text = (case re of
       [] \<Rightarrow> True
     | c # re' \<Rightarrow>
         if re' \<noteq> [] \<and> hd re' = 42 then matchstar c (tl re') text
         else if c = 36 \<and> re' = [] then text = []
         else if text \<noteq> [] \<and> (c = 46 \<or> c = hd text) then matchhere re' (tl text)
         else False)"
| "matchstar c re text =
     (if matchhere re text then True
      else if text \<noteq> [] \<and> (hd text = c \<or> c = 46) then matchstar c re (tl text)
      else False)"
  by pat_completeness auto
termination
  by (relation "measure (\<lambda>x. case x of Inl (re, text) \<Rightarrow> 2 * length re + length text | Inr (c, re, text) \<Rightarrow> 2 * length re + length text + 1)")
    (auto simp: length_tl split: list.splits dest!: hd_Cons_tl [THEN sym])

fun rmatch :: "u8 list \<Rightarrow> u8 list \<Rightarrow> bool" where
  "rmatch re [] = matchhere re []"
| "rmatch re (t # text) = (matchhere re (t # text) \<or> rmatch re text)"

text \<open>\<open>match\<close>; \<open>rmatch\<close> is its loop.\<close>

definition match :: "u8 list \<Rightarrow> u8 list \<Rightarrow> bool" where
  "match re text = (if re \<noteq> [] \<and> hd re = 94 then matchhere (tl re) text else rmatch re text)"

text \<open>\<^verbatim>\<open>strchr(p, '\n')\<close> on the rest of the buffer: the line before it and what follows. A zero byte ends the search.\<close>

fun nl_split :: "u8 list \<Rightarrow> (u8 list \<times> u8 list) option" where
  "nl_split [] = None"
| "nl_split (x # xs) =
     (if x = 0 then None else if x = 10 then Some ([], xs)
      else map_option (\<lambda>(line, rest). (x # line, rest)) (nl_split xs))"

lemma nl_split_length: "nl_split xs = Some (line, rest) \<Longrightarrow> length rest < length xs"
  by (induction xs arbitrary: line) (auto split: if_splits)

text \<open>The inner loop of \<open>grep\<close>: its output, whether it found a line, and the bytes from \<^verbatim>\<open>p\<close> on.\<close>

function grep_lines :: "u8 list \<Rightarrow> u8 list \<Rightarrow> u8 list \<times> bool \<times> u8 list" where
  "grep_lines pat xs = (case nl_split xs of
       None \<Rightarrow> ([], False, xs)
     | Some (line, rest) \<Rightarrow>
         let (out, found, rest) = grep_lines pat rest in
         ((if match pat line then line @ [10] else []) @ out, True, rest))"
  by auto
termination by (relation "measure (length \<circ> snd)") (auto dest: nl_split_length)

function grep_loop :: "u8 list \<Rightarrow> u8 list \<Rightarrow> stream \<Rightarrow> u8 list" where
  "grep_loop pat buf inp = (case uread (1024 - length buf - 1) inp of
       (None, inp) \<Rightarrow> []
     | (Some bs, inp) \<Rightarrow>
         if bs = [] then []
         else let (out, found, rest) = grep_lines pat (buf @ bs) in
              out @ grep_loop pat (if found then rest else []) inp)"
  by auto
termination by (relation "measure (stream_size \<circ> snd \<circ> snd)") (auto dest: uread_size [OF sym])

definition grep :: "u8 list \<Rightarrow> stream \<Rightarrow> u8 list" where
  "grep pat inp = grep_loop pat [] inp"

declare cat.simps [simp del] wc_loop.simps [simp del] matchhere.simps [simp del] matchstar.simps [simp del]
  grep_lines.simps [simp del] grep_loop.simps [simp del]

section \<open>What a pattern means\<close>

text \<open>\<open>den re w r\<close>: the pattern matches exactly \<open>w\<close> when \<open>r\<close> follows it.\<close>

function den :: "u8 list \<Rightarrow> u8 list \<Rightarrow> u8 list \<Rightarrow> bool" where
  "den [] w r \<longleftrightarrow> w = []"
| "den (c # re) w r \<longleftrightarrow>
     (if re \<noteq> [] \<and> hd re = 42 then
        \<exists>u v. w = u @ v \<and> (\<forall>x\<in>set u. x = c \<or> c = 46) \<and> den (tl re) v r
      else if c = 36 \<and> re = [] then w = [] \<and> r = []
      else \<exists>x v. w = x # v \<and> (c = 46 \<or> c = x) \<and> den re v r)"
  by pat_completeness auto
termination by (relation "measure (length \<circ> fst)") auto

lemma split3: "(\<exists>u w r. t = u @ w @ r \<and> P u \<and> D w r) \<longleftrightarrow> (\<exists>w r. t = w @ r \<and> (\<exists>u v. w = u @ v \<and> P u \<and> D v r))"
  by (rule iffI) (metis append.assoc, metis append.assoc)

lemma matchhere_den:
  "matchhere re tx \<longleftrightarrow> (\<exists>w r. tx = w @ r \<and> den re w r)"
  "matchstar c re tx \<longleftrightarrow> (\<exists>u w r. tx = u @ w @ r \<and> (\<forall>x\<in>set u. x = c \<or> c = 46) \<and> den re w r)"
proof (induction re tx and c re tx rule: matchhere_matchstar.induct)
  case (1 re tx)
  show ?case
  proof (cases re)
    case Nil
    then show ?thesis by (simp add: matchhere.simps)
  next
    case (Cons c re')
    show ?thesis
    proof (cases "re' \<noteq> [] \<and> hd re' = 42")
      case True
      then have "matchhere re tx \<longleftrightarrow> matchstar c (tl re') tx" using Cons by (simp add: matchhere.simps)
      also have "\<dots> \<longleftrightarrow> (\<exists>u w r. tx = u @ w @ r \<and> (\<forall>x\<in>set u. x = c \<or> c = 46) \<and> den (tl re') w r)"
        by (rule 1(1) [OF Cons True])
      finally show ?thesis unfolding split3 using Cons True by simp
    next
      case star: False
      show ?thesis
      proof (cases "c = 36 \<and> re' = []")
        case True
        then show ?thesis using Cons star by (simp add: matchhere.simps)
      next
        case False
        have "matchhere re tx \<longleftrightarrow> tx \<noteq> [] \<and> (c = 46 \<or> c = hd tx) \<and> matchhere re' (tl tx)"
          using Cons star False by (subst matchhere.simps) auto
        also have "\<dots> \<longleftrightarrow> tx \<noteq> [] \<and> (c = 46 \<or> c = hd tx) \<and> (\<exists>w r. tl tx = w @ r \<and> den re' w r)"
          using 1(2) [OF Cons star False] by blast
        also have "\<dots> \<longleftrightarrow> (\<exists>x v r. tx = x # v @ r \<and> (c = 46 \<or> c = x) \<and> den re' v r)"
          by (cases tx) auto
        finally have "matchhere re tx \<longleftrightarrow> (\<exists>x v r. tx = x # v @ r \<and> (c = 46 \<or> c = x) \<and> den re' v r)" .
        moreover have "den re w r \<longleftrightarrow> (\<exists>x v. w = x # v \<and> (c = 46 \<or> c = x) \<and> den re' v r)" for w r
          unfolding Cons den.simps(2) using star False by (simp only: if_False)
        ultimately show ?thesis by (simp del: den.simps) (metis append_Cons)
      qed
    qed
  qed
next
  case (2 c re tx)
  show ?case
  proof (cases "matchhere re tx")
    case True
    then show ?thesis using 2(1) by (subst matchstar.simps) (metis append_Nil empty_iff empty_set)
  next
    case no: False
    show ?thesis
    proof (cases "tx \<noteq> [] \<and> (hd tx = c \<or> c = 46)")
      case True
      then obtain t ts where t: "tx = t # ts" "t = c \<or> c = 46" by (cases tx) auto
      have "matchstar c re tx \<longleftrightarrow> (\<exists>u w r. ts = u @ w @ r \<and> (\<forall>x\<in>set u. x = c \<or> c = 46) \<and> den re w r)"
        using 2(2) [OF no True] no True t(1) by (subst matchstar.simps) simp
      moreover have "(\<exists>u w r. tx = u @ w @ r \<and> (\<forall>x\<in>set u. x = c \<or> c = 46) \<and> den re w r) \<longleftrightarrow>
          (\<exists>u w r. ts = u @ w @ r \<and> (\<forall>x\<in>set u. x = c \<or> c = 46) \<and> den re w r)" (is "?A \<longleftrightarrow> ?B")
      proof
        assume ?A
        then obtain u w r where u: "tx = u @ w @ r" "\<forall>x\<in>set u. x = c \<or> c = 46" "den re w r" by blast
        show ?B
        proof (cases u)
          case Nil
          then show ?thesis using u no 2(1) by auto
        next
          case (Cons y ys)
          then show ?thesis using u t by auto
        qed
      next
        assume ?B
        then obtain u w r where "ts = u @ w @ r" "\<forall>x\<in>set u. x = c \<or> c = 46" "den re w r" by blast
        then show ?A using t by (intro exI [of _ "t # u"] exI [of _ w] exI [of _ r]) auto
      qed
      ultimately show ?thesis by simp
    next
      case False
      have "\<not> (\<exists>u w r. tx = u @ w @ r \<and> (\<forall>x\<in>set u. x = c \<or> c = 46) \<and> den re w r)"
      proof
        assume "\<exists>u w r. tx = u @ w @ r \<and> (\<forall>x\<in>set u. x = c \<or> c = 46) \<and> den re w r"
        then obtain u w r where u: "tx = u @ w @ r" "\<forall>x\<in>set u. x = c \<or> c = 46" "den re w r" by blast
        then show False using no 2(1) False by (cases u) auto
      qed
      moreover have "\<not> matchstar c re tx" using no False by (subst matchstar.simps) auto
      ultimately show ?thesis by blast
    qed
  qed
qed

lemma rmatch_suffix: "rmatch re tx \<longleftrightarrow> (\<exists>u v. tx = u @ v \<and> matchhere re v)"
proof (induction tx)
  case (Cons t tx)
  have "(\<exists>u v. t # tx = u @ v \<and> matchhere re v) \<longleftrightarrow> matchhere re (t # tx) \<or> (\<exists>u v. tx = u @ v \<and> matchhere re v)"
    by (auto simp: Cons_eq_append_conv)
  with Cons show ?case by simp
qed simp

text \<open>C32: \<open>match\<close> finds exactly the lines that contain a match of the pattern: anywhere in the line, or at its start when
  the pattern begins with a caret, where the meaning of a pattern is given by \<open>den\<close>: a byte, a dot, a
  starred byte or dot, and a final dollar sign.\<close>

theorem match_correct:
  "match re text \<longleftrightarrow>
     (if re \<noteq> [] \<and> hd re = 94 then \<exists>w r. text = w @ r \<and> den (tl re) w r
      else \<exists>u w r. text = u @ w @ r \<and> den re w r)"
  by (auto simp: match_def rmatch_suffix matchhere_den)


end
