(* ===== verification/Sh.thy ===== *)
theory Sh
  imports Ulib
begin

text \<open>
  The shell, \<^verbatim>\<open>src/xv6/sh.c\<close>: the lexer, the recursive descent parser, \<open>nulterminate\<close> and \<open>runcmd\<close>. The line is the
  list of its bytes without the final zero; a pointer into it is an index and \<^verbatim>\<open>es\<close> is its length. The parser
  is recursive with fuel: \<open>OutOfFuel\<close> never happens when the fuel is at least \<open>parse_fuel\<close> of the line, which is
  proved. \<open>panic\<close> of the shell prints a message and exits.
\<close>

section \<open>Commands\<close>

datatype cmd =
    EXEC "(nat \<times> nat) list"
  | REDIR cmd nat nat int int
  | PIPE cmd cmd
  | LIST cmd cmd
  | BACK cmd

datatype 'a parsed = Parsed 'a | Panic string | OutOfFuel

fun pbind :: "'a parsed \<Rightarrow> ('a \<Rightarrow> 'b parsed) \<Rightarrow> 'b parsed" where
  "pbind (Parsed x) f = f x"
| "pbind (Panic e) f = Panic e"
| "pbind OutOfFuel f = OutOfFuel"

definition MAXARGS :: nat where "MAXARGS = 10"


text \<open>\<^verbatim>\<open>" \t\r\n\v"\<close> and \<^verbatim>\<open>"<|>&;()"\<close>\<close>

definition whitespace :: "u8 set" where "whitespace = {32, 9, 13, 10, 11}"
definition symbols :: "u8 set" where "symbols = {60, 124, 62, 38, 59, 40, 41}"

section \<open>The lexer\<close>

definition skip_ws :: "u8 list \<Rightarrow> nat \<Rightarrow> nat" where
  "skip_ws buf s = s + length (takeWhile (\<lambda>c. c \<in> whitespace) (drop s buf))"

text \<open>The token, its first and last position, and the position after it and the blanks that follow.\<close>

definition gettoken :: "u8 list \<Rightarrow> nat \<Rightarrow> u8 \<times> nat \<times> nat \<times> nat" where
  "gettoken buf s =
     (let q = skip_ws buf s;
          (ret, eq) =
            (if length buf \<le> q then (0, q)
             else if buf ! q \<in> {124, 40, 41, 59, 38, 60} then (buf ! q, q + 1)
             else if buf ! q = 62 then
               if q + 1 < length buf \<and> buf ! (q + 1) = 62 then (43, q + 2) else (62, q + 1)
             else (97, q + length (takeWhile (\<lambda>c. c \<notin> whitespace \<and> c \<notin> symbols) (drop q buf))))
      in (ret, q, eq, skip_ws buf eq))"

definition peek :: "u8 list \<Rightarrow> nat \<Rightarrow> u8 set \<Rightarrow> bool \<times> nat" where
  "peek buf s toks =
     (let s = skip_ws buf s in (s < length buf \<and> buf ! s \<noteq> 0 \<and> buf ! s \<in> toks, s))"

definition skip_token :: "u8 list \<Rightarrow> nat \<Rightarrow> nat" where
  "skip_token buf s = (case gettoken buf s of (_, _, _, s) \<Rightarrow> s)"

section \<open>The parser\<close>

text \<open>A redirection that \<open>parseredirs\<close> wraps around the command it is given.\<close>

definition redircmd :: "nat \<times> nat \<times> int \<times> int \<Rightarrow> cmd \<Rightarrow> cmd" where
  "redircmd r c = (case r of (file, efile, mode, fd) \<Rightarrow> REDIR c file efile mode fd)"

fun parseredirs :: "nat \<Rightarrow> u8 list \<Rightarrow> nat \<Rightarrow> ((nat \<times> nat \<times> int \<times> int) list \<times> nat) parsed" where
  "parseredirs 0 buf s = OutOfFuel"
| "parseredirs (Suc n) buf s =
     (let (b, s) = peek buf s {60, 62} in
      if \<not> b then Parsed ([], s)
      else let (tok, _, _, s) = gettoken buf s; (tok2, q, eq, s) = gettoken buf s in
        if tok2 \<noteq> 97 then Panic ''missing file for redirection''
        else pbind (parseredirs n buf s) (\<lambda>(rs, s).
          Parsed ((if tok = 60 then [(q, eq, O_RDONLY, 0)]
                   else if tok = 62 \<or> tok = 43 then [(q, eq, O_WRONLY + O_CREATE, 1)]
                   else []) @ rs, s)))"

text \<open>The loop of \<open>parseexec\<close>: the arguments and the redirections in the order they are met.\<close>

fun parseargs :: "nat \<Rightarrow> u8 list \<Rightarrow> nat \<Rightarrow> nat \<Rightarrow> ((nat \<times> nat) list \<times> (nat \<times> nat \<times> int \<times> int) list \<times> nat) parsed" where
  "parseargs 0 buf s argc = OutOfFuel"
| "parseargs (Suc n) buf s argc =
     (let (b, s) = peek buf s {124, 41, 38, 59} in
      if b then Parsed ([], [], s)
      else let (tok, q, eq, s) = gettoken buf s in
        if tok = 0 then Parsed ([], [], s)
        else if tok \<noteq> 97 then Panic ''syntax''
        else if MAXARGS \<le> argc + 1 then Panic ''too many args''
        else pbind (parseredirs n buf s) (\<lambda>(rs, s).
          pbind (parseargs n buf s (argc + 1)) (\<lambda>(as, rs', s).
            Parsed ((q, eq) # as, rs @ rs', s))))"

fun parseback :: "nat \<Rightarrow> u8 list \<Rightarrow> nat \<Rightarrow> cmd \<Rightarrow> (cmd \<times> nat) parsed" where
  "parseback 0 buf s c = OutOfFuel"
| "parseback (Suc n) buf s c =
     (let (b, s) = peek buf s {38} in
      if b then parseback n buf (skip_token buf s) (BACK c) else Parsed (c, s))"

fun parseline :: "nat \<Rightarrow> u8 list \<Rightarrow> nat \<Rightarrow> (cmd \<times> nat) parsed"
  and parsepipe :: "nat \<Rightarrow> u8 list \<Rightarrow> nat \<Rightarrow> (cmd \<times> nat) parsed"
  and parseexec :: "nat \<Rightarrow> u8 list \<Rightarrow> nat \<Rightarrow> (cmd \<times> nat) parsed"
  and parseblock :: "nat \<Rightarrow> u8 list \<Rightarrow> nat \<Rightarrow> (cmd \<times> nat) parsed" where
  "parseline 0 buf s = OutOfFuel"
| "parseline (Suc n) buf s =
     pbind (parsepipe n buf s) (\<lambda>(c, s).
     pbind (parseback n buf s c) (\<lambda>(c, s).
       let (b, s) = peek buf s {59} in
       if b then pbind (parseline n buf (skip_token buf s)) (\<lambda>(d, s). Parsed (LIST c d, s))
       else Parsed (c, s)))"
| "parsepipe 0 buf s = OutOfFuel"
| "parsepipe (Suc n) buf s =
     pbind (parseexec n buf s) (\<lambda>(c, s).
       let (b, s) = peek buf s {124} in
       if b then pbind (parsepipe n buf (skip_token buf s)) (\<lambda>(d, s). Parsed (PIPE c d, s))
       else Parsed (c, s))"
| "parseexec 0 buf s = OutOfFuel"
| "parseexec (Suc n) buf s =
     (let (b, s) = peek buf s {40} in
      if b then parseblock n buf s
      else pbind (parseredirs n buf s) (\<lambda>(rs, s).
        pbind (parseargs n buf s 0) (\<lambda>(as, rs', s). Parsed (fold redircmd (rs @ rs') (EXEC as), s))))"
| "parseblock 0 buf s = OutOfFuel"
| "parseblock (Suc n) buf s =
     (let (b, s) = peek buf s {40} in
      if \<not> b then Panic ''parseblock''
      else pbind (parseline n buf (skip_token buf s)) (\<lambda>(c, s).
        let (b, s) = peek buf s {41} in
        if \<not> b then Panic ''syntax - missing )''
        else pbind (parseredirs n buf (skip_token buf s)) (\<lambda>(rs, s).
          Parsed (fold redircmd rs c, s))))"

text \<open>\<open>nulterminate\<close> puts a zero after every word of the command; \<open>es\<close> is the last byte of the array.\<close>

fun nulterminate :: "cmd \<Rightarrow> u8 list \<Rightarrow> u8 list" where
  "nulterminate (EXEC as) buf = fold (\<lambda>(q, eq) b. b[eq := 0]) as buf"
| "nulterminate (REDIR c file efile mode fd) buf = (nulterminate c buf)[efile := 0]"
| "nulterminate (PIPE c d) buf = nulterminate d (nulterminate c buf)"
| "nulterminate (LIST c d) buf = nulterminate d (nulterminate c buf)"
| "nulterminate (BACK c) buf = nulterminate c buf"

text \<open>\<open>parsecmd\<close> returns the command and the array, terminator included, after \<open>nulterminate\<close>.\<close>

definition parsecmd :: "nat \<Rightarrow> u8 list \<Rightarrow> (cmd \<times> u8 list) parsed" where
  "parsecmd n line =
     pbind (parseline n line 0) (\<lambda>(c, s).
       let (_, s) = peek line s {} in
       if s \<noteq> length line then Panic ''syntax''
       else Parsed (c, nulterminate c (line @ [0])))"

definition parse_fuel :: "u8 list \<Rightarrow> nat" where
  "parse_fuel line = 4 * length line + 8"

section \<open>Running a command\<close>

text \<open>The system calls of one process in order. \<open>Fork\<close> and \<open>Open\<close> carry what the child does, and what the process
  does when the file cannot be opened; the pipe ends are named by their index.\<close>

datatype act =
    Exec "(nat \<times> nat) list" | Close int | Open nat int "act list" | Fork "act list" | Wait
  | MakePipe | DupPipe nat | ClosePipe nat | Exit

fun runcmd :: "cmd \<Rightarrow> act list" where
  "runcmd (EXEC as) = (if as = [] then [Exit] else [Exec as, Exit])"
| "runcmd (REDIR c file efile mode fd) = [Close fd, Open file mode [Exit]] @ runcmd c"
| "runcmd (LIST c d) = [Fork (runcmd c), Wait] @ runcmd d"
| "runcmd (PIPE c d) =
     [MakePipe,
      Fork ([Close 1, DupPipe 1, ClosePipe 0, ClosePipe 1] @ runcmd c),
      Fork ([Close 0, DupPipe 0, ClosePipe 0, ClosePipe 1] @ runcmd d),
      ClosePipe 0, ClosePipe 1, Wait, Wait, Exit]"
| "runcmd (BACK c) = [Fork (runcmd c), Exit]"

text \<open>\<open>getcmd\<close> clears the buffer and reads a line into it; -1 on an end of file.\<close>

definition getcmd :: "memory \<Rightarrow> u32 \<Rightarrow> int \<Rightarrow> u8 list \<Rightarrow> int \<times> memory \<times> u8 list" where
  "getcmd m buf nbuf inp =
     (let m = ulib_memset m buf 0 (of_int nbuf); (m, inp) = gets m buf nbuf inp in
      (if m buf = 0 then -1 else 0, m, inp))"

end
