(* ===== verification/ShParse.thy ===== *)
theory ShParse
  imports Sh
begin

text \<open>
  The parser of the shell always comes to an end within its fuel, and the words of the command it returns are exactly the
  maximal runs of word characters: after \<open>nulterminate\<close> every argument and file name is a terminated string.
\<close>

section \<open>Tokens\<close>

definition word_char :: "u8 \<Rightarrow> bool" where
  "word_char c \<longleftrightarrow> c \<noteq> 0 \<and> c \<notin> whitespace \<and> c \<notin> symbols"

text \<open>A maximal run of word characters.\<close>

definition is_word :: "u8 list \<Rightarrow> nat \<times> nat \<Rightarrow> bool" where
  "is_word buf w = (case w of (q, eq) \<Rightarrow> q < eq \<and> eq \<le> length buf \<and> (\<forall>i. q \<le> i \<and> i < eq \<longrightarrow> word_char (buf ! i)) \<and>
     (eq < length buf \<longrightarrow> \<not> word_char (buf ! eq)))"

lemma skip_ws_bounds:
  assumes "s \<le> length buf"
  shows "s \<le> skip_ws buf s" and "skip_ws buf s \<le> length buf"
  using assms length_takeWhile_le [of "\<lambda>c. c \<in> whitespace" "drop s buf"] by (auto simp: skip_ws_def)

lemma skip_ws_char: "skip_ws buf s < length buf \<Longrightarrow> s \<le> length buf \<Longrightarrow> buf ! skip_ws buf s \<notin> whitespace"
  using nth_length_takeWhile [of "\<lambda>c. c \<in> whitespace" "drop s buf"] by (auto simp: skip_ws_def)

lemma takeWhile_word:
  assumes "q < length buf" and "buf ! q \<notin> whitespace" and "buf ! q \<notin> symbols" and "0 \<notin> set buf"
  shows "is_word buf (q, q + length (takeWhile (\<lambda>c. c \<notin> whitespace \<and> c \<notin> symbols) (drop q buf)))"
proof -
  let ?P = "\<lambda>c. c \<notin> whitespace \<and> c \<notin> symbols" let ?n = "length (takeWhile ?P (drop q buf))"
  have le: "q + ?n \<le> length buf" using length_takeWhile_le [of ?P "drop q buf"] assms(1) by simp
  have pos: "0 < ?n" using assms(1-3) by (simp add: Cons_nth_drop_Suc [symmetric])
  have ch: "word_char (buf ! i)" if "q \<le> i" "i < q + ?n" for i
  proof -
    have lt: "i - q < ?n" using that by arith
    then have "takeWhile ?P (drop q buf) ! (i - q) \<in> set (takeWhile ?P (drop q buf))" by (rule nth_mem)
    then have "?P (drop q buf ! (i - q))" unfolding takeWhile_nth [OF lt] by (blast dest: set_takeWhileD)
    moreover have "buf ! i \<in> set buf" using that le by simp
    ultimately show ?thesis using that assms(1,4) by (auto simp: word_char_def)
  qed
  have "\<not> word_char (buf ! (q + ?n))" if "q + ?n < length buf"
    using nth_length_takeWhile [of ?P "drop q buf"] that by (auto simp: word_char_def)
  then show ?thesis using le pos ch by (auto simp: is_word_def)
qed

lemma gettoken_spec:
  assumes g: "gettoken buf s = (t, q, eq, s')" and s: "s \<le> length buf" and nz: "0 \<notin> set buf"
  shows "s \<le> s'" and "s' \<le> length buf" and "t \<noteq> 0 \<Longrightarrow> s < s'" and "t = 97 \<Longrightarrow> is_word buf (q, eq)"
    and "skip_ws buf s < length buf \<Longrightarrow> t \<noteq> 0"
proof -
  let ?q = "skip_ws buf s"
  note qb = skip_ws_bounds [OF s]
  have w: "is_word buf (?q, ?q + length (takeWhile (\<lambda>c. c \<notin> whitespace \<and> c \<notin> symbols) (drop ?q buf)))"
    if "?q < length buf" "buf ! ?q \<notin> {124, 40, 41, 59, 38, 60}" "buf ! ?q \<noteq> 62"
    by (rule takeWhile_word) (use that skip_ws_char [OF that(1) s] nz in \<open>auto simp: symbols_def\<close>)
  have z: "buf ! ?q \<noteq> 0" if "?q < length buf" using that nz nth_mem by metis
  have G: "q = ?q \<and> s' = skip_ws buf eq \<and> q \<le> eq \<and> eq \<le> length buf \<and> (t \<noteq> 0 \<longrightarrow> q < eq) \<and>
      (t = 97 \<longrightarrow> is_word buf (q, eq)) \<and> (q < length buf \<longrightarrow> t \<noteq> 0)"
  proof (cases "length buf \<le> ?q")
    case True
    then show ?thesis using g qb by (auto simp: gettoken_def Let_def)
  next
    case False
    then show ?thesis using g w z by (auto simp: gettoken_def Let_def is_word_def split: if_splits)
  qed
  then have "eq \<le> length buf" by blast
  note e = skip_ws_bounds [OF this]
  show "s \<le> s'" "s' \<le> length buf" "t \<noteq> 0 \<Longrightarrow> s < s'" "t = 97 \<Longrightarrow> is_word buf (q, eq)" "skip_ws buf s < length buf \<Longrightarrow> t \<noteq> 0"
    using G e qb by auto
qed

lemma peek_spec:
  assumes "peek buf s toks = (b, s')" and "s \<le> length buf"
  shows "s \<le> s'" and "s' \<le> length buf" and "b \<Longrightarrow> s' < length buf" and "skip_ws buf s' = s'"
proof -
  have s': "s' = skip_ws buf s" using assms(1) by (auto simp: peek_def Let_def)
  show "s \<le> s'" "s' \<le> length buf" using skip_ws_bounds [OF assms(2)] s' by simp_all
  show "b \<Longrightarrow> s' < length buf" using assms(1) by (auto simp: peek_def Let_def)
  show "skip_ws buf s' = s'"
  proof (cases "s' < length buf")
    case True
    then have "buf ! s' \<notin> whitespace" using skip_ws_char [of buf s] assms(2) s' by simp
    then show ?thesis using True by (simp add: skip_ws_def Cons_nth_drop_Suc [symmetric])
  next
    case False
    then show ?thesis by (simp add: skip_ws_def)
  qed
qed

lemma skip_token_spec:
  assumes "peek buf s toks = (b, s')" and "s \<le> length buf" and "0 \<notin> set buf" and "b"
  shows "s < skip_token buf s'" and "skip_token buf s' \<le> length buf"
proof -
  note p = peek_spec [OF assms(1,2)]
  obtain t q eq s2 where g: "gettoken buf s' = (t, q, eq, s2)" by (cases "gettoken buf s'") auto
  note gs = gettoken_spec [OF g p(2) assms(3)]
  have "t \<noteq> 0" using gs(5) p(3,4) assms(4) by simp
  then show "s < skip_token buf s'" "skip_token buf s' \<le> length buf" using gs p g by (auto simp: skip_token_def)
qed

section \<open>The parser ends and finds words\<close>

text \<open>The parser did not run out of fuel, and if it returned, its result satisfies \<open>R\<close>.\<close>

fun fine :: "('a \<Rightarrow> bool) \<Rightarrow> 'a parsed \<Rightarrow> bool" where
  "fine R (Parsed x) = R x"
| "fine R (Panic e) = True"
| "fine R OutOfFuel = False"

lemma fine_bind: "fine R m \<Longrightarrow> (\<And>x. R x \<Longrightarrow> fine S (f x)) \<Longrightarrow> fine S (pbind m f)"
  by (cases m) auto

fun words :: "cmd \<Rightarrow> (nat \<times> nat) set" where
  "words (EXEC as) = set as"
| "words (REDIR c file efile mode fd) = insert (file, efile) (words c)"
| "words (PIPE c d) = words c \<union> words d"
| "words (LIST c d) = words c \<union> words d"
| "words (BACK c) = words c"

definition redirs_ok :: "u8 list \<Rightarrow> nat \<Rightarrow> (nat \<times> nat \<times> int \<times> int) list \<times> nat \<Rightarrow> bool" where
  "redirs_ok buf s r = (case r of (rs, s') \<Rightarrow> s \<le> s' \<and> s' \<le> length buf \<and> (\<forall>(q, eq, m, fd)\<in>set rs. is_word buf (q, eq)))"

definition args_ok :: "u8 list \<Rightarrow> nat \<Rightarrow> (nat \<times> nat) list \<times> (nat \<times> nat \<times> int \<times> int) list \<times> nat \<Rightarrow> bool" where
  "args_ok buf s r = (case r of (as, rs, s') \<Rightarrow> (\<forall>w\<in>set as. is_word buf w) \<and> redirs_ok buf s (rs, s'))"

definition cmd_ok :: "u8 list \<Rightarrow> nat \<Rightarrow> cmd \<times> nat \<Rightarrow> bool" where
  "cmd_ok buf s r = (case r of (c, s') \<Rightarrow> s \<le> s' \<and> s' \<le> length buf \<and> (\<forall>w\<in>words c. is_word buf w))"

lemma words_redirs: "words (fold redircmd rs c) = words c \<union> {(q, eq) |q eq m fd. (q, eq, m, fd) \<in> set rs}"
  by (induction rs arbitrary: c) (auto simp: redircmd_def split: prod.splits)

lemma redirs_ok_words:
  "redirs_ok buf s (rs, s') \<Longrightarrow> \<forall>w\<in>words c. is_word buf w \<Longrightarrow> \<forall>w\<in>words (fold redircmd rs c). is_word buf w"
  by (fastforce simp: words_redirs redirs_ok_def)

lemma parseredirs_fine:
  assumes "0 \<notin> set buf" and "s \<le> length buf" and "length buf - s < n"
  shows "fine (redirs_ok buf s) (parseredirs n buf s)"
  using assms(2,3)
proof (induction n arbitrary: s)
  case (Suc n)
  obtain b s1 where p: "peek buf s {60, 62} = (b, s1)" by (cases "peek buf s {60, 62}")
  obtain t q0 e0 s2 where g: "gettoken buf s1 = (t, q0, e0, s2)" by (cases "gettoken buf s1") auto
  obtain t2 q eq s3 where g2: "gettoken buf s2 = (t2, q, eq, s3)" by (cases "gettoken buf s2") auto
  note ps = peek_spec [OF p Suc.prems(1)]
  note gs = gettoken_spec [OF g ps(2) assms(1)]
  note gs2 = gettoken_spec [OF g2 gs(2) assms(1)]
  show ?case
  proof (cases "b \<and> t2 = 97")
    case False
    then show ?thesis using p g g2 ps by (auto simp: redirs_ok_def)
  next
    case True
    then have "s < s3" using gs(1) gs2(3) ps(1) by simp
    then have "fine (redirs_ok buf s3) (parseredirs n buf s3)" using Suc.IH [of s3] Suc.prems gs2(2) by simp
    then show ?thesis using True p g g2 gs2(4) \<open>s < s3\<close>
      by (auto intro!: fine_bind simp: redirs_ok_def)
  qed
qed simp

lemma parseargs_fine:
  assumes "0 \<notin> set buf" and "s \<le> length buf" and "length buf - s + 1 < n"
  shows "fine (args_ok buf s) (parseargs n buf s argc)"
  using assms(2,3)
proof (induction n arbitrary: s argc)
  case (Suc n)
  obtain b s1 where p: "peek buf s {124, 41, 38, 59} = (b, s1)" by (cases "peek buf s {124, 41, 38, 59}")
  obtain t q eq s2 where g: "gettoken buf s1 = (t, q, eq, s2)" by (cases "gettoken buf s1") auto
  note ps = peek_spec [OF p Suc.prems(1)]
  note gs = gettoken_spec [OF g ps(2) assms(1)]
  show ?case
  proof (cases "\<not> b \<and> t = 97 \<and> \<not> MAXARGS \<le> argc + 1")
    case False
    then show ?thesis using p g ps gs by (auto simp: args_ok_def redirs_ok_def)
  next
    case True
    then have lt: "s < s2" using gs(3) ps(1) by simp
    have r: "fine (redirs_ok buf s2) (parseredirs n buf s2)" by (rule parseredirs_fine [OF assms(1) gs(2)]) (use lt Suc.prems gs(2) in arith)
    have a: "fine (args_ok buf s3) (parseargs n buf s3 (argc + 1))" if "s2 \<le> s3" "s3 \<le> length buf" for s3
      using Suc.IH [of s3] that lt Suc.prems by simp
    have "fine (args_ok buf s) (pbind (parseredirs n buf s2) (\<lambda>(rs, s). pbind (parseargs n buf s (argc + 1)) (\<lambda>(as, rs', s).
            Parsed ((q, eq) # as, rs @ rs', s))))"
      by (rule fine_bind [OF r], clarify, rule fine_bind [OF a]) (use gs(4) True lt in \<open>auto simp: args_ok_def redirs_ok_def\<close>)
    then show ?thesis using True p g by simp
  qed
qed simp

lemma parseback_fine:
  assumes "0 \<notin> set buf" and "s \<le> length buf" and "length buf - s < n" and "\<forall>w\<in>words c. is_word buf w"
  shows "fine (cmd_ok buf s) (parseback n buf s c)"
  using assms(2-)
proof (induction n arbitrary: s c)
  case (Suc n)
  obtain b s1 where p: "peek buf s {38} = (b, s1)" by (cases "peek buf s {38}")
  note ps = peek_spec [OF p Suc.prems(1)]
  show ?case
  proof (cases b)
    case False
    then show ?thesis using p ps Suc.prems by (simp add: cmd_ok_def)
  next
    case True
    note sk = skip_token_spec [OF p Suc.prems(1) assms(1) True]
    have "fine (cmd_ok buf (skip_token buf s1)) (parseback n buf (skip_token buf s1) (BACK c))"
      by (rule Suc.IH) (use sk Suc.prems in auto)
    then show ?thesis using True p sk by (cases "parseback n buf (skip_token buf s1) (BACK c)") (auto simp: cmd_ok_def)
  qed
qed simp

text \<open>Fuel \<open>4 * k + c\<close> is enough for \<open>k\<close> bytes: every round through the four nonterminals eats a byte.\<close>

lemma parse_fine:
  assumes nz: "0 \<notin> set buf"
  shows "s \<le> length buf \<Longrightarrow> 4 * (length buf - s) + 8 \<le> n \<Longrightarrow> fine (cmd_ok buf s) (parseline n buf s)"
    and "s \<le> length buf \<Longrightarrow> 4 * (length buf - s) + 7 \<le> n \<Longrightarrow> fine (cmd_ok buf s) (parsepipe n buf s)"
    and "s \<le> length buf \<Longrightarrow> 4 * (length buf - s) + 6 \<le> n \<Longrightarrow> fine (cmd_ok buf s) (parseexec n buf s)"
    and "s \<le> length buf \<Longrightarrow> 4 * (length buf - s) + 5 \<le> n \<Longrightarrow> fine (cmd_ok buf s) (parseblock n buf s)"
proof (induction n arbitrary: s)
  case (Suc n)
  {
    case 1
    have p: "fine (cmd_ok buf s) (parsepipe n buf s)" using Suc.IH(2) [of s] 1 by simp
    have fin: "fine (cmd_ok buf s) (let (b, s) = peek buf s2 {59} in
        if b then pbind (parseline n buf (skip_token buf s)) (\<lambda>(d, s). Parsed (LIST c d, s)) else Parsed (c, s))"
      if c: "cmd_ok buf s (c, s2)" for c s2
    proof -
      obtain b s3 where pk: "peek buf s2 {59} = (b, s3)" by (cases "peek buf s2 {59}")
      have s2: "s \<le> s2" "s2 \<le> length buf" using c by (auto simp: cmd_ok_def)
      note ps = peek_spec [OF pk s2(2)]
      have "fine (cmd_ok buf (skip_token buf s3)) (parseline n buf (skip_token buf s3))" if b
        using Suc.IH(1) [of "skip_token buf s3"] skip_token_spec [OF pk s2(2) nz that] s2 1 by simp
      then show ?thesis using pk ps c skip_token_spec [OF pk s2(2) nz]
        by (auto intro!: fine_bind simp: cmd_ok_def)
    qed
    have bk: "fine (cmd_ok buf s2) (parseback n buf s2 c)" if "cmd_ok buf s (c, s2)" for c s2
      using that 1 by (intro parseback_fine [OF nz]) (auto simp: cmd_ok_def)
    have "fine (cmd_ok buf s) (pbind (parsepipe n buf s) (\<lambda>(c, s). pbind (parseback n buf s c) (\<lambda>(c, s).
       let (b, s) = peek buf s {59} in
       if b then pbind (parseline n buf (skip_token buf s)) (\<lambda>(d, s). Parsed (LIST c d, s)) else Parsed (c, s))))"
      by (rule fine_bind [OF p], clarify, rule fine_bind [OF bk], assumption, clarify, rule fin) (auto simp: cmd_ok_def)
    then show ?case by simp
  next
    case 2
    have e: "fine (cmd_ok buf s) (parseexec n buf s)" using Suc.IH(3) [of s] 2 by simp
    have fin: "fine (cmd_ok buf s) (let (b, s) = peek buf s2 {124} in
        if b then pbind (parsepipe n buf (skip_token buf s)) (\<lambda>(d, s). Parsed (PIPE c d, s)) else Parsed (c, s))"
      if c: "cmd_ok buf s (c, s2)" for c s2
    proof -
      obtain b s3 where pk: "peek buf s2 {124} = (b, s3)" by (cases "peek buf s2 {124}")
      have s2: "s \<le> s2" "s2 \<le> length buf" using c by (auto simp: cmd_ok_def)
      note ps = peek_spec [OF pk s2(2)]
      have "fine (cmd_ok buf (skip_token buf s3)) (parsepipe n buf (skip_token buf s3))" if b
        using Suc.IH(2) [of "skip_token buf s3"] skip_token_spec [OF pk s2(2) nz that] s2 2 by simp
      then show ?thesis using pk ps c skip_token_spec [OF pk s2(2) nz]
        by (auto intro!: fine_bind simp: cmd_ok_def)
    qed
    show ?case unfolding parsepipe.simps by (rule fine_bind [OF e], clarify, rule fin)
  next
    case 3
    obtain b s1 where pk: "peek buf s {40} = (b, s1)" by (cases "peek buf s {40}")
    note ps = peek_spec [OF pk 3(1)]
    have bl: "fine (cmd_ok buf s1) (parseblock n buf s1)" using Suc.IH(4) [of s1] ps 3 by simp
    have r: "fine (redirs_ok buf s1) (parseredirs n buf s1)" by (rule parseredirs_fine [OF nz ps(2)]) (use ps 3 in arith)
    have a: "fine (args_ok buf s2) (parseargs n buf s2 0)" if "redirs_ok buf s1 (rs, s2)" for rs s2
      using that ps 3 by (intro parseargs_fine [OF nz]) (auto simp: redirs_ok_def)
    have ex: "fine (cmd_ok buf s) (pbind (parseredirs n buf s1) (\<lambda>(rs, s). pbind (parseargs n buf s 0) (\<lambda>(as, rs', s).
        Parsed (fold redircmd (rs @ rs') (EXEC as), s))))"
      by (rule fine_bind [OF r], clarify, rule fine_bind [OF a], assumption)
        (use ps in \<open>auto simp: args_ok_def redirs_ok_def cmd_ok_def words_redirs\<close>)
    have "fine (cmd_ok buf s) (parseblock n buf s1)" using bl ps(1) by (cases "parseblock n buf s1") (auto simp: cmd_ok_def)
    then show ?case using pk ex by simp
  next
    case 4
    obtain b s1 where pk: "peek buf s {40} = (b, s1)" by (cases "peek buf s {40}")
    note ps = peek_spec [OF pk 4(1)]
    show ?case
    proof (cases b)
      case True
      note sk = skip_token_spec [OF pk 4(1) nz True]
      have l: "fine (cmd_ok buf (skip_token buf s1)) (parseline n buf (skip_token buf s1))"
        using Suc.IH(1) [of "skip_token buf s1"] sk 4 by simp
      have fin: "fine (cmd_ok buf s) (let (b, s) = peek buf s2 {41} in
          if \<not> b then Panic ''syntax - missing )''
          else pbind (parseredirs n buf (skip_token buf s)) (\<lambda>(rs, s). Parsed (fold redircmd rs c, s)))"
        if c: "cmd_ok buf (skip_token buf s1) (c, s2)" for c s2
      proof -
        obtain b2 s3 where pk2: "peek buf s2 {41} = (b2, s3)" by (cases "peek buf s2 {41}")
        have s2: "skip_token buf s1 \<le> s2" "s2 \<le> length buf" using c by (auto simp: cmd_ok_def)
        have "fine (redirs_ok buf (skip_token buf s3)) (parseredirs n buf (skip_token buf s3))" if b2
          by (rule parseredirs_fine [OF nz]) (use skip_token_spec [OF pk2 s2(2) nz that] s2 sk 4 in arith)+
        then show ?thesis using pk2 c sk s2 skip_token_spec [OF pk2 s2(2) nz]
          by (auto intro!: fine_bind simp: redirs_ok_def cmd_ok_def words_redirs)
      qed
      have "fine (cmd_ok buf s) (pbind (parseline n buf (skip_token buf s1)) (\<lambda>(c, s). let (b, s) = peek buf s {41} in
          if \<not> b then Panic ''syntax - missing )''
          else pbind (parseredirs n buf (skip_token buf s)) (\<lambda>(rs, s). Parsed (fold redircmd rs c, s))))"
        by (rule fine_bind [OF l], clarify, rule fin)
      then show ?thesis using True pk by simp
    qed (use pk in simp)
  }
qed simp_all

section \<open>Terminated words\<close>

lemma nulterminate_length [simp]: "length (nulterminate c buf) = length buf"
proof -
  have "length (fold (\<lambda>(q, eq) b. b[eq := 0]) as buf) = length buf" for as and buf :: "u8 list"
    by (induction as arbitrary: buf) auto
  then show ?thesis by (induction c buf rule: nulterminate.induct) auto
qed

lemma nulterminate_nth:
  "i < length buf \<Longrightarrow> nulterminate c buf ! i = (if \<exists>q. (q, i) \<in> words c then 0 else buf ! i)"
proof (induction c buf rule: nulterminate.induct)
  case (1 as buf)
  then show ?case
  proof (induction as arbitrary: buf)
    case (Cons a as)
    then show ?case by (cases a) (auto simp: nth_list_update)
  qed simp
next
  case (2 c fl efile mode fd buf)
  then show ?case by (cases "i = efile") auto
qed (auto split: if_splits)

lemma terminated_word:
  assumes w: "is_word line (q, eq)" and all: "\<forall>w\<in>words c. is_word line w" and mem: "(q, eq) \<in> words c"
  shows "takeWhile (\<lambda>x. x \<noteq> 0) (drop q (nulterminate c (line @ [0]))) = take (eq - q) (drop q line)"
proof -
  let ?b = "nulterminate c (line @ [0])"
  have le: "q < eq" "eq \<le> length line" and ch: "\<And>i. q \<le> i \<Longrightarrow> i < eq \<Longrightarrow> word_char (line ! i)"
    using w by (auto simp: is_word_def)
  have same: "?b ! i = line ! i" if "q \<le> i" "i < eq" for i
  proof -
    have "\<not> (\<exists>p. (p, i) \<in> words c)"
      using all ch [OF that] that le by (fastforce simp: is_word_def)
    then show ?thesis using that le by (simp add: nulterminate_nth nth_append)
  qed
  have z: "?b ! eq = 0" using mem le by (auto simp: nulterminate_nth)
  have t: "take (eq - q) (drop q ?b) = take (eq - q) (drop q line)"
    by (rule nth_equalityI) (use le same in auto)
  have "drop q ?b = take (eq - q) (drop q ?b) @ drop (eq - q) (drop q ?b)" by (rule append_take_drop_id [symmetric])
  also have "drop (eq - q) (drop q ?b) = drop eq ?b" using le by simp
  also have "drop eq ?b = 0 # drop (Suc eq) ?b" using z le Cons_nth_drop_Suc [of eq ?b] by simp
  finally have dq: "drop q ?b = take (eq - q) (drop q line) @ 0 # drop (Suc eq) ?b" unfolding t .
  have "\<forall>x\<in>set (take (eq - q) (drop q line)). x \<noteq> 0"
    using ch le by (auto simp: in_set_conv_nth word_char_def)
  then show ?thesis unfolding dq by (subst takeWhile_append2) auto
qed


text \<open>The line \<^verbatim>\<open>ls|wc\<close>.\<close>

definition sh_example :: "u8 list" where "sh_example = [108, 115, 124, 119, 99]"


end
