(* ===== verification/Ptable.thy ===== *)
theory Ptable
  imports PageTable
begin

text \<open>
  The process table of \<^verbatim>\<open>proc.h\<close> and the parts of \<^verbatim>\<open>proc.c\<close> that every layer of the kernel calls: the current
  process and wakeups. A process is an index into \<^verbatim>\<open>ptable.proc\<close>, an open file an index into \<^verbatim>\<open>ftable.file\<close>,
  an inode an index into \<^verbatim>\<open>icache.inode\<close>; null pointers are \<open>None\<close>. Trap frames and contexts are in machine
  memory, on the kernel stack of the process; \<open>trapret\<close> and \<open>forkret_pc\<close> are the addresses of \<^verbatim>\<open>trapret\<close> and \<^verbatim>\<open>forkret\<close>. A channel, in C any address, is a value of \<open>chan\<close>: one constructor
  per kind of object that processes sleep on. The last section is how the kernel reads and writes the memory
  of the current process: through its page table, with a page fault where a page is read-only.
\<close>

section \<open>State\<close>

datatype procstate = UNUSED | EMBRYO | SLEEPING | RUNNABLE | RUNNING | ZOMBIE

datatype chan = CProc nat | CBuf nat | CBufLock nat | CInodeLock nat | CLog | CPipeRead u32 | CPipeWrite u32
  | CTicks | CInput

record proc =
  p_sz :: u32
  p_pgdir :: u32
  p_kstack :: u32
  p_state :: procstate
  p_pid :: int
  p_parent :: "nat option"
  p_tf :: u32
  p_context :: u32
  p_chan :: "chan option"
  p_killed :: bool
  p_ofile :: "nat option list"
  p_cwd :: "nat option"
  p_name :: "u8 list"

record ptable = vm +
  procs :: "proc list"
  myproc :: "nat option"
  initproc :: "nat option"
  nextpid :: int
  trapret :: u32
  forkret_pc :: u32

definition upd_proc :: "nat \<Rightarrow> (proc \<Rightarrow> proc) \<Rightarrow> 'z ptable_scheme \<Rightarrow> 'z ptable_scheme" where
  "upd_proc p f s = s\<lparr>procs := (procs s)[p := f (procs s ! p)]\<rparr>"

definition cur_proc :: "'z ptable_scheme \<Rightarrow> proc option" where
  "cur_proc s = do { p \<leftarrow> myproc s; Some (procs s ! p) }"

section \<open>Wakeups\<close>

definition wake_proc :: "chan \<Rightarrow> proc \<Rightarrow> proc" where
  "wake_proc ch p = (if p_state p = SLEEPING \<and> p_chan p = Some ch then p\<lparr>p_state := RUNNABLE\<rparr> else p)"

definition wakeup1 :: "chan \<Rightarrow> 'z ptable_scheme \<Rightarrow> 'z ptable_scheme" where
  "wakeup1 ch s = s\<lparr>procs := map (wake_proc ch) (procs s)\<rparr>"

definition wakeup :: "chan \<Rightarrow> 'z ptable_scheme \<Rightarrow> 'z ptable_scheme option" where
  "wakeup ch s = do {
     s \<leftarrow> acquire LPtable s;
     release LPtable (wakeup1 ch s) }"

lemma acquire_Some [simp]: "l \<notin> set (held s) \<Longrightarrow> acquire l s = Some (s\<lparr>held := l # held s\<rparr>)"
  by (simp add: acquire_def)

lemma release_Some [simp]: "l \<in> set (held s) \<Longrightarrow> release l s = Some (s\<lparr>held := remove1 l (held s)\<rparr>)"
  by (simp add: release_def)

lemma wakeup_eq [simp]: "LPtable \<notin> set (held s) \<Longrightarrow> wakeup ch s = Some (wakeup1 ch s)"
  by (simp add: wakeup_def wakeup1_def)

section \<open>The memory of the current process\<close>

text \<open>An access from the kernel to a user address goes through the page table that is loaded; \<^verbatim>\<open>PTE_U\<close> is not
  checked in kernel mode, \<^verbatim>\<open>PTE_W\<close> is, since \<^verbatim>\<open>CR0_WP\<close> is set. A fault that \<^verbatim>\<open>pagefault\<close> does not repair
  is taken again and again: \<open>None\<close>.\<close>

definition kaddr :: "u32 \<Rightarrow> u32 \<Rightarrow> 'z vm_scheme \<Rightarrow> u32" where
  "kaddr pgdir va s = P2V (PTE_ADDR (lookup (mem s) pgdir va)) + (va AND 0xFFF)"

definition uload :: "u32 \<Rightarrow> u32 \<Rightarrow> 'z vm_scheme \<Rightarrow> u8 option" where
  "uload pgdir va s =
     (if va \<ge> KERNBASE then Some (mem s va)
      else if lookup (mem s) pgdir va AND PTE_P \<noteq> 0 then Some (mem s (kaddr pgdir va s))
      else None)"

definition ustore :: "u32 \<Rightarrow> u32 \<Rightarrow> u8 \<Rightarrow> 'z vm_scheme \<Rightarrow> 'z vm_scheme option" where
  "ustore pgdir va b s =
     (if va \<ge> KERNBASE then Some (s\<lparr>mem := (mem s)(va := b)\<rparr>)
      else if lookup (mem s) pgdir va AND PTE_P \<noteq> 0 \<and> lookup (mem s) pgdir va AND PTE_W \<noteq> 0
      then Some (s\<lparr>mem := (mem s)(kaddr pgdir va s := b)\<rparr>)
      else do {
        (dead, s) \<leftarrow> pagefault (Some pgdir) va s;
        if dead then None else Some (s\<lparr>mem := (mem s)(kaddr pgdir va s := b)\<rparr>) })"

fun uload_bytes :: "u32 \<Rightarrow> u32 \<Rightarrow> nat \<Rightarrow> 'z vm_scheme \<Rightarrow> u8 list option" where
  "uload_bytes pgdir va 0 s = Some []"
| "uload_bytes pgdir va (Suc n) s = do {
     b \<leftarrow> uload pgdir va s;
     bs \<leftarrow> uload_bytes pgdir (va + 1) n s;
     Some (b # bs) }"

fun ustore_bytes :: "u32 \<Rightarrow> u32 \<Rightarrow> u8 list \<Rightarrow> 'z vm_scheme \<Rightarrow> 'z vm_scheme option" where
  "ustore_bytes pgdir va [] s = Some s"
| "ustore_bytes pgdir va (b # bs) s = do {
     s \<leftarrow> ustore pgdir va b s;
     ustore_bytes pgdir (va + 1) bs s }"

text \<open>A 32-bit word, the low byte first.\<close>

definition uload32 :: "u32 \<Rightarrow> u32 \<Rightarrow> 'z vm_scheme \<Rightarrow> u32 option" where
  "uload32 pgdir va s = do {
     b0 \<leftarrow> uload pgdir va s;
     b1 \<leftarrow> uload pgdir (va + 1) s;
     b2 \<leftarrow> uload pgdir (va + 2) s;
     b3 \<leftarrow> uload pgdir (va + 3) s;
     Some (word_cat (word_cat b3 b2 :: u16) (word_cat b1 b0 :: u16)) }"

definition word_bytes :: "u32 \<Rightarrow> u8 list" where
  "word_bytes w = [ucast w, ucast (drop_bit 8 w), ucast (drop_bit 16 w), ucast (drop_bit 24 w)]"

definition ustore32 :: "u32 \<Rightarrow> u32 \<Rightarrow> u32 \<Rightarrow> 'z vm_scheme \<Rightarrow> 'z vm_scheme option" where
  "ustore32 pgdir va w s = ustore_bytes pgdir va (word_bytes w) s"

end
