(* ===== verification/Bio.thy ===== *)
theory Bio
  imports Ptable Ondisk
begin

text \<open>
  Sleep locks, the disk drivers and the buffer cache: \<^verbatim>\<open>sleeplock.c\<close>, \<^verbatim>\<open>ide.c\<close>, \<^verbatim>\<open>memide.c\<close>, \<^verbatim>\<open>bio.c\<close>. The view is that of
  one process: \<open>None\<close> stands for a panic and for a wait that another process would have to end. A buffer is
  named by its index in \<^verbatim>\<open>bcache.buf\<close>; the list through \<^verbatim>\<open>next\<close> is \<open>lru\<close>, the most recently used first.
  The bits \<^verbatim>\<open>B_VALID\<close> and \<^verbatim>\<open>B_DIRTY\<close> of \<^verbatim>\<open>flags\<close> are two fields. \<open>dtrace\<close> records the writes that reach
  the disk, in order, for the study of crashes.
\<close>

section \<open>State\<close>

record sleeplock =
  sl_locked :: bool
  sl_pid :: int

record buf =
  valid :: bool
  dirty :: bool
  dev :: u32
  blockno :: u32
  b_lock :: sleeplock
  refcnt :: u32
  data :: "u8 list"

record bio = ptable +
  bufs :: "buf list"
  lru :: "nat list"
  disk :: "u32 \<Rightarrow> u32 \<Rightarrow> u8 list"
  dtrace :: "(u32 \<times> u32 \<times> u8 list) list"
  havedisk1 :: bool
  ide_error :: bool
  idequeue :: "nat list"

section \<open>sleeplock.c\<close>

text \<open>A sleep lock is protected by a spin lock of its own that is only held inside these functions. \<open>upd\<close> changes
  the lock where it is in the state.\<close>

definition initsleeplock :: sleeplock where
  "initsleeplock = \<lparr>sl_locked = False, sl_pid = 0\<rparr>"

definition acquiresleep ::
  "sleeplock \<Rightarrow> ((sleeplock \<Rightarrow> sleeplock) \<Rightarrow> 'z ptable_scheme \<Rightarrow> 'z ptable_scheme) \<Rightarrow> 'z ptable_scheme \<Rightarrow> 'z ptable_scheme option" where
  "acquiresleep lk upd s =
     (if sl_locked lk then None
      else do {
        p \<leftarrow> myproc s;
        Some (upd (\<lambda>lk. lk\<lparr>sl_locked := True, sl_pid := p_pid (procs s ! p)\<rparr>) s) })"

definition releasesleep ::
  "chan \<Rightarrow> ((sleeplock \<Rightarrow> sleeplock) \<Rightarrow> 'z ptable_scheme \<Rightarrow> 'z ptable_scheme) \<Rightarrow> 'z ptable_scheme \<Rightarrow> 'z ptable_scheme option" where
  "releasesleep ch upd s = wakeup ch (upd (\<lambda>lk. lk\<lparr>sl_locked := False, sl_pid := 0\<rparr>) s)"

definition holdingsleep :: "sleeplock \<Rightarrow> bool" where
  "holdingsleep lk = sl_locked lk"

section \<open>ide.c\<close>

definition upd_buf :: "nat \<Rightarrow> (buf \<Rightarrow> buf) \<Rightarrow> 'z bio_scheme \<Rightarrow> 'z bio_scheme" where
  "upd_buf i f s = s\<lparr>bufs := (bufs s)[i := f (bufs s ! i)]\<rparr>"

definition upd_buf_lock :: "nat \<Rightarrow> (sleeplock \<Rightarrow> sleeplock) \<Rightarrow> 'z bio_scheme \<Rightarrow> 'z bio_scheme" where
  "upd_buf_lock i f = upd_buf i (\<lambda>b. b\<lparr>b_lock := f (b_lock b)\<rparr>)"

definition disk_write :: "u32 \<Rightarrow> u32 \<Rightarrow> u8 list \<Rightarrow> 'z bio_scheme \<Rightarrow> 'z bio_scheme" where
  "disk_write d b bs s = s\<lparr>disk := (disk s)(d := (disk s d)(b := bs)), dtrace := dtrace s @ [(d, b, bs)]\<rparr>"

text \<open>\<open>idestart\<close> programs the controller; for a write it also hands the data over, which the disk then stores.
  The drive is bit 0 of the device number.\<close>

definition idestart :: "nat \<Rightarrow> 'z bio_scheme \<Rightarrow> 'z bio_scheme option" where
  "idestart i s =
     (let b = bufs s ! i in
      if blockno b \<ge> FSSIZE then None
      else if dirty b then Some (disk_write (dev b AND 1) (blockno b) (data b) s)
      else Some s)"

text \<open>\<open>ideintr\<close>; \<open>ide_error\<close> is the error status that \<^verbatim>\<open>idewait(1)\<close> finds.\<close>

definition ideintr :: "'z bio_scheme \<Rightarrow> 'z bio_scheme option" where
  "ideintr s = do {
     s \<leftarrow> acquire LIde s;
     case idequeue s of
       [] \<Rightarrow> release LIde s
     | i # q \<Rightarrow> do {
         let s = s\<lparr>idequeue := q\<rparr>;
         let b = bufs s ! i;
         let s = (if \<not> dirty b \<and> \<not> ide_error s then upd_buf i (\<lambda>c. c\<lparr>data := disk s (dev b AND 1) (blockno b)\<rparr>) s else s);
         let s = upd_buf i (\<lambda>c. c\<lparr>valid := True, dirty := False\<rparr>) s;
         s \<leftarrow> wakeup (CBuf i) s;
         s \<leftarrow> (if q \<noteq> [] then idestart (hd q) s else Some s);
         release LIde s } }"

text \<open>The wait of \<open>iderw\<close>: the process sleeps with the lock released until interrupts have served its request.\<close>

partial_function (option) iderw_wait :: "nat \<Rightarrow> 'z bio_scheme \<Rightarrow> 'z bio_scheme option" where
  "iderw_wait i s =
     (if valid (bufs s ! i) \<and> \<not> dirty (bufs s ! i) then Some s
      else if idequeue s = [] then None
      else do {
        s \<leftarrow> release LIde s;
        s \<leftarrow> ideintr s;
        s \<leftarrow> acquire LIde s;
        iderw_wait i s })"

definition iderw :: "nat \<Rightarrow> 'z bio_scheme \<Rightarrow> 'z bio_scheme option" where
  "iderw i s =
     (let b = bufs s ! i in
      if \<not> holdingsleep (b_lock b) then None
      else if valid b \<and> \<not> dirty b then None
      else if dev b \<noteq> 0 \<and> \<not> havedisk1 s then None
      else do {
        s \<leftarrow> acquire LIde s;
        let s = s\<lparr>idequeue := idequeue s @ [i]\<rparr>;
        s \<leftarrow> (if hd (idequeue s) = i then idestart i s else Some s);
        s \<leftarrow> iderw_wait i s;
        release LIde s })"

section \<open>memide.c\<close>

text \<open>The fake disk in memory: the image of the disk is \<open>disk s 1\<close>, \<open>disksize\<close> blocks long.\<close>

definition memide_rw :: "u32 \<Rightarrow> nat \<Rightarrow> 'z bio_scheme \<Rightarrow> 'z bio_scheme option" where
  "memide_rw disksize i s =
     (let b = bufs s ! i in
      if \<not> holdingsleep (b_lock b) then None
      else if valid b \<and> \<not> dirty b then None
      else if dev b \<noteq> 1 then None
      else if blockno b \<ge> disksize then None
      else
        let s = (if dirty b
                 then disk_write 1 (blockno b) (data b) (upd_buf i (\<lambda>c. c\<lparr>dirty := False\<rparr>) s)
                 else upd_buf i (\<lambda>c. c\<lparr>data := disk s 1 (blockno b)\<rparr>) s)
        in Some (upd_buf i (\<lambda>c. c\<lparr>valid := True\<rparr>) s))"

section \<open>bio.c\<close>

text \<open>\<open>binit\<close>: every buffer is put at the head of the list in turn.\<close>

definition binit :: "'z bio_scheme \<Rightarrow> 'z bio_scheme" where
  "binit s = s\<lparr>bufs := map (\<lambda>b. b\<lparr>b_lock := initsleeplock\<rparr>) (bufs s), lru := fold Cons [0..<NBUF] []\<rparr>"

definition bget :: "u32 \<Rightarrow> u32 \<Rightarrow> 'z bio_scheme \<Rightarrow> (nat \<times> 'z bio_scheme) option" where
  "bget d n s = do {
     s \<leftarrow> acquire LBcache s;
     case find (\<lambda>i. dev (bufs s ! i) = d \<and> blockno (bufs s ! i) = n) (lru s) of
       Some i \<Rightarrow> do {
         let s = upd_buf i (\<lambda>b. b\<lparr>refcnt := refcnt b + 1\<rparr>) s;
         s \<leftarrow> release LBcache s;
         s \<leftarrow> acquiresleep (b_lock (bufs s ! i)) (upd_buf_lock i) s;
         Some (i, s) }
     | None \<Rightarrow>
         (case find (\<lambda>i. refcnt (bufs s ! i) = 0 \<and> \<not> dirty (bufs s ! i)) (rev (lru s)) of
            None \<Rightarrow> None
          | Some i \<Rightarrow> do {
              let s = upd_buf i (\<lambda>b. b\<lparr>dev := d, blockno := n, valid := False, dirty := False, refcnt := 1\<rparr>) s;
              s \<leftarrow> release LBcache s;
              s \<leftarrow> acquiresleep (b_lock (bufs s ! i)) (upd_buf_lock i) s;
              Some (i, s) }) }"

definition bread :: "u32 \<Rightarrow> u32 \<Rightarrow> 'z bio_scheme \<Rightarrow> (nat \<times> 'z bio_scheme) option" where
  "bread d n s = do {
     (i, s) \<leftarrow> bget d n s;
     s \<leftarrow> (if \<not> valid (bufs s ! i) then iderw i s else Some s);
     Some (i, s) }"

definition bwrite :: "nat \<Rightarrow> 'z bio_scheme \<Rightarrow> 'z bio_scheme option" where
  "bwrite i s =
     (if \<not> holdingsleep (b_lock (bufs s ! i)) then None
      else iderw i (upd_buf i (\<lambda>b. b\<lparr>dirty := True\<rparr>) s))"

definition brelse :: "nat \<Rightarrow> 'z bio_scheme \<Rightarrow> 'z bio_scheme option" where
  "brelse i s =
     (if \<not> holdingsleep (b_lock (bufs s ! i)) then None
      else do {
        s \<leftarrow> releasesleep (CBufLock i) (upd_buf_lock i) s;
        s \<leftarrow> acquire LBcache s;
        let s = upd_buf i (\<lambda>b. b\<lparr>refcnt := refcnt b - 1\<rparr>) s;
        let s = (if refcnt (bufs s ! i) = 0 then s\<lparr>lru := i # remove1 i (lru s)\<rparr> else s);
        release LBcache s })"

text \<open>The holder of a buffer replaces its contents.\<close>

definition set_data :: "nat \<Rightarrow> u8 list \<Rightarrow> 'z bio_scheme \<Rightarrow> 'z bio_scheme" where
  "set_data i bs = upd_buf i (\<lambda>b. b\<lparr>data := bs\<rparr>)"

end
