(* ===== verification/Log.thy ===== *)
theory Log
  imports Bio
begin

text \<open>
  The write-ahead log, \<^verbatim>\<open>log.c\<close>, and the reading of the super block it starts from (\<^verbatim>\<open>readsb\<close> of \<^verbatim>\<open>fs.c\<close>). The
  in-memory header \<^verbatim>\<open>log.lh\<close> is the list of its block numbers: \<^verbatim>\<open>n\<close> is its length. The header block on disk
  is the count followed by the block numbers.
\<close>

record log = bio +
  log_start :: u32
  log_size :: int
  outstanding :: int
  committing :: bool
  log_dev :: u32
  lh :: "u32 list"

definition readsb :: "u32 \<Rightarrow> 'z bio_scheme \<Rightarrow> (superblock \<times> 'z bio_scheme) option" where
  "readsb d s = do {
     (i, s) \<leftarrow> bread d 1 s;
     let sb = get_superblock (data (bufs s ! i));
     s \<leftarrow> brelse i s;
     Some (sb, s) }"

text \<open>The loops over the logged blocks; \<open>tail\<close> is the loop variable.\<close>

fun install_trans_from :: "u32 \<Rightarrow> u32 list \<Rightarrow> 'z log_scheme \<Rightarrow> 'z log_scheme option" where
  "install_trans_from tail [] s = Some s"
| "install_trans_from tail (b # bs) s = do {
     (l, s) \<leftarrow> bread (log_dev s) (log_start s + tail + 1) s;
     (d, s) \<leftarrow> bread (log_dev s) b s;
     let s = set_data d (data (bufs s ! l)) s;
     s \<leftarrow> bwrite d s;
     s \<leftarrow> brelse l s;
     s \<leftarrow> brelse d s;
     install_trans_from (tail + 1) bs s }"

definition install_trans :: "'z log_scheme \<Rightarrow> 'z log_scheme option" where
  "install_trans s = install_trans_from 0 (lh s) s"

text \<open>A count above \<open>LOGSIZE\<close> in the header on disk would write past the array \<^verbatim>\<open>log.lh.block\<close>.\<close>

definition head_blocks :: "u8 list \<Rightarrow> u32 list option" where
  "head_blocks bs =
     (let n = sint (get32 bs 0) in
      if n > LOGSIZE then None else Some (get_array bs 4 (nat n)))"

definition head_bytes :: "u32 list \<Rightarrow> u8 list \<Rightarrow> u8 list" where
  "head_bytes bl bs = put_array 4 bl (put32 0 (of_nat (length bl)) bs)"

definition read_head :: "'z log_scheme \<Rightarrow> 'z log_scheme option" where
  "read_head s = do {
     (i, s) \<leftarrow> bread (log_dev s) (log_start s) s;
     bl \<leftarrow> head_blocks (data (bufs s ! i));
     brelse i (s\<lparr>lh := bl\<rparr>) }"

definition write_head :: "'z log_scheme \<Rightarrow> 'z log_scheme option" where
  "write_head s = do {
     (i, s) \<leftarrow> bread (log_dev s) (log_start s) s;
     let s = set_data i (head_bytes (lh s) (data (bufs s ! i))) s;
     s \<leftarrow> bwrite i s;
     brelse i s }"

definition recover_from_log :: "'z log_scheme \<Rightarrow> 'z log_scheme option" where
  "recover_from_log s = do {
     s \<leftarrow> read_head s;
     s \<leftarrow> install_trans s;
     write_head (s\<lparr>lh := []\<rparr>) }"

definition initlog :: "u32 \<Rightarrow> 'z log_scheme \<Rightarrow> 'z log_scheme option" where
  "initlog d s = do {
     (sb, s) \<leftarrow> readsb d s;
     recover_from_log (s\<lparr>log_start := sb_logstart sb, log_size := sint (sb_nlog sb), log_dev := d\<rparr>) }"

text \<open>\<open>begin_op\<close> sleeps while a commit runs or the log might fill up.\<close>

definition begin_op :: "'z log_scheme \<Rightarrow> 'z log_scheme option" where
  "begin_op s = do {
     s \<leftarrow> acquire LLog s;
     if committing s then None
     else if int (length (lh s)) + (outstanding s + 1) * MAXOPBLOCKS > LOGSIZE then None
     else release LLog (s\<lparr>outstanding := outstanding s + 1\<rparr>) }"

fun write_log_from :: "u32 \<Rightarrow> u32 list \<Rightarrow> 'z log_scheme \<Rightarrow> 'z log_scheme option" where
  "write_log_from tail [] s = Some s"
| "write_log_from tail (b # bs) s = do {
     (t, s) \<leftarrow> bread (log_dev s) (log_start s + tail + 1) s;
     (f, s) \<leftarrow> bread (log_dev s) b s;
     let s = set_data t (data (bufs s ! f)) s;
     s \<leftarrow> bwrite t s;
     s \<leftarrow> brelse f s;
     s \<leftarrow> brelse t s;
     write_log_from (tail + 1) bs s }"

definition write_log :: "'z log_scheme \<Rightarrow> 'z log_scheme option" where
  "write_log s = write_log_from 0 (lh s) s"

definition commit :: "'z log_scheme \<Rightarrow> 'z log_scheme option" where
  "commit s =
     (if lh s \<noteq> [] then do {
        s \<leftarrow> write_log s;
        s \<leftarrow> write_head s;
        s \<leftarrow> install_trans s;
        write_head (s\<lparr>lh := []\<rparr>) }
      else Some s)"

definition end_op :: "'z log_scheme \<Rightarrow> 'z log_scheme option" where
  "end_op s = do {
     s \<leftarrow> acquire LLog s;
     let s = s\<lparr>outstanding := outstanding s - 1\<rparr>;
     if committing s then None
     else if outstanding s = 0 then do {
       s \<leftarrow> release LLog (s\<lparr>committing := True\<rparr>);
       s \<leftarrow> commit s;
       s \<leftarrow> acquire LLog s;
       s \<leftarrow> wakeup CLog (s\<lparr>committing := False\<rparr>);
       release LLog s }
     else do {
       s \<leftarrow> wakeup CLog s;
       release LLog s } }"

text \<open>\<open>log_write\<close>: a block already in the log is absorbed.\<close>

definition log_write :: "nat \<Rightarrow> 'z log_scheme \<Rightarrow> 'z log_scheme option" where
  "log_write i s =
     (let b = blockno (bufs s ! i); n = int (length (lh s)) in
      if n \<ge> LOGSIZE \<or> n \<ge> log_size s - 1 then None
      else if outstanding s < 1 then None
      else do {
        s \<leftarrow> acquire LLog s;
        let s = (if b \<in> set (lh s) then s else s\<lparr>lh := lh s @ [b]\<rparr>);
        let s = upd_buf i (\<lambda>c. c\<lparr>dirty := True\<rparr>) s;
        release LLog s })"

end
