(* ===== verification/Fs.thy ===== *)
theory Fs
  imports Log
begin

text \<open>
  The file system proper, \<^verbatim>\<open>fs.c\<close>: block allocation, the inode cache, file contents, directories and path names.
  An inode pointer is an index into \<^verbatim>\<open>icache.inode\<close>. C strings are lists of bytes without the terminating zero;
  an element name has at most \<open>DIRSIZ\<close> bytes. \<^verbatim>\<open>readi\<close> returns the bytes it copies out and \<^verbatim>\<open>writei\<close> takes the bytes
  to copy in; the callers move them to and from memory. The table \<^verbatim>\<open>devsw\<close> of function pointers is an argument.
\<close>

section \<open>State\<close>

definition NINODE :: nat where "NINODE = 50"
definition NDEV :: nat where "NDEV = 10"

record inode =
  i_dev :: u32
  i_inum :: u32
  i_ref :: int
  i_lock :: sleeplock
  i_valid :: bool
  i_type :: u16
  i_major :: u16
  i_minor :: u16
  i_nlink :: u16
  i_size :: u32
  i_addrs :: "u32 list"

record fs = log +
  sb :: superblock
  inodes :: "inode list"

record stat =
  st_type :: u16
  st_dev :: u32
  st_ino :: u32
  st_nlink :: u16
  st_size :: u32

record 's devsw =
  dv_read :: "nat \<Rightarrow> (nat \<Rightarrow> u32 \<Rightarrow> 's \<Rightarrow> (int \<times> u8 list \<times> 's) option) option"
  dv_write :: "nat \<Rightarrow> (nat \<Rightarrow> u8 list \<Rightarrow> 's \<Rightarrow> (int \<times> 's) option) option"

definition upd_inode :: "nat \<Rightarrow> (inode \<Rightarrow> inode) \<Rightarrow> 'z fs_scheme \<Rightarrow> 'z fs_scheme" where
  "upd_inode ip f s = s\<lparr>inodes := (inodes s)[ip := f (inodes s ! ip)]\<rparr>"

definition upd_inode_lock :: "nat \<Rightarrow> (sleeplock \<Rightarrow> sleeplock) \<Rightarrow> 'z fs_scheme \<Rightarrow> 'z fs_scheme" where
  "upd_inode_lock ip f = upd_inode ip (\<lambda>n. n\<lparr>i_lock := f (i_lock n)\<rparr>)"

section \<open>Blocks\<close>

definition bzero :: "u32 \<Rightarrow> u32 \<Rightarrow> 'z fs_scheme \<Rightarrow> 'z fs_scheme option" where
  "bzero d bno s = do {
     (i, s) \<leftarrow> bread d bno s;
     let s = set_data i (replicate BSIZE 0) s;
     s \<leftarrow> log_write i s;
     brelse i s }"

definition bit_mask :: "nat \<Rightarrow> u8" where
  "bit_mask bi = push_bit (bi mod 8) 1"

text \<open>The scan of one bitmap block: \<open>k\<close> bits from bit \<open>bi\<close> on.\<close>

fun balloc_scan :: "u8 list \<Rightarrow> nat \<Rightarrow> nat \<Rightarrow> nat option" where
  "balloc_scan bs bi 0 = None"
| "balloc_scan bs bi (Suc k) =
     (if bs ! (bi div 8) AND bit_mask bi = 0 then Some bi else balloc_scan bs (bi + 1) k)"

text \<open>The outer loop: \<open>k\<close> bitmap blocks from block \<open>b\<close> on.\<close>

fun balloc_from :: "u32 \<Rightarrow> u32 \<Rightarrow> nat \<Rightarrow> 'z fs_scheme \<Rightarrow> (u32 \<times> 'z fs_scheme) option" where
  "balloc_from d b 0 s = None"
| "balloc_from d b (Suc k) s = do {
     (i, s) \<leftarrow> bread d (BBLOCK b (sb s)) s;
     let bs = data (bufs s ! i);
     case balloc_scan bs 0 (min (unat BPB) (unat (sb_size (sb s) - b))) of
       Some bi \<Rightarrow> do {
         let s = set_data i (bs[bi div 8 := bs ! (bi div 8) OR bit_mask bi]) s;
         s \<leftarrow> log_write i s;
         s \<leftarrow> brelse i s;
         s \<leftarrow> bzero d (b + of_nat bi) s;
         Some (b + of_nat bi, s) }
     | None \<Rightarrow> do {
         s \<leftarrow> brelse i s;
         balloc_from d (b + BPB) k s } }"

definition balloc :: "u32 \<Rightarrow> 'z fs_scheme \<Rightarrow> (u32 \<times> 'z fs_scheme) option" where
  "balloc d s = balloc_from d 0 ((unat (sb_size (sb s)) + unat BPB - 1) div unat BPB) s"

definition bfree :: "u32 \<Rightarrow> u32 \<Rightarrow> 'z fs_scheme \<Rightarrow> 'z fs_scheme option" where
  "bfree d b s = do {
     (sblk, s) \<leftarrow> readsb d s;
     let s = s\<lparr>sb := sblk\<rparr>;
     (i, s) \<leftarrow> bread d (BBLOCK b (sb s)) s;
     let bi = unat (b mod BPB);
     let bs = data (bufs s ! i);
     if bs ! (bi div 8) AND bit_mask bi = 0 then None
     else do {
       let s = set_data i (bs[bi div 8 := bs ! (bi div 8) AND NOT (bit_mask bi)]) s;
       s \<leftarrow> log_write i s;
       brelse i s } }"

section \<open>Inodes\<close>

definition iinit :: "u32 \<Rightarrow> 'z fs_scheme \<Rightarrow> 'z fs_scheme option" where
  "iinit d s = do {
     let s = s\<lparr>inodes := map (\<lambda>n. n\<lparr>i_lock := initsleeplock\<rparr>) (inodes s)\<rparr>;
     (sblk, s) \<leftarrow> readsb d s;
     Some (s\<lparr>sb := sblk\<rparr>) }"

definition iget :: "u32 \<Rightarrow> u32 \<Rightarrow> 'z fs_scheme \<Rightarrow> (nat \<times> 'z fs_scheme) option" where
  "iget d inum s = do {
     s \<leftarrow> acquire LIcache s;
     case first_index (\<lambda>n. i_ref n > 0 \<and> i_dev n = d \<and> i_inum n = inum) (inodes s) of
       Some ip \<Rightarrow> do {
         s \<leftarrow> release LIcache (upd_inode ip (\<lambda>n. n\<lparr>i_ref := i_ref n + 1\<rparr>) s);
         Some (ip, s) }
     | None \<Rightarrow>
         (case first_index (\<lambda>n. i_ref n = 0) (inodes s) of
            None \<Rightarrow> None
          | Some ip \<Rightarrow> do {
              s \<leftarrow> release LIcache (upd_inode ip (\<lambda>n. n\<lparr>i_dev := d, i_inum := inum, i_ref := 1, i_valid := False\<rparr>) s);
              Some (ip, s) }) }"

definition dinode_off :: "u32 \<Rightarrow> nat" where
  "dinode_off inum = (unat inum mod IPB) * sizeof_dinode"

text \<open>The loop of \<open>ialloc\<close>: \<open>k\<close> inodes from \<open>inum\<close> on.\<close>

fun ialloc_from :: "u32 \<Rightarrow> u16 \<Rightarrow> u32 \<Rightarrow> nat \<Rightarrow> 'z fs_scheme \<Rightarrow> (nat \<times> 'z fs_scheme) option" where
  "ialloc_from d ty inum 0 s = None"
| "ialloc_from d ty inum (Suc k) s = do {
     (i, s) \<leftarrow> bread d (IBLOCK inum (sb s)) s;
     let bs = data (bufs s ! i);
     if di_type (get_dinode bs (dinode_off inum)) = 0 then do {
       let s = set_data i (put_dinode (dinode_off inum)
         \<lparr>di_type = ty, di_major = 0, di_minor = 0, di_nlink = 0, di_size = 0, di_addrs = replicate (NDIRECT + 1) 0\<rparr> bs) s;
       s \<leftarrow> log_write i s;
       s \<leftarrow> brelse i s;
       iget d inum s }
     else do {
       s \<leftarrow> brelse i s;
       ialloc_from d ty (inum + 1) k s } }"

definition ialloc :: "u32 \<Rightarrow> u16 \<Rightarrow> 'z fs_scheme \<Rightarrow> (nat \<times> 'z fs_scheme) option" where
  "ialloc d ty s = ialloc_from d ty 1 (unat (sb_ninodes (sb s)) - 1) s"

definition iupdate :: "nat \<Rightarrow> 'z fs_scheme \<Rightarrow> 'z fs_scheme option" where
  "iupdate ip s = do {
     let n = inodes s ! ip;
     (i, s) \<leftarrow> bread (i_dev n) (IBLOCK (i_inum n) (sb s)) s;
     let s = set_data i (put_dinode (dinode_off (i_inum n))
       \<lparr>di_type = i_type n, di_major = i_major n, di_minor = i_minor n, di_nlink = i_nlink n, di_size = i_size n,
        di_addrs = i_addrs n\<rparr> (data (bufs s ! i))) s;
     s \<leftarrow> log_write i s;
     brelse i s }"

definition idup :: "nat \<Rightarrow> 'z fs_scheme \<Rightarrow> (nat \<times> 'z fs_scheme) option" where
  "idup ip s = do {
     s \<leftarrow> acquire LIcache s;
     s \<leftarrow> release LIcache (upd_inode ip (\<lambda>n. n\<lparr>i_ref := i_ref n + 1\<rparr>) s);
     Some (ip, s) }"

definition ilock :: "nat \<Rightarrow> 'z fs_scheme \<Rightarrow> 'z fs_scheme option" where
  "ilock ip s =
     (if i_ref (inodes s ! ip) < 1 then None
      else do {
        s \<leftarrow> acquiresleep (i_lock (inodes s ! ip)) (upd_inode_lock ip) s;
        let n = inodes s ! ip;
        if i_valid n then Some s
        else do {
          (i, s) \<leftarrow> bread (i_dev n) (IBLOCK (i_inum n) (sb s)) s;
          let d = get_dinode (data (bufs s ! i)) (dinode_off (i_inum n));
          let s = upd_inode ip (\<lambda>n. n\<lparr>i_type := di_type d, i_major := di_major d, i_minor := di_minor d,
            i_nlink := di_nlink d, i_size := di_size d, i_addrs := di_addrs d\<rparr>) s;
          s \<leftarrow> brelse i s;
          let s = upd_inode ip (\<lambda>n. n\<lparr>i_valid := True\<rparr>) s;
          if i_type (inodes s ! ip) = 0 then None else Some s } })"

definition iunlock :: "nat \<Rightarrow> 'z fs_scheme \<Rightarrow> 'z fs_scheme option" where
  "iunlock ip s =
     (if \<not> holdingsleep (i_lock (inodes s ! ip)) \<or> i_ref (inodes s ! ip) < 1 then None
      else releasesleep (CInodeLock ip) (upd_inode_lock ip) s)"

text \<open>\<open>itrunc\<close>: the direct blocks, the blocks listed in the indirect block, the indirect block.\<close>

fun itrunc_direct :: "nat \<Rightarrow> nat list \<Rightarrow> 'z fs_scheme \<Rightarrow> 'z fs_scheme option" where
  "itrunc_direct ip [] s = Some s"
| "itrunc_direct ip (k # ks) s =
     (let n = inodes s ! ip in
      if i_addrs n ! k \<noteq> 0 then do {
        s \<leftarrow> bfree (i_dev n) (i_addrs n ! k) s;
        itrunc_direct ip ks (upd_inode ip (\<lambda>n. n\<lparr>i_addrs := (i_addrs n)[k := 0]\<rparr>) s) }
      else itrunc_direct ip ks s)"

fun bfree_all :: "u32 \<Rightarrow> u32 list \<Rightarrow> 'z fs_scheme \<Rightarrow> 'z fs_scheme option" where
  "bfree_all d [] s = Some s"
| "bfree_all d (a # as) s =
     (if a \<noteq> 0 then do { s \<leftarrow> bfree d a s; bfree_all d as s } else bfree_all d as s)"

definition itrunc :: "nat \<Rightarrow> 'z fs_scheme \<Rightarrow> 'z fs_scheme option" where
  "itrunc ip s = do {
     s \<leftarrow> itrunc_direct ip [0..<NDIRECT] s;
     let n = inodes s ! ip;
     let ind = i_addrs n ! NDIRECT;
     s \<leftarrow> (if ind \<noteq> 0 then do {
             (i, s) \<leftarrow> bread (i_dev n) ind s;
             s \<leftarrow> bfree_all (i_dev n) (get_array (data (bufs s ! i)) 0 NINDIRECT) s;
             s \<leftarrow> brelse i s;
             s \<leftarrow> bfree (i_dev n) ind s;
             Some (upd_inode ip (\<lambda>n. n\<lparr>i_addrs := (i_addrs n)[NDIRECT := 0]\<rparr>) s) }
           else Some s);
     iupdate ip (upd_inode ip (\<lambda>n. n\<lparr>i_size := 0\<rparr>) s) }"

definition iput :: "nat \<Rightarrow> 'z fs_scheme \<Rightarrow> 'z fs_scheme option" where
  "iput ip s = do {
     s \<leftarrow> acquiresleep (i_lock (inodes s ! ip)) (upd_inode_lock ip) s;
     s \<leftarrow> (if i_valid (inodes s ! ip) \<and> i_nlink (inodes s ! ip) = 0 then do {
             s \<leftarrow> acquire LIcache s;
             let r = i_ref (inodes s ! ip);
             s \<leftarrow> release LIcache s;
             if r = 1 then do {
               s \<leftarrow> itrunc ip s;
               let s = upd_inode ip (\<lambda>n. n\<lparr>i_type := 0\<rparr>) s;
               s \<leftarrow> iupdate ip s;
               Some (upd_inode ip (\<lambda>n. n\<lparr>i_valid := False\<rparr>) s) }
             else Some s }
           else Some s);
     s \<leftarrow> releasesleep (CInodeLock ip) (upd_inode_lock ip) s;
     s \<leftarrow> acquire LIcache s;
     release LIcache (upd_inode ip (\<lambda>n. n\<lparr>i_ref := i_ref n - 1\<rparr>) s) }"

definition iunlockput :: "nat \<Rightarrow> 'z fs_scheme \<Rightarrow> 'z fs_scheme option" where
  "iunlockput ip s = do { s \<leftarrow> iunlock ip s; iput ip s }"

section \<open>Contents\<close>

definition bmap :: "nat \<Rightarrow> u32 \<Rightarrow> 'z fs_scheme \<Rightarrow> (u32 \<times> 'z fs_scheme) option" where
  "bmap ip bn s =
     (let n = inodes s ! ip in
      if unat bn < NDIRECT then
        (if i_addrs n ! unat bn = 0 then do {
           (a, s) \<leftarrow> balloc (i_dev n) s;
           Some (a, upd_inode ip (\<lambda>n. n\<lparr>i_addrs := (i_addrs n)[unat bn := a]\<rparr>) s) }
         else Some (i_addrs n ! unat bn, s))
      else
        let k = unat bn - NDIRECT in
        if k < NINDIRECT then do {
          (ind, s) \<leftarrow> (if i_addrs n ! NDIRECT = 0 then do {
                       (a, s) \<leftarrow> balloc (i_dev n) s;
                       Some (a, upd_inode ip (\<lambda>n. n\<lparr>i_addrs := (i_addrs n)[NDIRECT := a]\<rparr>) s) }
                     else Some (i_addrs n ! NDIRECT, s));
          (i, s) \<leftarrow> bread (i_dev n) ind s;
          let a = get32 (data (bufs s ! i)) (4 * k);
          if a = 0 then do {
            (a, s) \<leftarrow> balloc (i_dev n) s;
            let s = set_data i (put32 (4 * k) a (data (bufs s ! i))) s;
            s \<leftarrow> log_write i s;
            s \<leftarrow> brelse i s;
            Some (a, s) }
          else do {
            s \<leftarrow> brelse i s;
            Some (a, s) } }
        else None)"

definition stati :: "nat \<Rightarrow> 'z fs_scheme \<Rightarrow> stat" where
  "stati ip s = (let n = inodes s ! ip in
     \<lparr>st_type = i_type n, st_dev = i_dev n, st_ino = i_inum n, st_nlink = i_nlink n, st_size = i_size n\<rparr>)"

text \<open>The copy loops: \<open>n\<close> bytes remain from offset \<open>off\<close>.\<close>

function readi_loop :: "nat \<Rightarrow> u32 \<Rightarrow> nat \<Rightarrow> 'z fs_scheme \<Rightarrow> (u8 list \<times> 'z fs_scheme) option" where
  "readi_loop ip off n s =
     (if n = 0 then Some ([], s)
      else do {
        (a, s) \<leftarrow> bmap ip (off div of_nat BSIZE) s;
        (i, s) \<leftarrow> bread (i_dev (inodes s ! ip)) a s;
        let o1 = unat off mod BSIZE;
        let m = min n (BSIZE - o1);
        let bs = take m (drop o1 (data (bufs s ! i)));
        s \<leftarrow> brelse i s;
        (rest, s) \<leftarrow> readi_loop ip (off + of_nat m) (n - m) s;
        Some (bs @ rest, s) })"
  by pat_completeness auto
termination
  by (relation "measure (\<lambda>(ip, off, n, s). n)") (auto simp: BSIZE_def)

definition readi :: "'z fs_scheme devsw \<Rightarrow> nat \<Rightarrow> u32 \<Rightarrow> u32 \<Rightarrow> 'z fs_scheme \<Rightarrow> (int \<times> u8 list \<times> 'z fs_scheme) option" where
  "readi dv ip off n s =
     (let ino = inodes s ! ip; major = sint (i_major ino) in
      if i_type ino = T_DEV then
        (if major < 0 \<or> major \<ge> int NDEV then Some (- 1, [], s)
         else case dv_read dv (nat major) of None \<Rightarrow> Some (- 1, [], s) | Some dread \<Rightarrow> dread ip n s)
      else if off > i_size ino \<or> off + n < off then Some (- 1, [], s)
      else
        let n = (if off + n > i_size ino then i_size ino - off else n) in
        do {
          (bs, s) \<leftarrow> readi_loop ip off (unat n) s;
          Some (sint n, bs, s) })"

function writei_loop :: "nat \<Rightarrow> u32 \<Rightarrow> u8 list \<Rightarrow> 'z fs_scheme \<Rightarrow> 'z fs_scheme option" where
  "writei_loop ip off src s =
     (if src = [] then Some s
      else do {
        (a, s) \<leftarrow> bmap ip (off div of_nat BSIZE) s;
        (i, s) \<leftarrow> bread (i_dev (inodes s ! ip)) a s;
        let o1 = unat off mod BSIZE;
        let m = min (length src) (BSIZE - o1);
        let bs = data (bufs s ! i);
        let s = set_data i (take o1 bs @ take m src @ drop (o1 + m) bs) s;
        s \<leftarrow> log_write i s;
        s \<leftarrow> brelse i s;
        writei_loop ip (off + of_nat m) (drop m src) s })"
  by pat_completeness auto
termination
  by (relation "measure (\<lambda>(ip, off, src, s). length src)") (auto simp: BSIZE_def)

definition writei :: "'z fs_scheme devsw \<Rightarrow> nat \<Rightarrow> u8 list \<Rightarrow> u32 \<Rightarrow> 'z fs_scheme \<Rightarrow> (int \<times> 'z fs_scheme) option" where
  "writei dv ip src off s =
     (let ino = inodes s ! ip; major = sint (i_major ino); n = of_nat (length src) in
      if i_type ino = T_DEV then
        (if major < 0 \<or> major \<ge> int NDEV then Some (- 1, s)
         else case dv_write dv (nat major) of None \<Rightarrow> Some (- 1, s) | Some dwrite \<Rightarrow> dwrite ip src s)
      else if off > i_size ino \<or> off + n < off then Some (- 1, s)
      else if off + n > of_nat (MAXFILE * BSIZE) then Some (- 1, s)
      else do {
        s \<leftarrow> writei_loop ip off src s;
        s \<leftarrow> (if n > 0 \<and> off + n > i_size (inodes s ! ip)
             then iupdate ip (upd_inode ip (\<lambda>n'. n'\<lparr>i_size := off + n\<rparr>) s) else Some s);
        Some (sint n, s) })"

section \<open>Directories\<close>

definition namecmp :: "u8 list \<Rightarrow> u8 list \<Rightarrow> bool" where
  "namecmp s t \<longleftrightarrow> takeWhile (\<lambda>c. c \<noteq> 0) (take DIRSIZ s) = takeWhile (\<lambda>c. c \<noteq> 0) (take DIRSIZ t)"

partial_function (option) dirlookup_from ::
  "'z fs_scheme devsw \<Rightarrow> nat \<Rightarrow> u8 list \<Rightarrow> u32 \<Rightarrow> 'z fs_scheme \<Rightarrow> ((nat \<times> u32) option \<times> 'z fs_scheme) option" where
  "dirlookup_from dv dp name off s =
     (if off < i_size (inodes s ! dp) then do {
        (r, bs, s) \<leftarrow> readi dv dp off (of_nat sizeof_dirent) s;
        if r \<noteq> int sizeof_dirent then None
        else
          let de = get_dirent bs in
          if de_inum de \<noteq> 0 \<and> namecmp name (de_name de) then do {
            (ip, s) \<leftarrow> iget (i_dev (inodes s ! dp)) (ucast (de_inum de)) s;
            Some (Some (ip, off), s) }
          else dirlookup_from dv dp name (off + of_nat sizeof_dirent) s }
      else Some (None, s))"

definition dirlookup ::
  "'z fs_scheme devsw \<Rightarrow> nat \<Rightarrow> u8 list \<Rightarrow> 'z fs_scheme \<Rightarrow> ((nat \<times> u32) option \<times> 'z fs_scheme) option" where
  "dirlookup dv dp name s =
     (if i_type (inodes s ! dp) \<noteq> T_DIR then None else dirlookup_from dv dp name 0 s)"

text \<open>The offset of the first empty entry, or the end of the directory.\<close>

partial_function (option) dirlink_off :: "'z fs_scheme devsw \<Rightarrow> nat \<Rightarrow> u32 \<Rightarrow> 'z fs_scheme \<Rightarrow> (u32 \<times> 'z fs_scheme) option" where
  "dirlink_off dv dp off s =
     (if off < i_size (inodes s ! dp) then do {
        (r, bs, s) \<leftarrow> readi dv dp off (of_nat sizeof_dirent) s;
        if r \<noteq> int sizeof_dirent then None
        else if de_inum (get_dirent bs) = 0 then Some (off, s)
        else dirlink_off dv dp (off + of_nat sizeof_dirent) s }
      else Some (off, s))"

text \<open>\<^verbatim>\<open>strncpy(de.name, name, DIRSIZ)\<close>: cut at \<open>DIRSIZ\<close> bytes, filled with zeros.\<close>

definition dir_name :: "u8 list \<Rightarrow> u8 list" where
  "dir_name name = take DIRSIZ (name @ replicate DIRSIZ 0)"

definition dirlink :: "'z fs_scheme devsw \<Rightarrow> nat \<Rightarrow> u8 list \<Rightarrow> u32 \<Rightarrow> 'z fs_scheme \<Rightarrow> (int \<times> 'z fs_scheme) option" where
  "dirlink dv dp name inum s = do {
     (r, s) \<leftarrow> dirlookup dv dp name s;
     case r of
       Some (ip, _) \<Rightarrow> do { s \<leftarrow> iput ip s; Some (- 1, s) }
     | None \<Rightarrow> do {
         (off, s) \<leftarrow> dirlink_off dv dp 0 s;
         (k, s) \<leftarrow> writei dv dp (dirent_bytes \<lparr>de_inum = ucast inum, de_name = dir_name name\<rparr>) off s;
         if k \<noteq> int sizeof_dirent then None else Some (0, s) } }"

section \<open>Paths\<close>

definition slash :: u8 where "slash = 0x2F"

definition skipelem :: "u8 list \<Rightarrow> (u8 list \<times> u8 list) option" where
  "skipelem path =
     (let p = dropWhile (\<lambda>c. c = slash) path in
      if p = [] then None
      else
        let e = takeWhile (\<lambda>c. c \<noteq> slash) p;
            name = (if length e \<ge> DIRSIZ then take DIRSIZ e else e)
        in Some (name, dropWhile (\<lambda>c. c = slash) (drop (length e) p)))"

text \<open>The result of \<open>namex\<close>: the inode, if there is one, and the element that \<^verbatim>\<open>name\<close> holds.\<close>

partial_function (option) namex_loop ::
  "'z fs_scheme devsw \<Rightarrow> bool \<Rightarrow> nat \<Rightarrow> u8 list \<Rightarrow> u8 list \<Rightarrow> 'z fs_scheme \<Rightarrow> ((nat \<times> u8 list) option \<times> 'z fs_scheme) option" where
  "namex_loop dv nameiparent ip path name s =
     (case skipelem path of
        None \<Rightarrow>
          if nameiparent then do { s \<leftarrow> iput ip s; Some (None, s) } else Some (Some (ip, name), s)
      | Some (name, path) \<Rightarrow> do {
          s \<leftarrow> ilock ip s;
          if i_type (inodes s ! ip) \<noteq> T_DIR then do { s \<leftarrow> iunlockput ip s; Some (None, s) }
          else if nameiparent \<and> path = [] then do { s \<leftarrow> iunlock ip s; Some (Some (ip, name), s) }
          else do {
            (r, s) \<leftarrow> dirlookup dv ip name s;
            case r of
              None \<Rightarrow> do { s \<leftarrow> iunlockput ip s; Some (None, s) }
            | Some (nxt, _) \<Rightarrow> do {
                s \<leftarrow> iunlockput ip s;
                namex_loop dv nameiparent nxt path name s } } })"

definition namex ::
  "'z fs_scheme devsw \<Rightarrow> u8 list \<Rightarrow> bool \<Rightarrow> 'z fs_scheme \<Rightarrow> ((nat \<times> u8 list) option \<times> 'z fs_scheme) option" where
  "namex dv path nameiparent s = do {
     (ip, s) \<leftarrow> (if path \<noteq> [] \<and> hd path = slash then iget ROOTDEV ROOTINO s
       else do { p \<leftarrow> myproc s; cwd \<leftarrow> p_cwd (procs s ! p); idup cwd s });
     namex_loop dv nameiparent ip path [] s }"

definition namei :: "'z fs_scheme devsw \<Rightarrow> u8 list \<Rightarrow> 'z fs_scheme \<Rightarrow> (nat option \<times> 'z fs_scheme) option" where
  "namei dv path s = do {
     (r, s) \<leftarrow> namex dv path False s;
     Some (map_option fst r, s) }"

definition nameiparent ::
  "'z fs_scheme devsw \<Rightarrow> u8 list \<Rightarrow> 'z fs_scheme \<Rightarrow> ((nat \<times> u8 list) option \<times> 'z fs_scheme) option" where
  "nameiparent dv path s = namex dv path True s"

end
