(* ===== verification/BioInv.thy ===== *)
theory BioInv
  imports Bio
begin

text \<open>
  The buffer cache is transparent. \<open>cache_ok\<close> is the invariant of the cache between the steps of one process,
  \<open>blk s n\<close> the contents that block \<open>n\<close> has for the users of the cache: what the cache holds, or else what the disk
  holds. The lemmas describe \<open>iderw\<close>, \<open>bread\<close>, \<open>bwrite\<close> and \<open>brelse\<close> by their effect on the two; \<open>block_device\<close> is the contract
  of a disk driver, which \<^verbatim>\<open>ide.c\<close> and \<^verbatim>\<open>memide.c\<close> both satisfy.
\<close>

section \<open>Wakeups\<close>

definition woken :: "proc list \<Rightarrow> proc list \<Rightarrow> bool" where
  "woken ps qs \<longleftrightarrow> length qs = length ps \<and>
     (\<forall>i<length ps. qs ! i = ps ! i \<or> p_state (ps ! i) = SLEEPING \<and> qs ! i = (ps ! i)\<lparr>p_state := RUNNABLE\<rparr>)"

lemma woken_refl [simp]: "woken ps ps"
  by (simp add: woken_def)

lemma woken_trans: "woken ps qs \<Longrightarrow> woken qs rs \<Longrightarrow> woken ps rs"
  unfolding woken_def by (metis (no_types, lifting) proc.select_convs(4) proc.simps(17) procstate.distinct(23) proc.update_convs(4) proc.surjective)

lemma woken_wake: "woken ps (map (wake_proc ch) ps)"
  by (simp add: woken_def wake_proc_def)

lemma woken_wakeup1 [simp]: "woken (procs s) (procs (wakeup1 ch s))"
  by (simp add: wakeup1_def woken_wake)

section \<open>The driver\<close>

abbreviation lockd :: "buf \<Rightarrow> bool" where "lockd b \<equiv> sl_locked (b_lock b)"

text \<open>A request that a driver can serve: the buffer is locked, the device and the queue are ready.\<close>

definition io_ready :: "'z bio_scheme \<Rightarrow> bool" where
  "io_ready s \<longleftrightarrow> idequeue s = [] \<and> havedisk1 s \<and> \<not> ide_error s \<and> LIde \<notin> set (held s) \<and> LPtable \<notin> set (held s)"

definition request :: "nat \<Rightarrow> 'z bio_scheme \<Rightarrow> bool" where
  "request i s \<longleftrightarrow> io_ready s \<and> i < length (bufs s) \<and> lockd (bufs s ! i) \<and> dev (bufs s ! i) = 1 \<and> blockno (bufs s ! i) < FSSIZE"

lemma no_queue: "idequeue s = [] \<Longrightarrow> s\<lparr>idequeue := []\<rparr> = s"
  by (rule bio.equality) simp_all

lemma iderw_write:
  assumes "request i s" and "dirty (bufs s ! i)"
  shows "iderw i s = Some (wakeup1 (CBuf i) (upd_buf i (\<lambda>c. c\<lparr>valid := True, dirty := False\<rparr>)
    (disk_write 1 (blockno (bufs s ! i)) (data (bufs s ! i)) s)))"
  using assms
  by (simp add: iderw_def request_def io_ready_def holdingsleep_def idestart_def disk_write_def iderw_wait.simps
      ideintr_def upd_buf_def wakeup1_def Let_def no_queue not_le)

lemma iderw_read:
  assumes "request i s" and "\<not> dirty (bufs s ! i)" and "\<not> valid (bufs s ! i)"
  shows "iderw i s = Some (wakeup1 (CBuf i)
    (upd_buf i (\<lambda>c. c\<lparr>data := disk s 1 (blockno (bufs s ! i)), valid := True, dirty := False\<rparr>) s))"
  using assms
  by (simp add: iderw_def request_def io_ready_def holdingsleep_def idestart_def iderw_wait.simps
      ideintr_def upd_buf_def wakeup1_def Let_def no_queue not_le)

lemma buf_flip: "b\<lparr>dirty := x, valid := y\<rparr> = b\<lparr>valid := y, dirty := x\<rparr>"
  by (rule buf.equality) simp_all

lemma buf_clean: "\<not> dirty b \<Longrightarrow> b\<lparr>data := d, valid := v, dirty := False\<rparr> = b\<lparr>data := d, valid := v\<rparr>"
  by (rule buf.equality) simp_all

lemma memide_write:
  assumes "request i s" and "dirty (bufs s ! i)" and "blockno (bufs s ! i) < n"
  shows "memide_rw n i s = Some (disk_write 1 (blockno (bufs s ! i)) (data (bufs s ! i))
    (upd_buf i (\<lambda>c. c\<lparr>valid := True, dirty := False\<rparr>) s))"
proof -
  have "\<not> n \<le> blockno (bufs s ! i)" using assms(3) by (simp add: not_le)
  with assms(1,2) show ?thesis
    by (simp add: memide_rw_def request_def holdingsleep_def disk_write_def upd_buf_def Let_def buf_flip)
qed

lemma memide_read:
  assumes "request i s" and "\<not> dirty (bufs s ! i)" and "\<not> valid (bufs s ! i)" and "blockno (bufs s ! i) < n"
  shows "memide_rw n i s = Some (upd_buf i (\<lambda>c. c\<lparr>data := disk s 1 (blockno (bufs s ! i)), valid := True, dirty := False\<rparr>) s)"
proof -
  have "\<not> n \<le> blockno (bufs s ! i)" using assms(4) by (simp add: not_le)
  with assms(1-3) show ?thesis
    by (simp add: memide_rw_def request_def holdingsleep_def upd_buf_def Let_def buf_clean)
qed

text \<open>What a driver promises: after a write the disk has the data of the buffer, after a read the buffer has
  the block of the disk; the buffer is valid and clean. Nothing else changes but the states of
  sleeping processes.\<close>

definition written :: "nat \<Rightarrow> 'z bio_scheme \<Rightarrow> 'z bio_scheme \<Rightarrow> bool" where
  "written i s t \<longleftrightarrow> woken (procs s) (procs t) \<and>
     t = s\<lparr>procs := procs t, bufs := (bufs s)[i := (bufs s ! i)\<lparr>valid := True, dirty := False\<rparr>],
       disk := (disk s)(1 := (disk s 1)(blockno (bufs s ! i) := data (bufs s ! i))),
       dtrace := dtrace s @ [(1, blockno (bufs s ! i), data (bufs s ! i))]\<rparr>"

definition loaded :: "nat \<Rightarrow> 'z bio_scheme \<Rightarrow> 'z bio_scheme \<Rightarrow> bool" where
  "loaded i s t \<longleftrightarrow> woken (procs s) (procs t) \<and>
     t = s\<lparr>procs := procs t, bufs := (bufs s)[i := (bufs s ! i)\<lparr>data := disk s 1 (blockno (bufs s ! i)),
       valid := True, dirty := False\<rparr>]\<rparr>"

locale block_device =
  fixes rw :: "nat \<Rightarrow> 'z bio_scheme \<Rightarrow> 'z bio_scheme option"
    and limit :: u32
  assumes rw_write: "request i s \<Longrightarrow> blockno (bufs s ! i) < limit \<Longrightarrow> dirty (bufs s ! i) \<Longrightarrow>
      \<exists>t. rw i s = Some t \<and> written i s t"
    and rw_read: "request i s \<Longrightarrow> blockno (bufs s ! i) < limit \<Longrightarrow> \<not> dirty (bufs s ! i) \<Longrightarrow> \<not> valid (bufs s ! i) \<Longrightarrow>
      \<exists>t. rw i s = Some t \<and> loaded i s t"
begin

lemma rw_clean:
  assumes "request i s" and "blockno (bufs s ! i) < limit" and "dirty (bufs s ! i) \<or> \<not> valid (bufs s ! i)"
  shows "\<exists>t. rw i s = Some t \<and> valid (bufs t ! i) \<and> \<not> dirty (bufs t ! i) \<and>
    data (bufs t ! i) = disk t 1 (blockno (bufs t ! i)) \<and> request i t"
proof (cases "dirty (bufs s ! i)")
  case True
  from rw_write [OF assms(1,2) True] obtain t where t: "rw i s = Some t" "written i s t" by blast
  from t(2) obtain ps ds tr where "t = s\<lparr>procs := ps, bufs := (bufs s)[i := (bufs s ! i)\<lparr>valid := True, dirty := False\<rparr>],
    disk := (disk s)(1 := (disk s 1)(blockno (bufs s ! i) := data (bufs s ! i))), dtrace := tr\<rparr>"
    unfolding written_def by blast
  with t(1) assms(1) show ?thesis by (simp add: request_def io_ready_def)
next
  case False
  from rw_read [OF assms(1,2) False] assms(3) False obtain t where t: "rw i s = Some t" "loaded i s t" by blast
  from t(2) obtain ps where "t = s\<lparr>procs := ps, bufs := (bufs s)[i := (bufs s ! i)\<lparr>data := disk s 1 (blockno (bufs s ! i)),
    valid := True, dirty := False\<rparr>]\<rparr>"
    unfolding loaded_def by blast
  with t(1) assms(1) show ?thesis by (simp add: request_def io_ready_def)
qed

end

interpretation ide: block_device iderw FSSIZE
proof unfold_locales
  fix i :: nat and s :: "'z bio_scheme"
  assume r: "request i s"
  {
    assume "dirty (bufs s ! i)"
    then show "\<exists>t. iderw i s = Some t \<and> written i s t"
      by (simp add: iderw_write [OF r] written_def wakeup1_def upd_buf_def disk_write_def woken_wake)
  next
    assume "\<not> dirty (bufs s ! i)" "\<not> valid (bufs s ! i)"
    then show "\<exists>t. iderw i s = Some t \<and> loaded i s t"
      by (simp add: iderw_read [OF r] loaded_def wakeup1_def upd_buf_def woken_wake)
  }
qed

interpretation memide: block_device "memide_rw n" n
proof unfold_locales
  fix i :: nat and s :: "'z bio_scheme"
  assume r: "request i s" "blockno (bufs s ! i) < n"
  {
    assume "dirty (bufs s ! i)"
    with r show "\<exists>t. memide_rw n i s = Some t \<and> written i s t"
      by (simp add: memide_write written_def upd_buf_def disk_write_def)
  next
    assume "\<not> dirty (bufs s ! i)" "\<not> valid (bufs s ! i)"
    with r show "\<exists>t. memide_rw n i s = Some t \<and> loaded i s t"
      by (simp add: memide_read loaded_def upd_buf_def)
  }
qed

section \<open>The cache as a list of buffers\<close>

text \<open>A buffer in order: the invariant of one buffer against the disk \<open>D\<close>. A locked buffer may differ from the
  disk while its holder changes it; a dirty one is pinned until it is written.\<close>

definition buf_ok :: "(u32 \<Rightarrow> u8 list) \<Rightarrow> buf \<Rightarrow> bool" where
  "buf_ok D b \<longleftrightarrow> length (data b) = BSIZE \<and> refcnt b = (if lockd b then 1 else 0) \<and> (lockd b \<longrightarrow> dev b = 1) \<and>
     (dirty b \<longrightarrow> valid b \<and> dev b = 1) \<and>
     (dev b = 1 \<and> valid b \<and> \<not> dirty b \<and> \<not> lockd b \<longrightarrow> data b = D (blockno b))"

definition uniq :: "buf list \<Rightarrow> bool" where
  "uniq bs \<longleftrightarrow> (\<forall>i<length bs. \<forall>j<length bs. i \<noteq> j \<longrightarrow> dev (bs ! i) = 1 \<longrightarrow> dev (bs ! j) = 1 \<longrightarrow> blockno (bs ! i) \<noteq> blockno (bs ! j))"

definition holds :: "buf \<Rightarrow> u32 \<Rightarrow> bool" where
  "holds b n \<longleftrightarrow> dev b = 1 \<and> blockno b = n \<and> valid b"

definition lblk :: "buf list \<Rightarrow> (u32 \<Rightarrow> u8 list) \<Rightarrow> u32 \<Rightarrow> u8 list" where
  "lblk bs D n = (case first_index (\<lambda>b. holds b n) bs of Some i \<Rightarrow> data (bs ! i) | None \<Rightarrow> D n)"

text \<open>The blocks whose buffers have the property \<open>P\<close>.\<close>

definition bset :: "(buf \<Rightarrow> bool) \<Rightarrow> buf list \<Rightarrow> u32 set" where
  "bset P bs = {blockno (bs ! i) |i. i < length bs \<and> dev (bs ! i) = 1 \<and> P (bs ! i)}"

lemma uniqD: "uniq bs \<Longrightarrow> i < length bs \<Longrightarrow> j < length bs \<Longrightarrow> dev (bs ! i) = 1 \<Longrightarrow> dev (bs ! j) = 1 \<Longrightarrow>
  blockno (bs ! i) = blockno (bs ! j) \<Longrightarrow> i = j"
  unfolding uniq_def by blast

lemma lblk_holds:
  assumes "uniq bs" and "i < length bs" and "holds (bs ! i) n"
  shows "lblk bs D n = data (bs ! i)"
proof -
  obtain j where j: "first_index (\<lambda>b. holds b n) bs = Some j"
    using first_index_ex [of "bs ! i" bs "\<lambda>b. holds b n"] assms by auto
  then have "j < length bs" "holds (bs ! j) n" using first_index_SomeD by fastforce+
  with assms have "j = i" by (auto simp: holds_def dest: uniqD)
  with j show ?thesis by (simp add: lblk_def)
qed

lemma lblk_disk: "(\<And>i. i < length bs \<Longrightarrow> \<not> holds (bs ! i) n) \<Longrightarrow> lblk bs D n = D n"
  by (auto simp: lblk_def split: option.split dest!: first_index_SomeD)

lemma lblk_update:
  assumes "uniq bs" and "uniq (bs[i := b])" and "i < length bs"
  shows "lblk (bs[i := b]) D n = (if holds b n then data b else if holds (bs ! i) n then D n else lblk bs D n)"
proof (cases "holds b n \<or> holds (bs ! i) n")
  case True
  then show ?thesis
  proof
    assume "holds b n"
    then show ?thesis using lblk_holds [OF assms(2), of i n D] assms(3) by simp
  next
    assume h: "holds (bs ! i) n"
    then have "\<not> holds (bs ! j) n" if "j < length bs" "j \<noteq> i" for j
      using that assms(1,3) by (auto simp: holds_def dest: uniqD)
    then have "lblk (bs[i := b]) D n = D n" if "\<not> holds b n"
      using that assms(3) by (intro lblk_disk) (metis length_list_update nth_list_update)
    then show ?thesis using h lblk_holds [OF assms(2), of i n D] assms(3) by auto
  qed
next
  case False
  show ?thesis
  proof (cases "\<exists>j<length bs. holds (bs ! j) n")
    case True
    then obtain j where j: "j < length bs" "holds (bs ! j) n" by blast
    with False have "j \<noteq> i" by auto
    with j False show ?thesis using lblk_holds [OF assms(2), of j n D] lblk_holds [OF assms(1) j, of D] by simp
  next
    case none: False
    then have "lblk bs D n = D n" by (intro lblk_disk) blast
    moreover have "lblk (bs[i := b]) D n = D n"
      using none False assms(3) by (intro lblk_disk) (auto simp: nth_list_update)
    ultimately show ?thesis using False by simp
  qed
qed

lemma uniq_update:
  assumes "uniq bs" and "i < length bs"
    and "\<And>j. j < length bs \<Longrightarrow> j \<noteq> i \<Longrightarrow> dev b = 1 \<Longrightarrow> dev (bs ! j) = 1 \<Longrightarrow> blockno (bs ! j) \<noteq> blockno b"
  shows "uniq (bs[i := b])"
  unfolding uniq_def
proof (intro allI impI)
  fix j k
  assume "j < length (bs[i := b])" "k < length (bs[i := b])" "j \<noteq> k" "dev (bs[i := b] ! j) = 1" "dev (bs[i := b] ! k) = 1"
  then show "blockno (bs[i := b] ! j) \<noteq> blockno (bs[i := b] ! k)"
    using assms(2) assms(3) [of j] assms(3) [of k] uniqD [OF assms(1), of j k]
    by (cases "j = i"; cases "k = i") auto
qed

lemma uniq_same_key:
  "uniq bs \<Longrightarrow> i < length bs \<Longrightarrow> dev b = dev (bs ! i) \<Longrightarrow> blockno b = blockno (bs ! i) \<Longrightarrow> uniq (bs[i := b])"
  by (rule uniq_update) (auto dest: uniqD)

lemma bset_update:
  assumes "uniq bs" and "i < length bs"
  shows "bset P (bs[i := b]) =
    bset P bs - (if dev (bs ! i) = 1 \<and> P (bs ! i) then {blockno (bs ! i)} else {}) \<union> (if dev b = 1 \<and> P b then {blockno b} else {})"
proof -
  let ?R = "bset P bs - (if dev (bs ! i) = 1 \<and> P (bs ! i) then {blockno (bs ! i)} else {}) \<union>
    (if dev b = 1 \<and> P b then {blockno b} else {})"
  have "n \<in> ?R" if "n \<in> bset P (bs[i := b])" for n
  proof -
    from that obtain j where j: "j < length bs" "dev (bs[i := b] ! j) = 1" "P (bs[i := b] ! j)" "n = blockno (bs[i := b] ! j)"
      unfolding bset_def by auto
    show ?thesis
    proof (cases "j = i")
      case True
      with j assms(2) show ?thesis by simp
    next
      case False
      with j have "n \<in> bset P bs" unfolding bset_def by auto
      moreover have "n \<noteq> blockno (bs ! i)" if "dev (bs ! i) = 1"
        using j False uniqD [OF assms(1), of i j] assms(2) that by auto
      ultimately show ?thesis by simp
    qed
  qed
  moreover have "n \<in> bset P (bs[i := b])" if "n \<in> ?R" for n
  proof (cases "dev b = 1 \<and> P b \<and> n = blockno b")
    case True
    with assms(2) show ?thesis unfolding bset_def by (intro CollectI exI [of _ i]) simp
  next
    case False
    with that have "n \<in> bset P bs" and ne: "dev (bs ! i) = 1 \<and> P (bs ! i) \<longrightarrow> n \<noteq> blockno (bs ! i)"
      by (auto split: if_splits)
    then obtain j where j: "j < length bs" "dev (bs ! j) = 1" "P (bs ! j)" "n = blockno (bs ! j)"
      unfolding bset_def by blast
    with ne have "j \<noteq> i" by auto
    with j show ?thesis unfolding bset_def by (intro CollectI exI [of _ j]) simp
  qed
  ultimately show ?thesis by blast
qed

lemma bset_same:
  assumes "uniq bs" and "i < length bs" and "dev b = dev (bs ! i)" and "blockno b = blockno (bs ! i)" and "P b = P (bs ! i)"
  shows "bset P (bs[i := b]) = bset P bs"
proof -
  have "blockno (bs ! i) \<in> bset P bs" if "dev (bs ! i) = 1" "P (bs ! i)"
    using that assms(2) unfolding bset_def by blast
  then show ?thesis using assms(3-5) unfolding bset_update [OF assms(1,2)] by auto
qed

section \<open>The invariant of the cache\<close>

definition cache_ok :: "'z bio_scheme \<Rightarrow> bool" where
  "cache_ok s \<longleftrightarrow> io_ready s \<and> LBcache \<notin> set (held s) \<and> myproc s \<noteq> None \<and> length (bufs s) = NBUF \<and>
     distinct (lru s) \<and> set (lru s) = {..<NBUF} \<and> (\<forall>i<NBUF. buf_ok (disk s 1) (bufs s ! i)) \<and> uniq (bufs s) \<and>
     (\<forall>n<FSSIZE. length (disk s 1 n) = BSIZE)"

definition blk :: "'z bio_scheme \<Rightarrow> u32 \<Rightarrow> u8 list" where
  "blk s n = lblk (bufs s) (disk s 1) n"

definition pinned :: "'z bio_scheme \<Rightarrow> u32 set" where
  "pinned s = bset dirty (bufs s)"

definition locks :: "'z bio_scheme \<Rightarrow> u32 set" where
  "locks s = bset lockd (bufs s)"

text \<open>Buffer \<open>i\<close> is the locked and valid buffer of block \<open>n\<close>.\<close>

definition handle :: "'z bio_scheme \<Rightarrow> nat \<Rightarrow> u32 \<Rightarrow> bool" where
  "handle s i n \<longleftrightarrow> i < NBUF \<and> lockd (bufs s ! i) \<and> holds (bufs s ! i) n"

text \<open>Only the cache, the disk and the states of sleeping processes change.\<close>

definition cache_frame :: "'z bio_scheme \<Rightarrow> 'z bio_scheme \<Rightarrow> bool" where
  "cache_frame s t \<longleftrightarrow> woken (procs s) (procs t) \<and>
     (\<exists>ps bs l d w. t = s\<lparr>procs := ps, bufs := bs, lru := l, disk := d, dtrace := w\<rparr>)"

lemma cache_frame_refl [simp]: "cache_frame s s"
proof -
  have "s = s\<lparr>procs := procs s, bufs := bufs s, lru := lru s, disk := disk s, dtrace := dtrace s\<rparr>" by simp
  then show ?thesis unfolding cache_frame_def by (metis woken_refl)
qed

lemma cache_frameI: "woken (procs s) ps \<Longrightarrow> cache_frame s (s\<lparr>procs := ps, bufs := bs, lru := l, disk := d, dtrace := w\<rparr>)"
  unfolding cache_frame_def by (intro conjI exI) simp_all

lemma cache_frame_bufs: "cache_frame s (s\<lparr>bufs := bs\<rparr>)"
proof -
  have "s\<lparr>bufs := bs\<rparr> = s\<lparr>procs := procs s, bufs := bs, lru := lru s, disk := disk s, dtrace := dtrace s\<rparr>"
    by (rule bio.equality) simp_all
  then show ?thesis by (metis cache_frameI woken_refl)
qed

lemma cache_frame_trans: "cache_frame s t \<Longrightarrow> cache_frame t u \<Longrightarrow> cache_frame s u"
  unfolding cache_frame_def
proof (elim conjE exE, intro conjI)
  fix ps bs l d w ps' bs' l' d' w'
  assume "t = s\<lparr>procs := ps, bufs := bs, lru := l, disk := d, dtrace := w\<rparr>"
    and "u = t\<lparr>procs := ps', bufs := bs', lru := l', disk := d', dtrace := w'\<rparr>"
  then have "u = s\<lparr>procs := ps', bufs := bs', lru := l', disk := d', dtrace := w'\<rparr>" by simp
  then show "\<exists>ps bs l d w. u = s\<lparr>procs := ps, bufs := bs, lru := l, disk := d, dtrace := w\<rparr>" by blast
qed (rule woken_trans)

lemma cache_okD:
  assumes "cache_ok s"
  shows "length (bufs s) = NBUF" and "uniq (bufs s)" and "i < NBUF \<Longrightarrow> buf_ok (disk s 1) (bufs s ! i)"
    and "i \<in> set (lru s) \<longleftrightarrow> i < NBUF"
  using assms by (auto simp: cache_ok_def)

lemma find_SomeD: "find P xs = Some x \<Longrightarrow> x \<in> set xs \<and> P x"
  by (auto simp: find_Some_iff)

lemma bget_cached:
  assumes ok: "cache_ok s" and j: "j < NBUF" "dev (bufs s ! j) = 1" "blockno (bufs s ! j) = n" "\<not> lockd (bufs s ! j)"
  shows "\<exists>lk. sl_locked lk \<and> bget 1 n s = Some (j, s\<lparr>bufs := (bufs s)[j := (bufs s ! j)\<lparr>refcnt := 1, b_lock := lk\<rparr>]\<rparr>)"
proof -
  let ?P = "\<lambda>i. dev (bufs s ! i) = 1 \<and> blockno (bufs s ! i) = n"
  obtain i where i: "find ?P (lru s) = Some i"
    using j cache_okD(4) [OF ok, of j] by (cases "find ?P (lru s)") (auto simp: find_None_iff)
  then have "i \<in> set (lru s)" "?P i" using find_SomeD [OF i] by auto
  then have "i = j" using j cache_okD [OF ok] by (auto dest: uniqD)
  moreover have "refcnt (bufs s ! j) = 0" using j cache_okD(3) [OF ok, of j] by (simp add: buf_ok_def)
  moreover obtain p where "myproc s = Some p" using ok by (auto simp: cache_ok_def)
  moreover define lk where "lk = (b_lock (bufs s ! j))\<lparr>sl_locked := True, sl_pid := p_pid (procs s ! p)\<rparr>"
  ultimately have "bget 1 n s = Some (j, s\<lparr>bufs := (bufs s)[j := (bufs s ! j)\<lparr>refcnt := 1, b_lock := lk\<rparr>]\<rparr>)"
    using ok i j by (simp add: bget_def cache_ok_def acquiresleep_def upd_buf_def upd_buf_lock_def)
  moreover have "sl_locked lk" by (simp add: lk_def)
  ultimately show ?thesis by blast
qed

lemma bget_fresh:
  assumes ok: "cache_ok s" and no: "\<And>j. j < NBUF \<Longrightarrow> \<not> (dev (bufs s ! j) = 1 \<and> blockno (bufs s ! j) = n)"
    and ex: "\<exists>j<NBUF. \<not> lockd (bufs s ! j) \<and> \<not> dirty (bufs s ! j)"
  shows "\<exists>j lk. j < NBUF \<and> \<not> lockd (bufs s ! j) \<and> \<not> dirty (bufs s ! j) \<and> sl_locked lk \<and>
    bget 1 n s = Some (j, s\<lparr>bufs := (bufs s)[j := (bufs s ! j)\<lparr>dev := 1, blockno := n, valid := False, dirty := False,
      refcnt := 1, b_lock := lk\<rparr>]\<rparr>)"
proof -
  let ?Q = "\<lambda>i. refcnt (bufs s ! i) = 0 \<and> \<not> dirty (bufs s ! i)"
  have none: "find (\<lambda>i. dev (bufs s ! i) = 1 \<and> blockno (bufs s ! i) = n) (lru s) = None"
    using no cache_okD(4) [OF ok] by (auto simp: find_None_iff)
  have rc: "refcnt (bufs s ! j) = 0 \<longleftrightarrow> \<not> lockd (bufs s ! j)" if "j < NBUF" for j
    using cache_okD(3) [OF ok that] by (simp add: buf_ok_def)
  obtain j where j: "find ?Q (rev (lru s)) = Some j"
    using ex rc cache_okD(4) [OF ok] by (cases "find ?Q (rev (lru s))") (auto simp: find_None_iff)
  then have "j < NBUF" "?Q j" using find_SomeD [OF j] cache_okD(4) [OF ok] by auto
  with rc have "\<not> lockd (bufs s ! j)" by blast
  obtain p where p: "myproc s = Some p" using ok by (auto simp: cache_ok_def)
  let ?lk = "(b_lock (bufs s ! j))\<lparr>sl_locked := True, sl_pid := p_pid (procs s ! p)\<rparr>"
  have "bget 1 n s = Some (j, s\<lparr>bufs := (bufs s)[j := (bufs s ! j)\<lparr>dev := 1, blockno := n, valid := False, dirty := False,
      refcnt := 1, b_lock := ?lk\<rparr>]\<rparr>)"
    using ok none j p \<open>j < NBUF\<close> \<open>\<not> lockd (bufs s ! j)\<close>
    by (simp add: bget_def cache_ok_def acquiresleep_def upd_buf_def upd_buf_lock_def)
  with \<open>j < NBUF\<close> \<open>?Q j\<close> \<open>\<not> lockd (bufs s ! j)\<close> show ?thesis
    by (intro exI [of _ j] exI [of _ ?lk]) simp
qed

section \<open>bread\<close>

text \<open>The buffer that \<open>bread\<close> returns, \<open>b\<close> in place of \<open>old\<close>: the cached one, or a recycled one.\<close>

definition bread_result :: "'z bio_scheme \<Rightarrow> u32 \<Rightarrow> nat \<Rightarrow> buf \<Rightarrow> bool" where
  "bread_result s n i b \<longleftrightarrow> (let old = bufs s ! i in
     i < NBUF \<and> \<not> lockd old \<and> holds b n \<and> lockd b \<and> refcnt b = 1 \<and>
     (dev old = 1 \<and> blockno old = n \<and> dirty b = dirty old \<and> data b = (if valid old then data old else disk s 1 n) \<or>
      \<not> dirty old \<and> \<not> dirty b \<and> data b = disk s 1 n \<and> (\<forall>j<NBUF. \<not> (dev (bufs s ! j) = 1 \<and> blockno (bufs s ! j) = n))))"

lemma bread_load:
  assumes ok: "cache_ok s" and i: "i < NBUF" and b: "lockd b" "dev b = 1" "blockno b = n" "n < FSSIZE"
    and s1: "s1 = s\<lparr>bufs := (bufs s)[i := b]\<rparr>" and d: "dirty b \<longrightarrow> valid b"
    and get: "bget 1 n s = Some (i, s1)"
  shows "\<exists>c ps. bread 1 n s = Some (i, s\<lparr>procs := ps, bufs := (bufs s)[i := c]\<rparr>) \<and> woken (procs s) ps \<and>
    c = (if valid b then b else b\<lparr>data := disk s 1 n, valid := True, dirty := False\<rparr>)"
proof (cases "valid b")
  case True
  with get s1 i cache_okD(1) [OF ok] have "bread 1 n s = Some (i, s\<lparr>procs := procs s, bufs := (bufs s)[i := b]\<rparr>)"
    by (simp add: bread_def)
  with True show ?thesis by (intro exI [of _ b] exI [of _ "procs s"]) simp
next
  case False
  let ?c = "b\<lparr>data := disk s 1 n, valid := True, dirty := False\<rparr>"
  have len: "i < length (bufs s)" using i cache_okD(1) [OF ok] by simp
  have "request i s1" using ok b len s1 by (simp add: request_def cache_ok_def io_ready_def)
  then have "iderw i s1 = Some (wakeup1 (CBuf i) (s\<lparr>bufs := (bufs s)[i := ?c]\<rparr>))"
    using iderw_read [of i s1] False d b(3) s1 len by (simp add: upd_buf_def)
  then have "bread 1 n s = Some (i, s\<lparr>procs := map (wake_proc (CBuf i)) (procs s), bufs := (bufs s)[i := ?c]\<rparr>)"
    using get s1 False len by (simp add: bread_def wakeup1_def)
  with False show ?thesis
    by (intro exI [of _ ?c] exI [of _ "map (wake_proc (CBuf i)) (procs s)"]) (simp add: woken_wake)
qed

lemma bread_buf:
  assumes ok: "cache_ok s" and n: "n < FSSIZE" "n \<notin> locks s"
    and room: "(\<exists>j<NBUF. dev (bufs s ! j) = 1 \<and> blockno (bufs s ! j) = n) \<or> (\<exists>j<NBUF. \<not> lockd (bufs s ! j) \<and> \<not> dirty (bufs s ! j))"
  shows "\<exists>i b ps. bread 1 n s = Some (i, s\<lparr>procs := ps, bufs := (bufs s)[i := b]\<rparr>) \<and> woken (procs s) ps \<and> bread_result s n i b"
proof (cases "\<exists>j<NBUF. dev (bufs s ! j) = 1 \<and> blockno (bufs s ! j) = n")
  case True
  then obtain j where j: "j < NBUF" "dev (bufs s ! j) = 1" "blockno (bufs s ! j) = n" by blast
  then have nl: "\<not> lockd (bufs s ! j)" using n(2) cache_okD(1) [OF ok] by (auto simp: locks_def bset_def)
  from bget_cached [OF ok j nl] obtain lk where lk: "sl_locked lk"
    "bget 1 n s = Some (j, s\<lparr>bufs := (bufs s)[j := (bufs s ! j)\<lparr>refcnt := 1, b_lock := lk\<rparr>]\<rparr>)" by blast
  let ?b = "(bufs s ! j)\<lparr>refcnt := 1, b_lock := lk\<rparr>"
  have d: "dirty (bufs s ! j) \<longrightarrow> valid (bufs s ! j)" using cache_okD(3) [OF ok j(1)] by (simp add: buf_ok_def)
  have "bread_result s n j (if valid ?b then ?b else ?b\<lparr>data := disk s 1 n, valid := True, dirty := False\<rparr>)"
    using j nl lk(1) d by (cases "valid (bufs s ! j)") (simp_all add: bread_result_def holds_def Let_def)
  moreover have "\<exists>c ps. bread 1 n s = Some (j, s\<lparr>procs := ps, bufs := (bufs s)[j := c]\<rparr>) \<and> woken (procs s) ps \<and>
    c = (if valid ?b then ?b else ?b\<lparr>data := disk s 1 n, valid := True, dirty := False\<rparr>)"
    by (rule bread_load [OF ok j(1) _ _ _ n(1) refl _ lk(2)]) (use lk(1) j d in simp_all)
  ultimately show ?thesis by blast
next
  case False
  with room have "\<exists>j<NBUF. \<not> lockd (bufs s ! j) \<and> \<not> dirty (bufs s ! j)" by blast
  from bget_fresh [OF ok _ this] False obtain j lk where j: "j < NBUF" "\<not> lockd (bufs s ! j)" "\<not> dirty (bufs s ! j)"
    "sl_locked lk" and get: "bget 1 n s = Some (j, s\<lparr>bufs := (bufs s)[j := (bufs s ! j)\<lparr>dev := 1, blockno := n, valid := False,
      dirty := False, refcnt := 1, b_lock := lk\<rparr>]\<rparr>)" by blast
  let ?b = "(bufs s ! j)\<lparr>dev := 1, blockno := n, valid := False, dirty := False, refcnt := 1, b_lock := lk\<rparr>"
  have "bread_result s n j (if valid ?b then ?b else ?b\<lparr>data := disk s 1 n, valid := True, dirty := False\<rparr>)"
    using j False by (simp add: bread_result_def holds_def Let_def)
  moreover have "\<exists>c ps. bread 1 n s = Some (j, s\<lparr>procs := ps, bufs := (bufs s)[j := c]\<rparr>) \<and> woken (procs s) ps \<and>
    c = (if valid ?b then ?b else ?b\<lparr>data := disk s 1 n, valid := True, dirty := False\<rparr>)"
    by (rule bread_load [OF ok j(1) _ _ _ n(1) refl _ get]) (use j in simp_all)
  ultimately show ?thesis by blast
qed

lemma cache_ok_update:
  "cache_ok s \<Longrightarrow> i < NBUF \<Longrightarrow> uniq ((bufs s)[i := b]) \<Longrightarrow> buf_ok (disk s 1) b \<Longrightarrow>
   cache_ok (s\<lparr>procs := ps, bufs := (bufs s)[i := b]\<rparr>)"
  by (auto simp: cache_ok_def io_ready_def nth_list_update)

lemma cache_ok_handle:
  assumes "cache_ok s" and "handle s i n"
  shows "buf_ok (disk s 1) (bufs s ! i)" and "i < length (bufs s)" and "dev (bufs s ! i) = 1" and "blockno (bufs s ! i) = n"
    and "valid (bufs s ! i)" and "lockd (bufs s ! i)" and "refcnt (bufs s ! i) = 1"
    and "blk s n = data (bufs s ! i)" and "n \<in> locks s" and "n \<in> pinned s \<longleftrightarrow> dirty (bufs s ! i)"
proof -
  have i: "i < NBUF" "lockd (bufs s ! i)" and h: "holds (bufs s ! i) n" using assms(2) by (simp_all add: handle_def)
  note ok = cache_okD [OF assms(1)]
  show b: "buf_ok (disk s 1) (bufs s ! i)" by (rule ok(3) [OF i(1)])
  show len: "i < length (bufs s)" using i(1) ok(1) by simp
  show dn: "dev (bufs s ! i) = 1" "blockno (bufs s ! i) = n" "valid (bufs s ! i)" using h by (simp_all add: holds_def)
  show "lockd (bufs s ! i)" by (rule i(2))
  show "refcnt (bufs s ! i) = 1" using b i(2) by (simp add: buf_ok_def)
  show "blk s n = data (bufs s ! i)" unfolding blk_def by (rule lblk_holds [OF ok(2) len h])
  show "n \<in> locks s" using dn len i(2) by (auto simp: locks_def bset_def)
  show "n \<in> pinned s \<longleftrightarrow> dirty (bufs s ! i)"
  proof
    assume "n \<in> pinned s"
    then obtain j where "j < length (bufs s)" "dev (bufs s ! j) = 1" "blockno (bufs s ! j) = n" "dirty (bufs s ! j)"
      by (auto simp: pinned_def bset_def)
    with dn len show "dirty (bufs s ! i)" using uniqD [OF ok(2), of i j] by auto
  next
    assume "dirty (bufs s ! i)"
    with dn len show "n \<in> pinned s" by (auto simp: pinned_def bset_def)
  qed
qed

lemma bread_result_ok:
  assumes ok: "cache_ok s" and n: "n < FSSIZE" and r: "bread_result s n i b"
  shows "uniq ((bufs s)[i := b])" and "buf_ok (disk s 1) b"
    and "lblk ((bufs s)[i := b]) (disk s 1) m = lblk (bufs s) (disk s 1) m"
    and "data b = lblk (bufs s) (disk s 1) n"
    and "bset dirty ((bufs s)[i := b]) = bset dirty (bufs s)"
    and "bset lockd ((bufs s)[i := b]) = insert n (bset lockd (bufs s))"
proof -
  let ?o = "bufs s ! i"
  note k = cache_okD [OF ok]
  have i: "i < NBUF" "i < length (bufs s)" and o: "\<not> lockd ?o" and b: "holds b n" "lockd b" "refcnt b = 1"
    using r k(1) by (simp_all add: bread_result_def Let_def)
  have bo: "buf_ok (disk s 1) ?o" by (rule k(3) [OF i(1)])
  have len: "length (disk s 1 n) = BSIZE" using ok n by (simp add: cache_ok_def)
  have cases: "dev ?o = 1 \<and> blockno ?o = n \<and> dirty b = dirty ?o \<and> data b = (if valid ?o then data ?o else disk s 1 n) \<or>
    \<not> dirty ?o \<and> \<not> dirty b \<and> data b = disk s 1 n \<and> (\<forall>j<NBUF. \<not> (dev (bufs s ! j) = 1 \<and> blockno (bufs s ! j) = n))"
    using r by (simp add: bread_result_def Let_def)
  have db: "dev b = 1" "blockno b = n" "valid b" using b(1) by (simp_all add: holds_def)
  show u: "uniq ((bufs s)[i := b])"
  proof (rule uniq_update [OF k(2) i(2)])
    fix j
    assume "j < length (bufs s)" "j \<noteq> i" "dev (bufs s ! j) = 1"
    then show "blockno (bufs s ! j) \<noteq> blockno b"
      using cases db k(1) i(2) uniqD [OF k(2), of i j] by auto
  qed
  have "length (data b) = BSIZE" using cases bo len by (auto simp: buf_ok_def split: if_splits)
  then show "buf_ok (disk s 1) b" using b db by (simp add: buf_ok_def)
  have clean: "data ?o = disk s 1 (blockno ?o)" if "dev ?o = 1" "valid ?o" "\<not> dirty ?o"
    using bo o that by (simp add: buf_ok_def)
  have old: "lblk (bufs s) (disk s 1) (blockno ?o) = data ?o" if "dev ?o = 1" "valid ?o"
    using that by (intro lblk_holds [OF k(2) i(2)]) (simp add: holds_def)
  show dn: "data b = lblk (bufs s) (disk s 1) n"
  proof (cases "dev ?o = 1 \<and> blockno ?o = n")
    case True
    have "lblk (bufs s) (disk s 1) n = disk s 1 n" if "\<not> valid ?o"
    proof (rule lblk_disk, rule notI)
      fix j
      assume j: "j < length (bufs s)" "holds (bufs s ! j) n"
      then have "i = j" using True i(2) by (intro uniqD [OF k(2)]) (simp_all add: holds_def)
      with j that show False by (simp add: holds_def)
    qed
    with True cases old k(1) i show ?thesis by auto
  next
    case False
    with cases have "data b = disk s 1 n" "\<forall>j<NBUF. \<not> (dev (bufs s ! j) = 1 \<and> blockno (bufs s ! j) = n)" by auto
    moreover from this(2) have "lblk (bufs s) (disk s 1) n = disk s 1 n"
      using k(1) by (intro lblk_disk) (auto simp: holds_def)
    ultimately show ?thesis by simp
  qed
  show "lblk ((bufs s)[i := b]) (disk s 1) m = lblk (bufs s) (disk s 1) m"
    using dn cases clean old db unfolding lblk_update [OF k(2) u i(2)] by (auto simp: holds_def)
  have "blockno ?o \<in> bset dirty (bufs s)" if "dirty ?o"
    using that bo i(2) unfolding bset_def by (intro CollectI exI [of _ i]) (simp add: buf_ok_def)
  then show "bset dirty ((bufs s)[i := b]) = bset dirty (bufs s)"
    using cases db unfolding bset_update [OF k(2) i(2)] by auto
  show "bset lockd ((bufs s)[i := b]) = insert n (bset lockd (bufs s))"
    using o b db unfolding bset_update [OF k(2) i(2)] by auto
qed

text \<open>Room for block \<open>n\<close>: it is pinned, so cached, or some buffer is neither pinned nor locked.\<close>

lemma finite_bset [simp]: "finite (bset P bs)"
proof -
  have "bset P bs = (\<lambda>i. blockno (bs ! i)) ` {i. i < length bs \<and> dev (bs ! i) = 1 \<and> P (bs ! i)}"
    unfolding bset_def by auto
  then show ?thesis by simp
qed

lemma room_exists:
  assumes ok: "cache_ok s" and room: "n \<in> pinned s \<or> card (pinned s \<union> locks s) < NBUF"
  shows "(\<exists>j<NBUF. dev (bufs s ! j) = 1 \<and> blockno (bufs s ! j) = n) \<or> (\<exists>j<NBUF. \<not> lockd (bufs s ! j) \<and> \<not> dirty (bufs s ! j))"
proof (cases "n \<in> pinned s")
  case True
  then show ?thesis using cache_okD(1) [OF ok] by (auto simp: pinned_def bset_def)
next
  case False
  note k = cache_okD [OF ok]
  have "\<exists>j<NBUF. \<not> lockd (bufs s ! j) \<and> \<not> dirty (bufs s ! j)"
  proof (rule ccontr)
    assume "\<not> ?thesis"
    then have all: "lockd (bufs s ! j) \<or> dirty (bufs s ! j)" if "j < NBUF" for j using that by blast
    have d: "dev (bufs s ! j) = 1" if "j < NBUF" for j using all [OF that] k(3) [OF that] by (auto simp: buf_ok_def)
    have "inj_on (\<lambda>j. blockno (bufs s ! j)) {..<NBUF}"
      using d k(1) by (intro inj_onI) (auto intro: uniqD [OF k(2)])
    then have "card ((\<lambda>j. blockno (bufs s ! j)) ` {..<NBUF}) = NBUF" by (simp add: card_image)
    moreover have "(\<lambda>j. blockno (bufs s ! j)) ` {..<NBUF} \<subseteq> pinned s \<union> locks s"
      using all d k(1) by (fastforce simp: pinned_def locks_def bset_def)
    ultimately have "NBUF \<le> card (pinned s \<union> locks s)"
      by (metis card_mono finite_UnI finite_bset locks_def pinned_def)
    with room False show False by simp
  qed
  then show ?thesis by blast
qed

lemma handle_other: "handle s j m \<Longrightarrow> i \<noteq> j \<Longrightarrow> bufs t = (bufs s)[i := b] \<Longrightarrow> handle t j m \<and> bufs t ! j = bufs s ! j"
  by (simp add: handle_def)

text \<open>What \<open>bread\<close> does, seen from the blocks.\<close>

definition after_bread :: "'z bio_scheme \<Rightarrow> u32 \<Rightarrow> nat \<Rightarrow> 'z bio_scheme \<Rightarrow> bool" where
  "after_bread s n i t \<longleftrightarrow> cache_ok t \<and> cache_frame s t \<and> handle t i n \<and> data (bufs t ! i) = blk s n \<and> blk t = blk s \<and>
     pinned t = pinned s \<and> locks t = insert n (locks s) \<and> disk t = disk s \<and> dtrace t = dtrace s \<and>
     (\<forall>j m. handle s j m \<longrightarrow> handle t j m \<and> bufs t ! j = bufs s ! j)"

lemma bread_spec:
  assumes ok: "cache_ok s" and n: "n < FSSIZE" "n \<notin> locks s" and room: "n \<in> pinned s \<or> card (pinned s \<union> locks s) < NBUF"
  shows "\<exists>i t. bread 1 n s = Some (i, t) \<and> after_bread s n i t"
proof -
  obtain i b ps where r: "bread 1 n s = Some (i, s\<lparr>procs := ps, bufs := (bufs s)[i := b]\<rparr>)" "woken (procs s) ps" "bread_result s n i b"
    using bread_buf [OF ok n room_exists [OF ok room]] by blast
  let ?t = "s\<lparr>procs := ps, bufs := (bufs s)[i := b]\<rparr>"
  note b = bread_result_ok [OF ok n(1) r(3)]
  have i: "i < NBUF" "\<not> lockd (bufs s ! i)" "holds b n" "lockd b" using r(3) by (simp_all add: bread_result_def Let_def)
  have len: "i < length (bufs s)" using i(1) cache_okD(1) [OF ok] by simp
  have "cache_ok ?t" by (rule cache_ok_update [OF ok i(1) b(1,2)])
  moreover have "cache_frame s ?t"
    using cache_frameI [OF r(2), where bs = "(bufs s)[i := b]" and l = "lru s" and d = "disk s" and w = "dtrace s"] by simp
  moreover have "handle ?t j m \<and> bufs ?t ! j = bufs s ! j" if "handle s j m" for j m
    using that i(2) by (intro handle_other [where i = i and b = b]) (auto simp: handle_def)
  ultimately have "after_bread s n i ?t"
    using i len b(3-6) by (auto simp: after_bread_def handle_def blk_def pinned_def locks_def)
  with r(1) show ?thesis by blast
qed

section \<open>Operations on a locked buffer\<close>

definition on_handle :: "'z bio_scheme \<Rightarrow> nat \<Rightarrow> 'z bio_scheme \<Rightarrow> bool" where
  "on_handle s i t \<longleftrightarrow> cache_ok t \<and> cache_frame s t \<and> (\<forall>j m. i \<noteq> j \<longrightarrow> handle s j m \<longrightarrow> handle t j m \<and> bufs t ! j = bufs s ! j)"

lemma on_handleI:
  assumes ok: "cache_ok s" and h: "handle s i n" and b: "buf_ok (disk s 1) b" "dev b = 1" "blockno b = n"
  shows "on_handle s i (s\<lparr>bufs := (bufs s)[i := b]\<rparr>)" and "uniq ((bufs s)[i := b])"
proof -
  note k = cache_ok_handle [OF ok h]
  show u: "uniq ((bufs s)[i := b])"
    using b k by (intro uniq_same_key [OF cache_okD(2) [OF ok]]) simp_all
  let ?t = "s\<lparr>bufs := (bufs s)[i := b]\<rparr>"
  have "cache_ok ?t" using cache_ok_update [OF ok _ u b(1), of "procs s"] h by (simp add: handle_def)
  moreover have "cache_frame s ?t" by (rule cache_frame_bufs)
  moreover have "handle ?t j m \<and> bufs ?t ! j = bufs s ! j" if "handle s j m" "i \<noteq> j" for j m
    using handle_other [OF that, of ?t b] by simp
  ultimately show "on_handle s i ?t" by (simp add: on_handle_def)
qed

lemma set_data_spec:
  assumes ok: "cache_ok s" and h: "handle s i n" and d: "length d = BSIZE"
  defines "t \<equiv> set_data i d s"
  shows "on_handle s i t" and "handle t i n" and "data (bufs t ! i) = d" and "blk t = (blk s)(n := d)"
    and "pinned t = pinned s" and "locks t = locks s" and "disk t = disk s" and "dtrace t = dtrace s"
proof -
  note k = cache_ok_handle [OF ok h]
  let ?b = "(bufs s ! i)\<lparr>data := d\<rparr>"
  have t: "t = s\<lparr>bufs := (bufs s)[i := ?b]\<rparr>" by (simp add: t_def set_data_def upd_buf_def)
  have b: "buf_ok (disk s 1) ?b" using k d by (simp add: buf_ok_def)
  note u = on_handleI [OF ok h b, unfolded t [symmetric]]
  show "on_handle s i t" using u(1) k by simp
  have u2: "uniq ((bufs s)[i := ?b])" using on_handleI(2) [OF ok h b] k by simp
  show "handle t i n" using h k by (simp add: t handle_def holds_def)
  show "data (bufs t ! i) = d" using k by (simp add: t)
  show "blk t = (blk s)(n := d)"
    using lblk_update [OF cache_okD(2) [OF ok] u2 k(2), of "disk s 1"] k by (auto simp: fun_eq_iff blk_def t holds_def)
  show "pinned t = pinned s" "locks t = locks s"
    using bset_same [OF cache_okD(2) [OF ok] k(2), where b = ?b] by (simp_all add: pinned_def locks_def t)
  show "disk t = disk s" "dtrace t = dtrace s" by (simp_all add: t)
qed

lemma mark_dirty_spec:
  assumes ok: "cache_ok s" and h: "handle s i n"
  defines "t \<equiv> upd_buf i (\<lambda>c. c\<lparr>dirty := True\<rparr>) s"
  shows "on_handle s i t" and "handle t i n" and "data (bufs t ! i) = data (bufs s ! i)" and "blk t = blk s"
    and "pinned t = insert n (pinned s)" and "locks t = locks s" and "disk t = disk s" and "dtrace t = dtrace s"
proof -
  note k = cache_ok_handle [OF ok h]
  let ?b = "(bufs s ! i)\<lparr>dirty := True\<rparr>"
  have t: "t = s\<lparr>bufs := (bufs s)[i := ?b]\<rparr>" by (simp add: t_def upd_buf_def)
  have b: "buf_ok (disk s 1) ?b" using k by (simp add: buf_ok_def)
  show "on_handle s i t" using on_handleI(1) [OF ok h b] k t by simp
  have u2: "uniq ((bufs s)[i := ?b])" using on_handleI(2) [OF ok h b] k by simp
  show "handle t i n" using h k by (simp add: t handle_def holds_def)
  show "data (bufs t ! i) = data (bufs s ! i)" using k by (simp add: t)
  show "blk t = blk s"
    using lblk_update [OF cache_okD(2) [OF ok] u2 k(2), of "disk s 1"] k by (auto simp: fun_eq_iff blk_def t holds_def)
  show "pinned t = insert n (pinned s)"
    using bset_update [OF cache_okD(2) [OF ok] k(2), where b = ?b] k by (auto simp: pinned_def t)
  show "locks t = locks s"
    using bset_same [OF cache_okD(2) [OF ok] k(2), where b = ?b] by (simp add: locks_def t)
  show "disk t = disk s" "dtrace t = dtrace s" by (simp_all add: t)
qed

text \<open>\<open>bwrite\<close>: the block reaches the disk and is no longer pinned.\<close>

lemma buf_ok_disk: "buf_ok D b \<Longrightarrow> (dev b = 1 \<Longrightarrow> blockno b \<noteq> n) \<Longrightarrow> buf_ok (D(n := x)) b"
  by (auto simp: buf_ok_def)

lemma lblk_cong: "D n = D' n \<Longrightarrow> lblk bs D n = lblk bs D' n"
  by (simp add: lblk_def split: option.split)

lemma bwrite_spec:
  assumes ok: "cache_ok s" and h: "handle s i n" and n: "n < FSSIZE"
  shows "\<exists>t. bwrite i s = Some t \<and> on_handle s i t \<and> handle t i n \<and> data (bufs t ! i) = data (bufs s ! i) \<and> blk t = blk s \<and>
    pinned t = pinned s - {n} \<and> locks t = locks s \<and> disk t = (disk s)(1 := (disk s 1)(n := data (bufs s ! i))) \<and>
    dtrace t = dtrace s @ [(1, n, data (bufs s ! i))]"
proof -
  note k = cache_ok_handle [OF ok h] and c = cache_okD [OF ok]
  let ?x = "data (bufs s ! i)"
  let ?D = "(disk s 1)(n := ?x)"
  let ?s = "upd_buf i (\<lambda>b. b\<lparr>dirty := True\<rparr>) s"
  let ?b = "(bufs s ! i)\<lparr>valid := True, dirty := False\<rparr>"
  define t where "t = s\<lparr>procs := map (wake_proc (CBuf i)) (procs s), bufs := (bufs s)[i := ?b], lru := lru s,
    disk := (disk s)(1 := ?D), dtrace := dtrace s @ [(1, n, ?x)]\<rparr>"
  have "request i ?s" using ok k n by (simp add: request_def cache_ok_def io_ready_def upd_buf_def)
  moreover have "dirty (bufs ?s ! i)" using k(2) by (simp add: upd_buf_def)
  ultimately have "iderw i ?s = Some (wakeup1 (CBuf i) (upd_buf i (\<lambda>c. c\<lparr>valid := True, dirty := False\<rparr>)
    (disk_write 1 (blockno (bufs ?s ! i)) (data (bufs ?s ! i)) ?s)))" by (rule iderw_write)
  then have w: "bwrite i s = Some t"
    using k by (simp add: bwrite_def holdingsleep_def wakeup1_def upd_buf_def disk_write_def t_def buf_flip)
  have u: "uniq ((bufs s)[i := ?b])" using k by (intro uniq_same_key [OF c(2)]) simp_all
  have "buf_ok ?D (bufs s ! j)" if "j < NBUF" "j \<noteq> i" for j
    using that k c(1) uniqD [OF c(2), of i j] by (intro buf_ok_disk c(3)) auto
  moreover have "buf_ok ?D ?b" using k by (simp add: buf_ok_def)
  moreover have "length ?x = BSIZE" using k(1) by (simp add: buf_ok_def)
  ultimately have "cache_ok t"
    using ok u k(2) by (auto simp: t_def cache_ok_def io_ready_def nth_list_update)
  moreover have "cache_frame s t" unfolding t_def by (rule cache_frameI [OF woken_wake])
  moreover have "handle t j m \<and> bufs t ! j = bufs s ! j" if "handle s j m" "i \<noteq> j" for j m
    using handle_other [OF that, of t ?b] by (simp add: t_def)
  ultimately have o: "on_handle s i t" by (simp add: on_handle_def)
  have "handle t i n" "data (bufs t ! i) = ?x" using h k by (simp_all add: t_def handle_def holds_def)
  moreover have "blk t m = blk s m" for m
  proof (cases "m = n")
    case True
    then show ?thesis using lblk_holds [OF u, of i n ?D] k by (simp add: blk_def t_def holds_def)
  next
    case False
    have "lblk ((bufs s)[i := ?b]) ?D m = lblk (bufs s) ?D m"
      using lblk_update [OF c(2) u k(2), of ?D m] False k by (simp add: holds_def)
    also have "\<dots> = lblk (bufs s) (disk s 1) m" using False by (intro lblk_cong) simp
    finally show ?thesis by (simp add: blk_def t_def)
  qed
  moreover have "pinned t = pinned s - {n}"
    using bset_update [OF c(2) k(2), of dirty ?b] k by (auto simp: pinned_def t_def)
  moreover have "locks t = locks s"
    using bset_same [OF c(2) k(2), where b = ?b] by (simp add: locks_def t_def)
  ultimately show ?thesis using w o by (intro exI [of _ t]) (auto simp: t_def)
qed

text \<open>\<open>brelse\<close>: a buffer can be released when it is pinned or agrees with the disk.\<close>

lemma set_move_front: "distinct xs \<Longrightarrow> i \<in> set xs \<Longrightarrow> distinct (i # remove1 i xs) \<and> set (i # remove1 i xs) = set xs"
  by auto

lemma brelse_spec:
  assumes ok: "cache_ok s" and h: "handle s i n" and c: "n \<in> pinned s \<or> blk s n = disk s 1 n"
  shows "\<exists>t. brelse i s = Some t \<and> on_handle s i t \<and> blk t = blk s \<and> pinned t = pinned s \<and> locks t = locks s - {n} \<and>
    disk t = disk s \<and> dtrace t = dtrace s"
proof -
  note k = cache_ok_handle [OF ok h] and d = cache_okD [OF ok]
  let ?b = "(bufs s ! i)\<lparr>b_lock := (b_lock (bufs s ! i))\<lparr>sl_locked := False, sl_pid := 0\<rparr>, refcnt := 0\<rparr>"
  define t where "t = s\<lparr>procs := map (wake_proc (CBufLock i)) (procs s), bufs := (bufs s)[i := ?b], lru := i # remove1 i (lru s),
    disk := disk s, dtrace := dtrace s\<rparr>"
  have lock: "LPtable \<notin> set (held s)" "LBcache \<notin> set (held s)" using ok by (simp_all add: cache_ok_def io_ready_def)
  have w: "brelse i s = Some t"
    using k lock by (simp add: brelse_def holdingsleep_def releasesleep_def wakeup1_def upd_buf_lock_def upd_buf_def t_def)
  have u: "uniq ((bufs s)[i := ?b])" using k by (intro uniq_same_key [OF d(2)]) simp_all
  have b: "buf_ok (disk s 1) ?b" using k c by (auto simp: buf_ok_def)
  have l: "distinct (i # remove1 i (lru s)) \<and> set (i # remove1 i (lru s)) = set (lru s)"
    using ok k(2) d(1,4) by (intro set_move_front) (simp_all add: cache_ok_def)
  have "cache_ok t"
    using ok u b k(2) l unfolding cache_ok_def io_ready_def t_def by (simp add: nth_list_update)
  moreover have "cache_frame s t" unfolding t_def by (rule cache_frameI [OF woken_wake])
  moreover have "handle t j m \<and> bufs t ! j = bufs s ! j" if "handle s j m" "i \<noteq> j" for j m
    using handle_other [OF that, of t ?b] by (simp add: t_def)
  ultimately have o: "on_handle s i t" by (simp add: on_handle_def)
  have "blk t = blk s"
    using lblk_update [OF d(2) u k(2), of "disk s 1"] k by (auto simp: fun_eq_iff blk_def t_def holds_def)
  moreover have "pinned t = pinned s"
    using bset_same [OF d(2) k(2), where b = ?b] by (simp add: pinned_def t_def)
  moreover have "locks t = locks s - {n}"
    using bset_update [OF d(2) k(2), of lockd ?b] k by (auto simp: locks_def t_def)
  ultimately show ?thesis using w o by (intro exI [of _ t]) (simp add: t_def)
qed

lemma coherent:
  assumes ok: "cache_ok s" and n: "n \<notin> pinned s" "n \<notin> locks s"
  shows "blk s n = disk s 1 n"
proof (cases "\<exists>i<length (bufs s). holds (bufs s ! i) n")
  case True
  then obtain i where i: "i < length (bufs s)" "holds (bufs s ! i) n" by blast
  have b: "buf_ok (disk s 1) (bufs s ! i)" using i(1) cache_okD [OF ok] by simp
  have "\<not> dirty (bufs s ! i)" "\<not> lockd (bufs s ! i)"
    using i n by (auto simp: pinned_def locks_def bset_def holds_def)
  with b i show ?thesis
    using lblk_holds [OF cache_okD(2) [OF ok] i] by (simp add: blk_def buf_ok_def holds_def)
next
  case False
  then show ?thesis unfolding blk_def by (intro lblk_disk) blast
qed

section \<open>The cache as a store of blocks\<close>

text \<open>Reading and writing a block the way the kernel does, in one step each.\<close>

definition read_block :: "u32 \<Rightarrow> 'z bio_scheme \<Rightarrow> (u8 list \<times> 'z bio_scheme) option" where
  "read_block n s = do {
     (i, s) \<leftarrow> bread 1 n s;
     let x = data (bufs s ! i);
     s \<leftarrow> brelse i s;
     Some (x, s) }"

definition write_block :: "u32 \<Rightarrow> u8 list \<Rightarrow> 'z bio_scheme \<Rightarrow> 'z bio_scheme option" where
  "write_block n d s = do {
     (i, s) \<leftarrow> bread 1 n s;
     s \<leftarrow> bwrite i (set_data i d s);
     brelse i s }"

definition quiet :: "'z bio_scheme \<Rightarrow> bool" where
  "quiet s \<longleftrightarrow> cache_ok s \<and> locks s = {} \<and> card (pinned s) < NBUF"

text \<open>The contract of a store of blocks, and what a client can conclude about any sequence of accesses.\<close>

fun write_all :: "(u32 \<Rightarrow> u8 list \<Rightarrow> 's \<Rightarrow> 's option) \<Rightarrow> (u32 \<times> u8 list) list \<Rightarrow> 's \<Rightarrow> 's option" where
  "write_all wrb [] s = Some s"
| "write_all wrb ((n, d) # ws) s = do { s \<leftarrow> wrb n d s; write_all wrb ws s }"

definition dapply :: "(u32 \<times> u8 list) list \<Rightarrow> (u32 \<Rightarrow> u8 list) \<Rightarrow> u32 \<Rightarrow> u8 list" where
  "dapply ws = fold (\<lambda>(n, d) D. D(n := d)) ws"

locale block_store =
  fixes rdb :: "u32 \<Rightarrow> 's \<Rightarrow> (u8 list \<times> 's) option"
    and wrb :: "u32 \<Rightarrow> u8 list \<Rightarrow> 's \<Rightarrow> 's option"
    and ok :: "'s \<Rightarrow> bool"
    and view :: "'s \<Rightarrow> u32 \<Rightarrow> u8 list"
  assumes read_law: "ok s \<Longrightarrow> n < FSSIZE \<Longrightarrow> \<exists>t. rdb n s = Some (view s n, t) \<and> ok t \<and> view t = view s"
    and write_law: "ok s \<Longrightarrow> n < FSSIZE \<Longrightarrow> length d = BSIZE \<Longrightarrow> \<exists>t. wrb n d s = Some t \<and> ok t \<and> view t = (view s)(n := d)"
begin

lemma write_all_view:
  "ok s \<Longrightarrow> \<forall>(n, d)\<in>set ws. n < FSSIZE \<and> length d = BSIZE \<Longrightarrow>
   \<exists>t. write_all wrb ws s = Some t \<and> ok t \<and> view t = dapply ws (view s)"
proof (induction ws arbitrary: s)
  case Nil
  then show ?case by (simp add: dapply_def)
next
  case (Cons w ws)
  obtain n d where w: "w = (n, d)" by (cases w)
  with Cons.prems obtain u where u: "wrb n d s = Some u" "ok u" "view u = (view s)(n := d)"
    using write_law [of s n d] by auto
  with Cons.IH [OF u(2)] Cons.prems(2) w show ?case by (auto simp: dapply_def fun_upd_def)
qed

lemma read_after_writes:
  assumes "ok s" and "\<forall>(n, d)\<in>set ws. n < FSSIZE \<and> length d = BSIZE" and "n < FSSIZE"
  shows "\<exists>t u. write_all wrb ws s = Some t \<and> rdb n t = Some (dapply ws (view s) n, u) \<and> ok u"
  using write_all_view [OF assms(1,2)] read_law [OF _ assms(3)] by metis

end

lemma read_block_spec:
  assumes q: "quiet s" and n: "n < FSSIZE"
  shows "\<exists>t. read_block n s = Some (blk s n, t) \<and> quiet t \<and> blk t = blk s \<and> pinned t = pinned s \<and> disk t = disk s \<and>
    cache_frame s t \<and> dtrace t = dtrace s"
proof -
  from q n obtain i u where u: "bread 1 n s = Some (i, u)" "after_bread s n i u"
    using bread_spec [of s n] by (auto simp: quiet_def)
  then have h: "handle u i n" "n \<in> pinned u \<or> blk u n = disk u 1 n" "cache_ok u"
    using coherent [of s n] q by (auto simp: after_bread_def quiet_def)
  then obtain t where t: "brelse i u = Some t" "on_handle u i t" "blk t = blk u" "pinned t = pinned u" "locks t = locks u - {n}"
    "disk t = disk u" "dtrace t = dtrace u"
    using brelse_spec by blast
  with u q show ?thesis
    by (auto simp: read_block_def after_bread_def on_handle_def quiet_def intro: cache_frame_trans)
qed

lemma write_block_spec:
  assumes q: "quiet s" and n: "n < FSSIZE" and d: "length d = BSIZE"
  shows "\<exists>t. write_block n d s = Some t \<and> quiet t \<and> blk t = (blk s)(n := d) \<and> pinned t = pinned s - {n} \<and>
    disk t = (disk s)(1 := (disk s 1)(n := d)) \<and> cache_frame s t \<and> dtrace t = dtrace s @ [(1, n, d)]"
proof -
  from q n obtain i u where u: "bread 1 n s = Some (i, u)" "after_bread s n i u"
    using bread_spec [of s n] by (auto simp: quiet_def)
  then have h: "cache_ok u" "handle u i n" by (auto simp: after_bread_def)
  note v = set_data_spec [OF h d]
  have v1: "cache_ok (set_data i d u)" using v(1) by (simp add: on_handle_def)
  obtain w where w: "bwrite i (set_data i d u) = Some w" "on_handle (set_data i d u) i w" "handle w i n" "blk w = blk (set_data i d u)"
    "pinned w = pinned (set_data i d u) - {n}" "locks w = locks (set_data i d u)"
    "disk w = (disk (set_data i d u))(1 := (disk (set_data i d u) 1)(n := d))" "dtrace w = dtrace (set_data i d u) @ [(1, n, d)]"
    using bwrite_spec [OF v1 v(2) n] v(3) by auto
  then have "cache_ok w" "blk w n = disk w 1 n" using v(4) by (simp_all add: on_handle_def)
  with w(3) obtain t where t: "brelse i w = Some t" "on_handle w i t" "blk t = blk w" "pinned t = pinned w" "locks t = locks w - {n}"
    "disk t = disk w" "dtrace t = dtrace w"
    using brelse_spec by blast
  have "cache_frame s t" using u(2) v(1) w(2) t(2) by (auto simp: after_bread_def on_handle_def intro: cache_frame_trans)
  moreover have "card (pinned s - {n}) < NBUF" using q card_mono [of "pinned s" "pinned s - {n}"] by (simp add: quiet_def pinned_def)
  moreover have "cache_ok t" using t(2) by (simp add: on_handle_def)
  ultimately show ?thesis using u v(4-8) w t q
    by (simp add: write_block_def quiet_def after_bread_def)
qed

interpretation bcache: block_store read_block write_block quiet blk
  using read_block_spec write_block_spec by unfold_locales blast+

text \<open>The result of a driver is determined but for the processes.\<close>

lemma same_but_procs:
  assumes "t = s\<lparr>procs := procs t, bufs := b, disk := d, dtrace := w\<rparr>" and "u = s\<lparr>procs := procs u, bufs := b, disk := d, dtrace := w\<rparr>"
  shows "t = u\<lparr>procs := procs t\<rparr>"
proof -
  have "u\<lparr>procs := procs t\<rparr> = (s\<lparr>procs := procs u, bufs := b, disk := d, dtrace := w\<rparr>)\<lparr>procs := procs t\<rparr>"
    using assms(2) by (rule arg_cong)
  also have "\<dots> = s\<lparr>procs := procs t, bufs := b, disk := d, dtrace := w\<rparr>" by simp
  finally show ?thesis using assms(1) by simp
qed

lemma written_unique: "written i s t \<Longrightarrow> written i s u \<Longrightarrow> t = u\<lparr>procs := procs t\<rparr>"
  unfolding written_def by (rule same_but_procs) blast+

lemma loaded_frame:
  assumes "loaded i s t"
  shows "t = s\<lparr>procs := procs t, bufs := (bufs s)[i := (bufs s ! i)\<lparr>data := disk s 1 (blockno (bufs s ! i)), valid := True, dirty := False\<rparr>],
    disk := disk s, dtrace := dtrace s\<rparr>" (is "t = ?r (procs t)")
proof -
  have "t = s\<lparr>procs := procs t, bufs := (bufs s)[i := (bufs s ! i)\<lparr>data := disk s 1 (blockno (bufs s ! i)), valid := True, dirty := False\<rparr>]\<rparr>"
    using assms unfolding loaded_def by blast
  also have "\<dots> = ?r (procs t)" by (rule bio.equality) simp_all
  finally show ?thesis .
qed

lemma loaded_unique: "loaded i s t \<Longrightarrow> loaded i s u \<Longrightarrow> t = u\<lparr>procs := procs t\<rparr>"
  by (drule loaded_frame, drule loaded_frame) (rule same_but_procs)

section \<open>A concrete cache\<close>

text \<open>The state of a machine that has just started its buffer cache, with one process and the given disk; \<open>z\<close> is the rest of
  the kernel.\<close>

definition boot_proc :: proc where
  "boot_proc = \<lparr>p_sz = 0, p_pgdir = 0, p_kstack = 0, p_state = RUNNING, p_pid = 1, p_parent = None, p_tf = 0, p_context = 0,
     p_chan = None, p_killed = False, p_ofile = replicate 16 None, p_cwd = None, p_name = []\<rparr>"

definition boot_buf :: buf where
  "boot_buf = \<lparr>valid = False, dirty = False, dev = 0, blockno = 0, b_lock = initsleeplock, refcnt = 0, data = replicate 512 0\<rparr>"

definition boot_bio :: "(u32 \<Rightarrow> u8 list) \<Rightarrow> 'z \<Rightarrow> 'z bio_scheme" where
  "boot_bio D z = binit \<lparr>held = [], mem = (\<lambda>_. 0), kend = 0x80108000, use_lock = True, freelist = 0, pg_refcount = (\<lambda>_. 0),
     kpgdir = 0, kdata = 0, cr3 = 0, gdt = [], ts = \<lparr>esp0 = 0, ss0 = 0, iomb = 0\<rparr>, ts_addr = 0, tr = 0,
     procs = [boot_proc], myproc = Some 0, initproc = Some 0, nextpid = 2, trapret = 0, forkret_pc = 0,
     bufs = replicate NBUF boot_buf, lru = [], disk = (\<lambda>d. D), dtrace = [], havedisk1 = True, ide_error = False, idequeue = [],
     \<dots> = z\<rparr>"

lemma set_fold_Cons: "set (fold Cons xs ys) = set xs \<union> set ys" "distinct (fold Cons xs ys) \<longleftrightarrow> distinct (xs @ ys)"
  by (induction xs arbitrary: ys) auto

lemma boot_bio_bufs: "bufs (boot_bio D z) = replicate NBUF boot_buf"
  by (simp add: boot_bio_def binit_def boot_buf_def)

lemma boot_bio_quiet:
  assumes "\<forall>n<FSSIZE. length (D n) = BSIZE"
  shows "quiet (boot_bio D z)" and "blk (boot_bio D z) = D" and "pinned (boot_bio D z) = {}" and "locks (boot_bio D z) = {}"
proof -
  let ?s = "boot_bio D z"
  have b: "buf_ok E boot_buf" "\<not> dirty boot_buf" "\<not> lockd boot_buf" "dev boot_buf \<noteq> 1" for E
    by (simp_all add: buf_ok_def boot_buf_def initsleeplock_def BSIZE_def)
  show p: "pinned ?s = {}" "locks ?s = {}" using b by (simp_all add: pinned_def locks_def bset_def boot_bio_bufs)
  show "blk ?s = D"
    using b lblk_disk [of "bufs ?s"] by (auto simp: fun_eq_iff blk_def holds_def boot_bio_bufs) (simp add: boot_bio_def binit_def)
  have "cache_ok ?s"
    using assms b(1) unfolding cache_ok_def boot_bio_bufs io_ready_def uniq_def
    using b(4) by (auto simp: boot_bio_def binit_def set_fold_Cons)
  with p show "quiet ?s" by (simp add: quiet_def NBUF_def MAXOPBLOCKS_def)
qed

section \<open>Properties\<close>

text \<open>C19: the buffer cache refines a plain array of blocks. From any quiet state, any sequence of block writes through the
  cache succeeds, and a read that follows returns exactly what the sequence leaves in the array, whatever buffers were
  recycled in between.\<close>

theorem cache_refines_disk:
  assumes "quiet s" and "\<forall>(n, d)\<in>set ws. n < FSSIZE \<and> length d = BSIZE" and "n < FSSIZE"
  shows "\<exists>t u. write_all write_block ws s = Some t \<and> read_block n t = Some (dapply ws (blk s) n, u) \<and> quiet u"
  using assms by (rule bcache.read_after_writes)

theorem cache_refines_disk_witness:
  "\<exists>t u. write_all write_block [(5, replicate 512 1), (6, replicate 512 2), (5, replicate 512 3)] (boot_bio (\<lambda>_. replicate 512 0) ()) = Some t \<and>
    read_block 5 t = Some (replicate 512 3, u)"
  using cache_refines_disk [OF boot_bio_quiet(1), of "\<lambda>_. replicate 512 0"
    "[(5, replicate 512 1), (6, replicate 512 2), (5, replicate 512 3)]" 5 "()"]
  by (auto simp: BSIZE_def FSSIZE_def dapply_def)



end
