(* ===== verification/LogInv.thy ===== *)
theory LogInv
  imports Log BioInv
begin

text \<open>
  The routines of \<^verbatim>\<open>log.c\<close> as sequences of block writes: \<open>did s t ws\<close> says that the blocks \<open>ws\<close> of the disk were written between \<open>s\<close>
  and \<open>t\<close>. The loops, the header, recovery and commit are described this way; a commit is a sequence of four phases.
\<close>

section \<open>Sequences of block writes\<close>

text \<open>Between \<open>s\<close> and \<open>t\<close> the blocks \<open>ws\<close> of the disk have been written, in this order, and no buffer is left locked.\<close>

definition did :: "'z bio_scheme \<Rightarrow> 'z bio_scheme \<Rightarrow> (u32 \<times> u8 list) list \<Rightarrow> bool" where
  "did s t ws \<longleftrightarrow> quiet t \<and> cache_frame s t \<and> disk t = (disk s)(1 := dapply ws (disk s 1)) \<and>
     dtrace t = dtrace s @ map (Pair 1) ws \<and> blk t = dapply ws (blk s) \<and> pinned t = pinned s - fst ` set ws"

lemma dapply_simps [simp]:
  "dapply [] D = D" "dapply ((n, x) # ws) D = dapply ws (D(n := x))" "dapply (ws @ vs) D = dapply vs (dapply ws D)"
  by (simp_all add: dapply_def)

lemma dapply_other: "n \<notin> fst ` set ws \<Longrightarrow> dapply ws D n = D n"
  by (induction ws arbitrary: D) auto

lemma did_refl: "quiet s \<Longrightarrow> did s s []"
  by (simp add: did_def)

lemma did_trans: "did s t ws \<Longrightarrow> did t u vs \<Longrightarrow> did s u (ws @ vs)"
  unfolding did_def by (auto intro: cache_frame_trans)

lemma did_quiet: "did s t ws \<Longrightarrow> quiet t"
  by (simp add: did_def)

lemma handle_inj: "handle s i a \<Longrightarrow> handle s j b \<Longrightarrow> a \<noteq> b \<Longrightarrow> i \<noteq> j"
  by (auto simp: handle_def holds_def)

lemma length_blk:
  assumes "quiet s" and "n < FSSIZE"
  shows "length (blk s n) = BSIZE"
proof -
  from assms obtain i t where "after_bread s n i t" using bread_spec [of s n] by (auto simp: quiet_def)
  then show ?thesis using cache_ok_handle [of t i n] by (auto simp: after_bread_def buf_ok_def)
qed

lemma two_breads:
  assumes q: "quiet s" and a: "a < FSSIZE" and b: "b < FSSIZE" and ab: "a \<noteq> b" and room: "b \<in> pinned s \<or> card (pinned s) + 1 < NBUF"
  shows "\<exists>i s1 j s2. bread 1 a s = Some (i, s1) \<and> cache_frame s s1 \<and> bread 1 b s1 = Some (j, s2) \<and> cache_frame s s2 \<and> cache_ok s2 \<and>
    handle s2 i a \<and> handle s2 j b \<and> data (bufs s2 ! i) = blk s a \<and> data (bufs s2 ! j) = blk s b \<and> blk s2 = blk s \<and>
    pinned s2 = pinned s \<and> locks s2 = {a, b} \<and> disk s2 = disk s \<and> dtrace s2 = dtrace s"
proof -
  obtain i s1 where s1: "bread 1 a s = Some (i, s1)" "after_bread s a i s1"
    using q a bread_spec [of s a] by (auto simp: quiet_def)
  have l: "locks s1 = {a}" "pinned s1 = pinned s" "cache_ok s1" using s1(2) q by (simp_all add: after_bread_def quiet_def)
  have "card (pinned s1 \<union> locks s1) \<le> card (pinned s) + 1" unfolding l by (simp add: card_insert_if)
  then have "b \<in> pinned s1 \<or> card (pinned s1 \<union> locks s1) < NBUF" using room unfolding l(2) by (meson le_less_trans)
  then obtain j s2 where s2: "bread 1 b s1 = Some (j, s2)" "after_bread s1 b j s2"
    using l b ab bread_spec [of s1 b] by auto
  show ?thesis using s1 s2 l
    by (intro exI [of _ i] exI [of _ s1] exI [of _ j] exI [of _ s2]) (auto simp: after_bread_def intro: cache_frame_trans)
qed

lemma write_release:
  assumes ok: "cache_ok s" and hx: "handle s i x" and hy: "handle s j y" and xy: "x \<noteq> y" and l: "locks s = {x, y}"
    and d: "length d = BSIZE" and x: "x < FSSIZE" and y: "y \<in> pinned s \<or> blk s y = disk s 1 y" and room: "card (pinned s) < NBUF"
  shows "\<exists>u v t. bwrite i (set_data i d s) = Some u \<and> brelse j u = Some v \<and> brelse i v = Some t \<and> did s t [(x, d)]"
proof -
  note v = set_data_spec [OF ok hx d]
  let ?s = "set_data i d s"
  have ij: "i \<noteq> j" by (rule handle_inj [OF hx hy xy])
  have v1: "cache_ok ?s" "handle ?s j y" using v(1) hy ij by (auto simp: on_handle_def)
  obtain u where u: "bwrite i ?s = Some u" "on_handle ?s i u" "handle u i x" "blk u = blk ?s" "pinned u = pinned ?s - {x}"
    "locks u = locks ?s" "disk u = (disk ?s)(1 := (disk ?s 1)(x := d))" "dtrace u = dtrace ?s @ [(1, x, d)]"
    using bwrite_spec [OF v1(1) v(2) x] v(3) by auto
  have u1: "cache_ok u" "handle u j y" using u(2) v1(2) ij by (auto simp: on_handle_def)
  have "y \<in> pinned u \<or> blk u y = disk u 1 y" using y xy u(4,5,7) v(4,5,7) by auto
  from brelse_spec [OF u1 this] obtain w where w: "brelse j u = Some w" "on_handle u j w" "blk w = blk u" "pinned w = pinned u"
    "locks w = locks u - {y}" "disk w = disk u" "dtrace w = dtrace u" by blast
  have w1: "cache_ok w" "handle w i x" using w(2) u(3) ij by (auto simp: on_handle_def)
  have "blk w x = disk w 1 x" using w(3,6) u(4,7) v(4) by simp
  from brelse_spec [OF w1 disjI2 [OF this]] obtain t where t: "brelse i w = Some t" "on_handle w i t" "blk t = blk w" "pinned t = pinned w"
    "locks t = locks w - {x}" "disk t = disk w" "dtrace t = dtrace w" by blast
  have "cache_frame s ?s" "cache_frame ?s u" "cache_frame u w" "cache_frame w t" using v(1) u(2) w(2) t(2) by (simp_all add: on_handle_def)
  then have "cache_frame s t" by (rule cache_frame_trans [OF cache_frame_trans [OF cache_frame_trans]])
  moreover have "card (pinned s - {x}) < NBUF" using room card_mono [of "pinned s" "pinned s - {x}"] by (simp add: pinned_def)
  moreover have "cache_ok t" using t(2) by (simp add: on_handle_def)
  ultimately have "did s t [(x, d)]" using v u w t l xy by (auto simp: did_def quiet_def)
  with u(1) w(1) t(1) show ?thesis by blast
qed

lemma after_bread_release:
  assumes q: "quiet s" and u: "after_bread s n i u"
  shows "\<exists>t. brelse i u = Some t \<and> did s t []"
proof -
  have h: "handle u i n" "n \<in> pinned u \<or> blk u n = disk u 1 n" "cache_ok u"
    using coherent [of s n] q u by (auto simp: after_bread_def quiet_def)
  then obtain t where t: "brelse i u = Some t" "on_handle u i t" "blk t = blk u" "pinned t = pinned u" "locks t = locks u - {n}"
    "disk t = disk u" "dtrace t = dtrace u"
    using brelse_spec by blast
  with u q show ?thesis by (auto simp: after_bread_def on_handle_def quiet_def did_def intro: cache_frame_trans)
qed

section \<open>The loops of the log\<close>

text \<open>The writes of \<open>write_log\<close> and of \<open>install_trans\<close>: the blocks \<open>bs\<close> go to consecutive log blocks from \<open>a\<close> on, and back.\<close>

fun log_copies :: "u32 \<Rightarrow> (u32 \<Rightarrow> u8 list) \<Rightarrow> u32 list \<Rightarrow> (u32 \<times> u8 list) list" where
  "log_copies a v [] = []"
| "log_copies a v (b # bs) = (a, v b) # log_copies (a + 1) v bs"

fun home_copies :: "u32 \<Rightarrow> (u32 \<Rightarrow> u8 list) \<Rightarrow> u32 list \<Rightarrow> (u32 \<times> u8 list) list" where
  "home_copies a v [] = []"
| "home_copies a v (b # bs) = (b, v a) # home_copies (a + 1) v bs"

text \<open>The log blocks from \<open>a\<close> on are on the disk and apart from the home blocks \<open>bs\<close>.\<close>

definition apart :: "u32 \<Rightarrow> u32 list \<Rightarrow> bool" where
  "apart a bs \<longleftrightarrow> (\<forall>b\<in>set bs. b < FSSIZE) \<and> (\<forall>k<length bs. a + of_nat k < FSSIZE \<and> a + of_nat k \<notin> set bs)"

lemma apart_Cons: "apart a (b # bs) \<Longrightarrow> a < FSSIZE \<and> b < FSSIZE \<and> a \<noteq> b \<and> a \<notin> set bs \<and> apart (a + 1) bs"
proof (intro conjI)
  assume p: "apart a (b # bs)"
  then show "a < FSSIZE" "b < FSSIZE" "a \<noteq> b" "a \<notin> set bs"
    unfolding apart_def using spec [where x = 0 and P = "\<lambda>k. k < length (b # bs) \<longrightarrow> a + of_nat k < FSSIZE \<and> a + of_nat k \<notin> set (b # bs)"] by auto
  have "a + 1 + of_nat k < FSSIZE \<and> a + 1 + of_nat k \<notin> set bs" if "k < length bs" for k
    using p that unfolding apart_def
    by (auto dest!: spec [where x = "Suc k"] simp: ac_simps)
  with p show "apart (a + 1) bs" by (simp add: apart_def)
qed

lemma log_copies_cong: "(\<And>b. b \<in> set bs \<Longrightarrow> v b = w b) \<Longrightarrow> log_copies a v bs = log_copies a w bs"
  by (induction bs arbitrary: a) auto

lemma home_copies_cong: "(\<And>k. k < length bs \<Longrightarrow> v (a + of_nat k) = w (a + of_nat k)) \<Longrightarrow> home_copies a v bs = home_copies a w bs"
proof (induction bs arbitrary: a)
  case (Cons b bs)
  have "v (a + 1 + of_nat k) = w (a + 1 + of_nat k)" if "k < length bs" for k
    using Cons.prems [of "Suc k"] that by (simp add: ac_simps)
  then show ?case using Cons.IH [of "a + 1"] Cons.prems [of 0] by simp
qed simp

lemma log_frame:
  assumes "cache_frame s t"
  shows "log_start t = log_start s" "log_size t = log_size s" "outstanding t = outstanding s" "committing t = committing s"
    "log_dev t = log_dev s" "lh t = lh s" "held t = held s"
  using assms by (auto simp: cache_frame_def)

lemma write_log_from_spec:
  "quiet s \<Longrightarrow> log_dev s = 1 \<Longrightarrow> a = log_start s + tail + 1 \<Longrightarrow> apart a bs \<Longrightarrow> set bs \<subseteq> pinned s \<Longrightarrow>
   \<exists>t. write_log_from tail bs s = Some t \<and> did s t (log_copies a (blk s) bs)"
proof (induction bs arbitrary: a tail s)
  case Nil
  then show ?case by (simp add: did_refl)
next
  case (Cons b bs)
  note ap = apart_Cons [OF Cons.prems(4)]
  obtain i s1 j s2 where r: "bread 1 a s = Some (i, s1)" "cache_frame s s1" "bread 1 b s1 = Some (j, s2)" "cache_frame s s2" "cache_ok s2"
    "handle s2 i a" "handle s2 j b" "data (bufs s2 ! j) = blk s b" "blk s2 = blk s" "pinned s2 = pinned s" "locks s2 = {a, b}"
    "disk s2 = disk s" "dtrace s2 = dtrace s"
    using two_breads [of s a b] Cons.prems(1,5) ap by auto
  have "b \<in> pinned s2" "card (pinned s2) < NBUF" using Cons.prems(1,5) r(10) by (auto simp: quiet_def)
  then obtain u v t where t: "bwrite i (set_data i (blk s b) s2) = Some u" "brelse j u = Some v" "brelse i v = Some t" "did s2 t [(a, blk s b)]"
    using write_release [OF r(5,6,7) _ r(11)] ap length_blk [OF Cons.prems(1), of b] by blast
  have d: "did s t [(a, blk s b)]" using t(4) r(4,9,10,12,13) by (auto simp: did_def intro: cache_frame_trans)
  have f: "log_dev s1 = 1" "log_dev t = 1" "a + 1 = log_start t + (tail + 1) + 1"
    using log_frame [OF r(2)] log_frame [of s t] d Cons.prems(2,3) by (simp_all add: did_def)
  have p: "set bs \<subseteq> pinned t" "blk t = (blk s)(a := blk s b)" using d Cons.prems(5) ap by (auto simp: did_def)
  obtain t' where t': "write_log_from (tail + 1) bs t = Some t'" "did t t' (log_copies (a + 1) (blk t) bs)"
    using Cons.IH [OF did_quiet [OF d] f(2,3) _ p(1)] ap by blast
  have "log_copies (a + 1) (blk t) bs = log_copies (a + 1) (blk s) bs"
    by (rule log_copies_cong) (use p(2) ap in auto)
  then have "did s t' (log_copies a (blk s) (b # bs))" using did_trans [OF d t'(2)] by simp
  then show ?case using r(1,3,8) t(1,2,3) t'(1) f(1) Cons.prems(2,3) by (intro exI [of _ t']) (simp add: Let_def)
qed

lemma install_trans_from_spec:
  "quiet s \<Longrightarrow> log_dev s = 1 \<Longrightarrow> a = log_start s + tail + 1 \<Longrightarrow> apart a bs \<Longrightarrow>
   card (pinned s) + 1 < NBUF \<or> distinct bs \<and> set bs \<subseteq> pinned s \<Longrightarrow> \<forall>k<length bs. a + of_nat k \<notin> pinned s \<Longrightarrow>
   \<exists>t. install_trans_from tail bs s = Some t \<and> did s t (home_copies a (blk s) bs)"
proof (induction bs arbitrary: a tail s)
  case Nil
  then show ?case by (simp add: did_refl)
next
  case (Cons b bs)
  note ap = apart_Cons [OF Cons.prems(4)]
  have ap': "\<forall>k<length bs. a + 1 + of_nat k \<notin> set (b # bs) \<union> pinned s"
  proof (intro allI impI)
    fix k assume "k < length bs"
    then show "a + 1 + of_nat k \<notin> set (b # bs) \<union> pinned s"
      using Cons.prems(4) Cons.prems(6) [rule_format, of "Suc k"] unfolding apart_def
      by (auto dest!: spec [where x = "Suc k"] simp: ac_simps)
  qed
  have "b \<in> pinned s \<or> card (pinned s) + 1 < NBUF" using Cons.prems(5) by auto
  then obtain i s1 j s2 where r: "bread 1 a s = Some (i, s1)" "cache_frame s s1" "bread 1 b s1 = Some (j, s2)" "cache_frame s s2" "cache_ok s2"
    "handle s2 i a" "handle s2 j b" "data (bufs s2 ! i) = blk s a" "blk s2 = blk s" "pinned s2 = pinned s" "locks s2 = {b, a}"
    "disk s2 = disk s" "dtrace s2 = dtrace s"
    using two_breads [of s a b] Cons.prems(1) ap by (auto simp: insert_commute)
  have "a \<notin> pinned s" using Cons.prems(6) by (auto dest: spec [where x = 0])
  then have "blk s2 a = disk s2 1 a" "card (pinned s2) < NBUF" using coherent [of s a] Cons.prems(1) r(9,10,12) by (auto simp: quiet_def)
  then obtain u v t where t: "bwrite j (set_data j (blk s a) s2) = Some u" "brelse i u = Some v" "brelse j v = Some t" "did s2 t [(b, blk s a)]"
    using write_release [OF r(5,7,6) _ r(11)] ap length_blk [OF Cons.prems(1), of a] by blast
  have d: "did s t [(b, blk s a)]" using t(4) r(4,9,10,12,13) by (auto simp: did_def intro: cache_frame_trans)
  have f: "log_dev s1 = 1" "log_dev t = 1" "a + 1 = log_start t + (tail + 1) + 1"
    using log_frame [OF r(2)] log_frame [of s t] d Cons.prems(2,3) by (simp_all add: did_def)
  have p: "pinned t = pinned s - {b}" "blk t = (blk s)(b := blk s a)" using d by (auto simp: did_def)
  have le: "card (pinned t) \<le> card (pinned s)" using p(1) by (simp add: pinned_def card_mono)
  from Cons.prems(5) have room: "card (pinned t) + 1 < NBUF \<or> distinct bs \<and> set bs \<subseteq> pinned t"
  proof
    assume "card (pinned s) + 1 < NBUF"
    with le show ?thesis by (intro disjI1) linarith
  next
    assume "distinct (b # bs) \<and> set (b # bs) \<subseteq> pinned s"
    with p(1) show ?thesis by (intro disjI2) auto
  qed
  obtain t' where t': "install_trans_from (tail + 1) bs t = Some t'" "did t t' (home_copies (a + 1) (blk t) bs)"
    using Cons.IH [OF did_quiet [OF d] f(2,3) _ room] ap ap' p(1) by blast
  have "home_copies (a + 1) (blk t) bs = home_copies (a + 1) (blk s) bs"
    by (rule home_copies_cong) (use p(2) ap' in auto)
  then have "did s t' (home_copies a (blk s) (b # bs))" using did_trans [OF d t'(2)] by simp
  then show ?case using r(1,3,8) t(1,2,3) t'(1) f(1) Cons.prems(2,3) by (intro exI [of _ t']) (simp add: Let_def)
qed

section \<open>The header block\<close>

lemma length_head_bytes [simp]: "length (head_bytes bl bs) = length bs"
  by (simp add: head_bytes_def)

lemma head_blocks_bytes:
  assumes n: "length bl \<le> 30" and l: "length bs = BSIZE"
  shows "head_blocks (head_bytes bl bs) = Some bl"
proof -
  have "get32 (head_bytes bl bs) 0 = of_nat (length bl)"
    using l by (simp add: head_bytes_def get32_put_array_other BSIZE_def)
  moreover have "sint (of_nat (length bl) :: u32) = int (length bl)"
    using n by (simp add: signed_of_nat signed_take_bit_int_eq_self)
  moreover have "get_array (head_bytes bl bs) 4 (length bl) = bl"
    using n l by (simp add: head_bytes_def get_put_array BSIZE_def)
  ultimately show ?thesis using n by (simp add: head_blocks_def LOGSIZE_def MAXOPBLOCKS_def Let_def)
qed

lemma lh_update [simp]:
  "cache_ok (s\<lparr>lh := x\<rparr>) = cache_ok s" "quiet (s\<lparr>lh := x\<rparr>) = quiet s" "blk (s\<lparr>lh := x\<rparr>) = blk s" "pinned (s\<lparr>lh := x\<rparr>) = pinned s"
  "locks (s\<lparr>lh := x\<rparr>) = locks s" "handle (s\<lparr>lh := x\<rparr>) = handle s"
  by (simp_all add: fun_eq_iff quiet_def cache_ok_def io_ready_def blk_def pinned_def locks_def handle_def)

lemma frame_lh: "cache_frame s t \<Longrightarrow> cache_frame (s\<lparr>lh := x\<rparr>) (t\<lparr>lh := x\<rparr>)"
proof -
  assume "cache_frame s t"
  then obtain ps bs l d w where w: "woken (procs s) ps" and t: "t = s\<lparr>procs := ps, bufs := bs, lru := l, disk := d, dtrace := w\<rparr>"
    by (auto simp: cache_frame_def)
  have "t\<lparr>lh := x\<rparr> = (s\<lparr>lh := x\<rparr>)\<lparr>procs := ps, bufs := bs, lru := l, disk := d, dtrace := w\<rparr>" unfolding t by simp
  then show ?thesis using cache_frameI [of "s\<lparr>lh := x\<rparr>" ps] w by simp
qed

lemma did_lh: "did s t ws \<Longrightarrow> did (s\<lparr>lh := x\<rparr>) (t\<lparr>lh := x\<rparr>) ws"
  by (simp add: did_def frame_lh)

lemma after_bread_lh: "after_bread s n i t \<Longrightarrow> after_bread (s\<lparr>lh := x\<rparr>) n i (t\<lparr>lh := x\<rparr>)"
  by (simp add: after_bread_def frame_lh)

lemma read_head_spec:
  assumes q: "quiet s" and l: "log_dev s = 1" "log_start s < FSSIZE" and h: "head_blocks (blk s (log_start s)) = Some bl"
  shows "\<exists>t. read_head s = Some t \<and> did (s\<lparr>lh := bl\<rparr>) t []"
proof -
  obtain i u where u: "bread 1 (log_start s) s = Some (i, u)" "after_bread s (log_start s) i u"
    using bread_spec [of s "log_start s"] q l by (auto simp: quiet_def)
  obtain t where "brelse i (u\<lparr>lh := bl\<rparr>) = Some t" "did (s\<lparr>lh := bl\<rparr>) t []"
    using after_bread_release [OF _ after_bread_lh [OF u(2)]] q by auto
  with u l h show ?thesis by (simp add: read_head_def after_bread_def)
qed

lemma write_head_spec:
  assumes q: "quiet s" and l: "log_dev s = 1" "log_start s < FSSIZE"
  shows "\<exists>t. write_head s = Some t \<and> did s t [(log_start s, head_bytes (lh s) (blk s (log_start s)))]"
proof -
  let ?d = "head_bytes (lh s) (blk s (log_start s))"
  obtain i u where u: "bread 1 (log_start s) s = Some (i, u)" "after_bread s (log_start s) i u"
    using bread_spec [of s "log_start s"] q l by (auto simp: quiet_def)
  then have "lh u = lh s" using log_frame(6) by (auto simp: after_bread_def)
  with u l have w: "write_head s = write_block (log_start s) ?d s"
    by (simp add: write_head_def write_block_def after_bread_def)
  have "length ?d = BSIZE" using length_blk [OF q l(2)] by simp
  from write_block_spec [OF q l(2) this] show ?thesis unfolding w did_def by auto
qed

section \<open>Recovery and commit\<close>

text \<open>The log is on the disk and the home blocks are outside of it.\<close>

definition log_ok :: "'z log_scheme \<Rightarrow> u32 list \<Rightarrow> bool" where
  "log_ok s bl \<longleftrightarrow> log_dev s = 1 \<and> log_start s < FSSIZE \<and> log_start s \<notin> set bl \<and> apart (log_start s + 1) bl"

lemma home_copies_fst: "fst ` set (home_copies a v bl) = set bl"
  by (induction bl arbitrary: a) auto

lemma log_copies_fst: "fst ` set (log_copies a v bl) = {a + of_nat k |k. k < length bl}"
proof (induction bl arbitrary: a)
  case (Cons b bl)
  have "{a + of_nat k |k. k < length (b # bl)} = insert a {a + 1 + of_nat k |k. k < length bl}" (is "?l = ?r")
  proof
    show "?l \<subseteq> ?r" by (auto simp: less_Suc_eq_0_disj ac_simps)
    have "a + 0 \<in> ?l" by (intro CollectI exI [of _ 0]) simp
    moreover have "a + 1 + of_nat k \<in> ?l" if "k < length bl" for k
      using that by (intro CollectI exI [of _ "Suc k"]) (simp add: ac_simps)
    ultimately show "?r \<subseteq> ?l" by auto
  qed
  with Cons show ?case by simp
qed simp

lemma recover_spec:
  assumes q: "quiet s" "pinned s = {}" and l: "log_ok s bl" and h: "head_blocks (blk s (log_start s)) = Some bl"
  defines "ws \<equiv> home_copies (log_start s + 1) (blk s) bl @ [(log_start s, head_bytes [] (blk s (log_start s)))]"
  shows "\<exists>t. recover_from_log s = Some t \<and> did (s\<lparr>lh := []\<rparr>) t ws"
proof -
  let ?st = "log_start s"
  have l': "log_dev s = 1" "?st < FSSIZE" "?st \<notin> set bl" "apart (?st + 1) bl" using l by (simp_all add: log_ok_def)
  obtain t1 where t1: "read_head s = Some t1" "did (s\<lparr>lh := bl\<rparr>) t1 []" using read_head_spec [OF q(1) l'(1,2) h] by blast
  have f: "log_dev t1 = 1" "log_start t1 = ?st" "lh t1 = bl" "blk t1 = blk s" "pinned t1 = {}" "quiet t1"
    using t1(2) log_frame [of "s\<lparr>lh := bl\<rparr>" t1] l'(1) q(2) by (simp_all add: did_def)
  have "card (pinned t1) + 1 < NBUF" using f(5) by (simp add: NBUF_def)
  then obtain t2 where t2: "install_trans_from 0 bl t1 = Some t2" "did t1 t2 (home_copies (?st + 1) (blk s) bl)"
    using install_trans_from_spec [OF f(6,1), of "?st + 1" 0 bl] f l'(4) by auto
  have d2: "did (s\<lparr>lh := []\<rparr>) (t2\<lparr>lh := []\<rparr>) (home_copies (?st + 1) (blk s) bl)"
    using did_lh [OF did_trans [OF t1(2) t2(2)], of "[]"] by simp
  have g: "log_dev t2 = 1" "log_start t2 = ?st" using log_frame [of t1 t2] t2(2) f by (simp_all add: did_def)
  have "blk t2 ?st = blk s ?st"
    using t2(2) f(4) l'(3) by (simp add: did_def dapply_other home_copies_fst)
  then obtain t3 where t3: "write_head (t2\<lparr>lh := []\<rparr>) = Some t3" "did (t2\<lparr>lh := []\<rparr>) t3 [(?st, head_bytes [] (blk s ?st))]"
    using write_head_spec [of "t2\<lparr>lh := []\<rparr>"] g l'(2) did_quiet [OF t2(2)] by auto
  have "did (s\<lparr>lh := []\<rparr>) t3 ws" unfolding ws_def by (rule did_trans [OF d2 t3(2)])
  then show ?thesis using t1(1) t2(1) t3(1) f(3) by (simp add: recover_from_log_def install_trans_def)
qed

text \<open>The four phases of a commit.\<close>

definition commit_writes :: "u32 \<Rightarrow> u32 list \<Rightarrow> (u32 \<Rightarrow> u8 list) \<Rightarrow> (u32 \<times> u8 list) list" where
  "commit_writes st bl v = log_copies (st + 1) v bl @ [(st, head_bytes bl (v st))] @ map (\<lambda>b. (b, v b)) bl @
     [(st, head_bytes [] (head_bytes bl (v st)))]"

text \<open>The log blocks are different from each other and from the header.\<close>

lemma log_slot_inj:
  assumes "j < 31" "k < 31" "st + of_nat j = (st + of_nat k :: u32)"
  shows "j = k"
proof -
  have "unat (of_nat j :: u32) = unat (of_nat k :: u32)" using assms(3) by simp
  then show ?thesis using assms(1,2) by (simp add: unat_of_nat take_bit_nat_eq_self)
qed

lemma header_not_slot:
  assumes "length bl \<le> 30"
  shows "st \<notin> fst ` set (log_copies (st + 1) v bl)"
proof
  assume "st \<in> fst ` set (log_copies (st + 1) v bl)"
  then obtain k where "k < length bl" "st + of_nat 0 = st + of_nat (Suc k)" by (auto simp: log_copies_fst ac_simps)
  then show False using log_slot_inj [of 0 "Suc k" st] assms by simp
qed

lemma log_copies_slot:
  "length bl \<le> 30 \<Longrightarrow> k < length bl \<Longrightarrow> dapply (log_copies a v bl) D (a + of_nat k) = v (bl ! k)"
proof (induction bl arbitrary: a k D)
  case (Cons b bl)
  show ?case
  proof (cases k)
    case 0
    have "a \<notin> fst ` set (log_copies (a + 1) v bl)" using header_not_slot Cons.prems(1) by simp
    with 0 show ?thesis by (simp add: dapply_other)
  next
    case (Suc j)
    then show ?thesis using Cons.IH [of j "a + 1" "D(a := v b)"] Cons.prems by (simp add: ac_simps fun_upd_def)
  qed
qed simp

text \<open>Once the log has been written, installing it puts the logged contents at home.\<close>

lemma home_copies_logged:
  "(\<And>k. k < length bl \<Longrightarrow> w (a + of_nat k) = v (bl ! k)) \<Longrightarrow> home_copies a w bl = map (\<lambda>b. (b, v b)) bl"
proof (induction bl arbitrary: a)
  case (Cons b bl)
  have "w (a + 1 + of_nat k) = v (bl ! k)" if "k < length bl" for k
    using Cons.prems [of "Suc k"] that by (simp add: ac_simps)
  then show ?case using Cons.IH [of "a + 1"] Cons.prems [of 0] by simp
qed simp

lemma dapply_home: "dapply (map (\<lambda>b. (b, v b)) bl) D n = (if n \<in> set bl then v n else D n)"
  by (induction bl arbitrary: D) auto

lemma logged_slots:
  assumes "length bl \<le> 30" and "k < length bl"
  shows "dapply (log_copies (st + 1) v bl @ [(st, x)]) D (st + 1 + of_nat k) = v (bl ! k)"
proof -
  have "st + of_nat (Suc k) \<noteq> st + of_nat 0" using log_slot_inj [of "Suc k" 0 st] assms by auto
  then show ?thesis using log_copies_slot [OF assms, of "st + 1" v D] by (simp add: ac_simps)
qed

lemma slot_not_home: "log_ok s bl \<Longrightarrow> b \<in> set bl \<Longrightarrow> b \<notin> fst ` set (log_copies (log_start s + 1) v bl)"
  by (auto simp: log_ok_def apart_def log_copies_fst)

lemma commit_spec:
  assumes q: "quiet s" and p: "pinned s = set (lh s)" "distinct (lh s)" and l: "log_ok s (lh s)" and ne: "lh s \<noteq> []"
  shows "\<exists>t. commit s = Some t \<and> did (s\<lparr>lh := []\<rparr>) t (commit_writes (log_start s) (lh s) (blk s))"
proof -
  let ?st = "log_start s" let ?bl = "lh s" let ?v = "blk s"
  have l': "log_dev s = 1" "?st < FSSIZE" "?st \<notin> set ?bl" "apart (?st + 1) ?bl" using l by (simp_all add: log_ok_def)
  have n: "length ?bl \<le> 30" using q p by (simp add: quiet_def distinct_card NBUF_def)
  let ?w1 = "log_copies (?st + 1) ?v ?bl" and ?w2 = "[(?st, head_bytes ?bl (?v ?st))]"
  let ?w3 = "map (\<lambda>b. (b, ?v b)) ?bl" and ?w4 = "[(?st, head_bytes [] (head_bytes ?bl (?v ?st)))]"
  obtain t1 where t1: "write_log s = Some t1" "did s t1 ?w1"
    using write_log_from_spec [OF q l'(1) _ l'(4), of 0] p(1) by (auto simp: write_log_def)
  have f1: "log_dev t1 = 1" "log_start t1 = ?st" "lh t1 = ?bl" "blk t1 ?st = ?v ?st"
    using log_frame [of s t1] t1(2) l'(1) header_not_slot [OF n] by (simp_all add: did_def dapply_other)
  obtain t2 where t2: "write_head t1 = Some t2" "did t1 t2 ?w2"
    using write_head_spec [OF did_quiet [OF t1(2)]] f1 l'(2) by auto
  note d2 = did_trans [OF t1(2) t2(2)]
  have f2: "log_dev t2 = 1" "log_start t2 = ?st" "lh t2 = ?bl" "pinned t2 = set ?bl" "blk t2 = dapply (?w1 @ ?w2) ?v"
    using log_frame [of s t2] d2 l'(1,3) slot_not_home [OF l] p(1) by (auto simp: did_def)
  have slots: "home_copies (?st + 1) (blk t2) ?bl = ?w3"
    unfolding f2(5) by (rule home_copies_logged) (rule logged_slots [OF n])
  have "\<forall>k<length ?bl. ?st + 1 + of_nat k \<notin> pinned t2" using l'(4) f2(4) by (auto simp: apart_def)
  then obtain t3 where t3: "install_trans t2 = Some t3" "did t2 t3 ?w3"
    using install_trans_from_spec [OF did_quiet [OF d2] f2(1), of "?st + 1" 0 ?bl] f2(2,3,4) l'(4) p(2)
    unfolding slots install_trans_def by auto
  note d3 = did_trans [OF d2 t3(2)]
  have f3: "log_dev t3 = 1" "log_start t3 = ?st" "blk t3 ?st = head_bytes ?bl (?v ?st)"
    using log_frame [of s t3] d3 l'(1,3) by (simp_all add: did_def dapply_home)
  obtain t4 where t4: "write_head (t3\<lparr>lh := []\<rparr>) = Some t4" "did (t3\<lparr>lh := []\<rparr>) t4 ?w4"
    using write_head_spec [of "t3\<lparr>lh := []\<rparr>"] f3 l'(2) did_quiet [OF d3] by auto
  have "did (s\<lparr>lh := []\<rparr>) t4 (commit_writes ?st ?bl ?v)"
    using did_trans [OF did_lh [OF d3, of "[]"] t4(2)] by (simp add: commit_writes_def)
  then show ?thesis using ne t1(1) t2(1) t3(1) t4(1) by (simp add: commit_def)
qed

end
