(* ===== verification/LogCrash.thy ===== *)
theory LogCrash
  imports LogInv
begin

text \<open>
  Transactions are atomic. A crash leaves a prefix of the block writes of a commit on the disk; recovery after a crash at
  any point gives either all of the transaction or nothing of it.
\<close>

section \<open>Crashes\<close>

text \<open>The blocks of the log, with its header.\<close>

definition log_area :: "u32 \<Rightarrow> u32 set" where
  "log_area st = {st + of_nat k |k. k \<le> 30}"

lemma log_area_head [simp]: "st \<in> log_area st"
  by (auto simp: log_area_def intro: exI [of _ 0])

lemma log_area_slots: "length bl \<le> 30 \<Longrightarrow> fst ` set (log_copies (st + 1) v bl) \<subseteq> log_area st"
proof
  fix n assume "length bl \<le> 30" "n \<in> fst ` set (log_copies (st + 1) v bl)"
  then obtain k where "k < length bl" "n = st + of_nat (Suc k)" "length bl \<le> 30" by (auto simp: log_copies_fst ac_simps)
  then show "n \<in> log_area st" unfolding log_area_def by (intro CollectI exI [of _ "Suc k"] conjI) simp_all
qed

lemma phases:
  assumes "A @ [x] @ B @ [y] = ws @ vs"
  shows "(\<exists>c. A = ws @ c) \<and> vs \<noteq> [] \<or> (\<exists>c d. ws = A @ [x] @ c \<and> B = c @ d) \<or> ws = A @ [x] @ B @ [y]"
  using assms by (auto simp: append_eq_append_conv2 append_eq_Cons_conv Cons_eq_append_conv)

lemma idle_coherent: "quiet s \<Longrightarrow> pinned s = {} \<Longrightarrow> blk s = disk s 1"
  using coherent [of s] by (auto simp: quiet_def fun_eq_iff)

text \<open>Recovery of a disk whose header names the blocks \<open>bl\<close>, block by block.\<close>

lemma recover_disk:
  assumes q: "quiet r" "pinned r = {}" and l: "log_ok r bl" and h: "head_blocks (disk r 1 (log_start r)) = Some bl"
    and v: "\<And>k. k < length bl \<Longrightarrow> disk r 1 (log_start r + 1 + of_nat k) = v (bl ! k)"
  shows "\<exists>u. recover_from_log r = Some u \<and> quiet u \<and> pinned u = {} \<and> lh u = [] \<and> head_blocks (disk u 1 (log_start r)) = Some [] \<and>
    (\<forall>m. m \<noteq> log_start r \<longrightarrow> disk u 1 m = (if m \<in> set bl then v m else disk r 1 m))"
proof -
  let ?st = "log_start r"
  note c = idle_coherent [OF q]
  obtain u where u: "recover_from_log r = Some u"
    "did (r\<lparr>lh := []\<rparr>) u (home_copies (?st + 1) (disk r 1) bl @ [(?st, head_bytes [] (disk r 1 ?st))])"
    using recover_spec [OF q l] h unfolding c by blast
  have m: "home_copies (?st + 1) (disk r 1) bl = map (\<lambda>b. (b, v b)) bl" by (rule home_copies_logged) (rule v)
  have "length (disk r 1 ?st) = BSIZE" using q(1) l by (simp add: quiet_def cache_ok_def log_ok_def)
  then have "head_blocks (head_bytes [] (disk r 1 ?st)) = Some []" by (simp add: head_blocks_bytes)
  with u q(2) log_frame [of "r\<lparr>lh := []\<rparr>" u] show ?thesis unfolding m by (auto simp: did_def dapply_home)
qed

text \<open>The disk after the crash, at any point of the commit: the header names nothing or the whole transaction, and
  then the log has all of it.\<close>

lemma crash_disk:
  assumes n: "length bl \<le> 30" and l: "log_ok r bl" and w: "commit_writes (log_start r) bl v = ws @ vs"
    and h: "head_blocks (D (log_start r)) = Some []" and len: "length (v (log_start r)) = BSIZE"
  defines "E \<equiv> dapply ws D"
  shows "head_blocks (E (log_start r)) = Some [] \<and> vs \<noteq> [] \<and> (\<forall>m. m \<notin> log_area (log_start r) \<longrightarrow> E m = D m) \<or>
    head_blocks (E (log_start r)) = Some [] \<and> (\<forall>m. m \<notin> log_area (log_start r) \<longrightarrow> E m = (if m \<in> set bl then v m else D m)) \<or>
    head_blocks (E (log_start r)) = Some bl \<and> (\<forall>k<length bl. E (log_start r + 1 + of_nat k) = v (bl ! k)) \<and>
      (\<forall>m. m \<notin> log_area (log_start r) \<union> set bl \<longrightarrow> E m = D m)"
proof -
  let ?st = "log_start r"
  let ?A = "log_copies (?st + 1) v bl" and ?x = "(?st, head_bytes bl (v ?st))" and ?B = "map (\<lambda>b. (b, v b)) bl"
  let ?y = "(?st, head_bytes [] (head_bytes bl (v ?st)))"
  note a = log_area_slots [OF n, of ?st v] header_not_slot [OF n, of ?st v]
  have w': "?A @ [?x] @ ?B @ [?y] = ws @ vs" using w by (simp add: commit_writes_def)
  have st: "?st \<notin> set bl" using l by (simp add: log_ok_def)
  consider (log) c where "?A = ws @ c" "vs \<noteq> []" | (install) c d where "ws = ?A @ [?x] @ c" "?B = c @ d" | (cleared) "ws = ?A @ [?x] @ ?B @ [?y]"
    using phases [OF w'] by blast
  then show ?thesis
  proof cases
    case log
    then have "fst ` set ws \<subseteq> fst ` set ?A" by auto
    then have "m \<notin> fst ` set ws" if "m = ?st \<or> m \<notin> log_area ?st" for m
      using that a by (metis (no_types, lifting) subsetD)
    then have "E m = D m" if "m = ?st \<or> m \<notin> log_area ?st" for m
      using that unfolding E_def by (intro dapply_other)
    with h log(2) show ?thesis by auto
  next
    case install
    have c: "fst ` set c \<subseteq> set bl" using arg_cong [OF install(2), of set] by force
    have e: "E m = dapply (?A @ [?x]) D m" if "m \<notin> set bl" for m
    proof -
      have "m \<notin> fst ` set c" using c that by blast
      then have "dapply c (dapply (?A @ [?x]) D) m = dapply (?A @ [?x]) D m" by (rule dapply_other)
      then show ?thesis unfolding E_def install(1) by simp
    qed
    have "E (?st + 1 + of_nat k) = v (bl ! k)" if "k < length bl" for k
      using e [of "?st + 1 + of_nat k"] logged_slots [OF n that] l that by (simp add: log_ok_def apart_def)
    moreover have "E m = D m" if "m \<notin> log_area ?st \<union> set bl" for m
      using e [of m] that a(1) dapply_other [of m ?A D] by auto
    moreover have "E ?st = head_bytes bl (v ?st)" using e [OF st] by simp
    ultimately show ?thesis using head_blocks_bytes [OF n len] by auto
  next
    case cleared
    have "E ?st = head_bytes [] (head_bytes bl (v ?st))" unfolding E_def cleared by simp
    moreover have "E m = (if m \<in> set bl then v m else D m)" if "m \<notin> log_area ?st" for m
      using that a(1) dapply_other [of m ?A D] unfolding E_def cleared by (auto simp: dapply_home)
    ultimately show ?thesis using len by (simp add: head_blocks_bytes)
  qed
qed

section \<open>Transactions\<close>

text \<open>A system call that changes blocks: each block is read, changed and given to the log, between \<open>begin_op\<close> and \<open>end_op\<close>.\<close>

definition txn_write :: "u32 \<Rightarrow> u8 list \<Rightarrow> 'z log_scheme \<Rightarrow> 'z log_scheme option" where
  "txn_write n d s = do {
     (i, s) \<leftarrow> bread 1 n s;
     s \<leftarrow> log_write i (set_data i d s);
     brelse i s }"

definition transaction :: "(u32 \<times> u8 list) list \<Rightarrow> 'z log_scheme \<Rightarrow> 'z log_scheme option" where
  "transaction ws s = do {
     s \<leftarrow> begin_op s;
     s \<leftarrow> write_all txn_write ws s;
     end_op s }"

definition absorb :: "u32 \<Rightarrow> u32 list \<Rightarrow> u32 list" where
  "absorb b bl = (if b \<in> set bl then bl else bl @ [b])"

lemma set_absorb [simp]: "set (absorb b bl) = insert b (set bl)"
  by (auto simp: absorb_def)

lemma distinct_absorb: "distinct bl \<Longrightarrow> distinct (absorb b bl)"
  by (simp add: absorb_def)

lemma log_write_absorbs:
  assumes "LLog \<notin> set (held s)" and "int (length (lh s)) < log_size s - 1" and "log_size s \<le> LOGSIZE" and "outstanding s \<ge> 1"
  shows "log_write i s = Some (upd_buf i (\<lambda>c. c\<lparr>dirty := True\<rparr>) (s\<lparr>lh := absorb (blockno (bufs s ! i)) (lh s)\<rparr>))"
proof -
  have e: "s\<lparr>held := LLog # held s, lh := l, bufs := b, held := held s\<rparr> = s\<lparr>lh := l, bufs := b\<rparr>" for l b by (rule log.equality) simp_all
  have f: "s\<lparr>held := LLog # held s, bufs := b, held := held s\<rparr> = s\<lparr>lh := lh s, bufs := b\<rparr>" for b by (rule log.equality) simp_all
  show ?thesis using assms e f by (simp add: log_write_def acquire_def release_def absorb_def Let_def upd_buf_def)
qed

text \<open>What a step of a transaction keeps: the disk, the locks and the parameters of the log.\<close>

definition txn_frame :: "'z log_scheme \<Rightarrow> 'z log_scheme \<Rightarrow> bool" where
  "txn_frame s t \<longleftrightarrow> disk t = disk s \<and> dtrace t = dtrace s \<and> held t = held s \<and> log_start t = log_start s \<and> log_size t = log_size s \<and>
     outstanding t = outstanding s \<and> committing t = committing s \<and> log_dev t = log_dev s"

lemma txn_write_spec:
  assumes q: "quiet s" and n: "n < FSSIZE" "length d = BSIZE" and p: "pinned s = set (lh s)" "distinct (lh s)" "length (lh s) < 29"
    and l: "log_size s = 30" "outstanding s \<ge> 1" "LLog \<notin> set (held s)"
  shows "\<exists>t. txn_write n d s = Some t \<and> quiet t \<and> blk t = (blk s)(n := d) \<and> lh t = absorb n (lh s) \<and>
    pinned t = set (lh t) \<and> txn_frame s t"
proof -
  obtain i u where u: "bread 1 n s = Some (i, u)" "after_bread s n i u"
    using bread_spec [of s n] q n by (auto simp: quiet_def)
  have h: "cache_ok u" "handle u i n" using u(2) by (simp_all add: after_bread_def)
  note v = set_data_spec [OF h n(2)]
  let ?x = "absorb n (lh s)" let ?v = "(set_data i d u)\<lparr>lh := ?x\<rparr>"
  have fu: "cache_frame s (set_data i d u)" using u(2) v(1) by (auto simp: after_bread_def on_handle_def intro: cache_frame_trans)
  note f = log_frame [OF fu]
  have "blockno (bufs (set_data i d u) ! i) = n" using v(2) by (simp add: handle_def holds_def)
  then have w: "log_write i (set_data i d u) = Some (upd_buf i (\<lambda>c. c\<lparr>dirty := True\<rparr>) ?v)" (is "_ = Some ?w")
    using log_write_absorbs [of "set_data i d u" i] f p(3) l by (simp add: LOGSIZE_def MAXOPBLOCKS_def)
  have hv: "cache_ok ?v" "handle ?v i n" using v(1,2) by (simp_all add: on_handle_def)
  note m = mark_dirty_spec [OF hv]
  have ok: "cache_ok ?w" using m(1) unfolding on_handle_def by (rule conjunct1)
  have pin: "n \<in> pinned ?w" using m(5) by simp
  obtain t where t: "brelse i ?w = Some t" "on_handle ?w i t" "blk t = blk ?w" "pinned t = pinned ?w" "locks t = locks ?w - {n}"
    "disk t = disk ?w" "dtrace t = dtrace ?w"
    using brelse_spec [OF ok m(2) disjI1 [OF pin]] by blast
  have "cache_frame (s\<lparr>lh := ?x\<rparr>) t"
    using cache_frame_trans [OF frame_lh [OF fu] cache_frame_trans [of _ ?w t]] m(1) t(2) by (simp add: on_handle_def)
  note g = log_frame [OF this]
  have pt: "pinned t = insert n (set (lh s))" using t(4) m(5) v(5) u(2) p(1) by (simp add: after_bread_def)
  have "card (pinned t) < NBUF"
    unfolding pt using card_insert_le_m1 [of 29 "set (lh s)" n] card_length [of "lh s"] p(3) by (simp add: NBUF_def card_insert_if)
  then have "quiet t" using t(2,5) m(6) v(6) u(2) q by (simp add: quiet_def on_handle_def after_bread_def)
  moreover have "txn_frame s t" using g t(6,7) m(7,8) v(7,8) u(2) by (simp add: txn_frame_def after_bread_def)
  moreover have "blk t = (blk s)(n := d)" using t(3) m(4) v(4) u(2) by (simp add: after_bread_def)
  ultimately show ?thesis using u(1) w t(1) g pt by (simp add: txn_write_def)
qed

lemma txn_writes_spec:
  "quiet s \<Longrightarrow> \<forall>(n, d)\<in>set ws. n < FSSIZE \<and> length d = BSIZE \<Longrightarrow> pinned s = set (lh s) \<Longrightarrow> distinct (lh s) \<Longrightarrow>
   card (set (lh s) \<union> fst ` set ws) \<le> 28 \<Longrightarrow> log_size s = 30 \<Longrightarrow> outstanding s \<ge> 1 \<Longrightarrow> LLog \<notin> set (held s) \<Longrightarrow>
   \<exists>t. write_all txn_write ws s = Some t \<and> quiet t \<and> blk t = dapply ws (blk s) \<and> distinct (lh t) \<and>
     set (lh t) = set (lh s) \<union> fst ` set ws \<and> pinned t = set (lh t) \<and> txn_frame s t"
proof (induction ws arbitrary: s)
  case Nil
  then show ?case by (simp add: txn_frame_def)
next
  case (Cons w ws)
  obtain n d where w: "w = (n, d)" by (cases w)
  have "card (set (lh s)) \<le> 28" using le_trans [OF card_mono [OF _ Un_upper1] Cons.prems(5)] by simp
  then have "length (lh s) < 29" using Cons.prems(4) by (simp add: distinct_card)
  then obtain u where u: "txn_write n d s = Some u" "quiet u" "blk u = (blk s)(n := d)" "lh u = absorb n (lh s)"
    "pinned u = set (lh u)" "txn_frame s u"
    using txn_write_spec [of s n d] Cons.prems w by auto
  have "set (lh u) \<union> fst ` set ws = set (lh s) \<union> fst ` set (w # ws)" using u(4) w by auto
  then obtain t where t: "write_all txn_write ws u = Some t" "quiet t" "blk t = dapply ws (blk u)" "distinct (lh t)"
    "set (lh t) = set (lh s) \<union> fst ` set (w # ws)" "pinned t = set (lh t)" "txn_frame u t"
    using Cons.IH [OF u(2) _ u(5)] Cons.prems u(4,6) distinct_absorb [of "lh s" n] by (auto simp: txn_frame_def)
  then show ?case using u w by (auto simp: txn_frame_def)
qed

lemma log_field_updates [simp]:
  "quiet (s\<lparr>outstanding := k, committing := c\<rparr>) = quiet s" "blk (s\<lparr>outstanding := k, committing := c\<rparr>) = blk s"
  "pinned (s\<lparr>outstanding := k, committing := c\<rparr>) = pinned s" "log_ok (s\<lparr>outstanding := k, committing := c\<rparr>) bl = log_ok s bl"
  "quiet (s\<lparr>outstanding := k\<rparr>) = quiet s" "blk (s\<lparr>outstanding := k\<rparr>) = blk s" "pinned (s\<lparr>outstanding := k\<rparr>) = pinned s"
  by (simp_all add: fun_eq_iff quiet_def cache_ok_def io_ready_def blk_def pinned_def locks_def log_ok_def)

lemma procs_updates [simp]:
  "quiet (s\<lparr>procs := ps, committing := c\<rparr>) = quiet s" "blk (s\<lparr>procs := ps, committing := c\<rparr>) = blk s"
  "pinned (s\<lparr>procs := ps, committing := c\<rparr>) = pinned s"
  by (simp_all add: fun_eq_iff quiet_def cache_ok_def io_ready_def blk_def pinned_def locks_def)

definition commit_list :: "u32 \<Rightarrow> u32 list \<Rightarrow> (u32 \<Rightarrow> u8 list) \<Rightarrow> (u32 \<times> u8 list) list" where
  "commit_list st bl v = (if bl = [] then [] else commit_writes st bl v)"

lemma commit_list_spec:
  assumes q: "quiet s" and p: "pinned s = set (lh s)" "distinct (lh s)" and l: "log_ok s (lh s)"
  shows "\<exists>t. commit s = Some t \<and> did (s\<lparr>lh := []\<rparr>) t (commit_list (log_start s) (lh s) (blk s))"
proof (cases "lh s = []")
  case True
  then have e: "s\<lparr>lh := []\<rparr> = s" by (intro log.equality) simp_all
  show ?thesis unfolding e using True did_refl [OF q] by (simp add: commit_def commit_list_def)
next
  case False
  with commit_spec [OF q p l] show ?thesis by (simp add: commit_list_def)
qed

lemma commit_list_fst: "fst ` set (commit_list st bl v) \<supseteq> set bl"
  by (force simp: commit_list_def commit_writes_def)

lemma end_op_spec:
  assumes q: "quiet s" and p: "pinned s = set (lh s)" "distinct (lh s)" and l: "log_ok s (lh s)"
    and o: "outstanding s = 1" "\<not> committing s" "LLog \<notin> set (held s)"
  defines "cs \<equiv> commit_list (log_start s) (lh s) (blk s)"
  shows "\<exists>t. end_op s = Some t \<and> quiet t \<and> pinned t = {} \<and> lh t = [] \<and> outstanding t = 0 \<and> \<not> committing t \<and> held t = held s \<and>
    log_dev t = log_dev s \<and> log_start t = log_start s \<and> log_size t = log_size s \<and> blk t = dapply cs (blk s) \<and>
    disk t = (disk s)(1 := dapply cs (disk s 1)) \<and> dtrace t = dtrace s @ map (Pair 1) cs"
proof -
  let ?s = "s\<lparr>outstanding := 0, committing := True\<rparr>"
  have e: "s\<lparr>held := LLog # held s, outstanding := 0, committing := True, held := held s\<rparr> = ?s" by (rule log.equality) simp_all
  obtain t where t: "commit ?s = Some t" "did (?s\<lparr>lh := []\<rparr>) t cs"
    using commit_list_spec [of ?s] q p l unfolding cs_def by auto
  have f: "cache_frame (?s\<lparr>lh := []\<rparr>) t" "pinned t = {}" using t(2) p(1) commit_list_fst unfolding cs_def by (auto simp: did_def)
  note f' = log_frame [OF f(1)]
  let ?t = "t\<lparr>procs := map (wake_proc CLog) (procs t), committing := False\<rparr>"
  have g: "t\<lparr>held := LLog # held s, committing := False, held := LPtable # LLog # held s, procs := map (wake_proc CLog) (procs t),
      held := LLog # held s, held := held s\<rparr> = ?t"
    using f' by (intro log.equality) simp_all
  have "LPtable \<notin> set (held s)" using q by (simp add: quiet_def cache_ok_def io_ready_def)
  then have "end_op s = Some ?t"
    using o f' e g t(1) by (simp add: end_op_def acquire_def release_def wakeup_def wakeup1_def Let_def)
  then show ?thesis using t(2) f' f(2) by (simp add: did_def)
qed

section \<open>Atomicity\<close>

text \<open>The log between transactions: nothing is logged, and the header on the disk is empty.\<close>

definition log_idle :: "'z log_scheme \<Rightarrow> bool" where
  "log_idle s \<longleftrightarrow> quiet s \<and> pinned s = {} \<and> lh s = [] \<and> outstanding s = 0 \<and> \<not> committing s \<and> log_dev s = 1 \<and> log_size s = 30 \<and>
     LLog \<notin> set (held s) \<and> unat (log_start s) + 30 < 1000 \<and> head_blocks (disk s 1 (log_start s)) = Some []"

text \<open>A machine that has just started after a crash: the log is where it was, the cache is empty, the disk is what the crash left.\<close>

definition rebooted :: "u32 \<Rightarrow> (u32 \<Rightarrow> u8 list) \<Rightarrow> 'z log_scheme \<Rightarrow> bool" where
  "rebooted st D r \<longleftrightarrow> quiet r \<and> pinned r = {} \<and> log_dev r = 1 \<and> log_start r = st \<and> disk r 1 = D"

lemma log_slot_bound:
  assumes "unat st + 30 < 1000" and "k \<le> 30"
  shows "st + of_nat k < FSSIZE"
proof -
  have "unat (st + of_nat k) = unat st + k"
    using assms by (simp add: unat_word_ariths unat_of_nat take_bit_nat_eq_self)
  then show ?thesis using assms by (simp add: FSSIZE_def word_less_nat_alt)
qed

lemma log_okI:
  assumes st: "unat (log_start s) + 30 < 1000" and d: "log_dev s = 1" and bl: "length bl \<le> 30" "\<forall>b\<in>set bl. b < FSSIZE \<and> b \<notin> log_area (log_start s)"
  shows "log_ok s bl"
proof -
  have "log_start s + 1 + of_nat k < FSSIZE \<and> log_start s + 1 + of_nat k \<in> log_area (log_start s)" if "k < length bl" for k
  proof -
    have "log_start s + 1 + of_nat k = log_start s + of_nat (Suc k)" by (simp add: ac_simps)
    then show ?thesis using log_slot_bound [OF st, of "Suc k"] that bl(1) unfolding log_area_def by (intro conjI CollectI exI [of _ "Suc k"]) (simp_all add: ac_simps)
  qed
  then show ?thesis using log_slot_bound [OF st, of 0] d bl(2) log_area_head [of "log_start s"] unfolding log_ok_def apart_def by auto
qed

lemma begin_op_idle:
  assumes "log_idle s"
  shows "begin_op s = Some (s\<lparr>outstanding := 1\<rparr>)"
proof -
  have "s\<lparr>held := LLog # held s, outstanding := 1, held := held s\<rparr> = s\<lparr>outstanding := 1\<rparr>" by (rule log.equality) simp_all
  with assms show ?thesis by (simp add: log_idle_def begin_op_def acquire_def release_def LOGSIZE_def MAXOPBLOCKS_def)
qed

text \<open>Outside of the log the committed contents are the contents the transaction wrote.\<close>

lemma commit_list_view:
  assumes n: "length bl \<le> 30" and m: "m \<notin> log_area st" and D: "m \<in> set bl \<or> D m = v m"
  shows "dapply (commit_list st bl v) D m = v m"
proof -
  have "m \<notin> fst ` set (log_copies (st + 1) v bl)" "m \<noteq> st" using m log_area_slots [OF n, of st v] by auto
  then show ?thesis using D by (auto simp: commit_list_def commit_writes_def dapply_home dapply_other)
qed

lemma commit_list_head:
  assumes st: "st \<notin> set bl" and h: "head_blocks (D st) = Some []" and l: "length (v st) = BSIZE"
  shows "head_blocks (dapply (commit_list st bl v) D st) = Some []"
  using assms by (simp add: commit_list_def commit_writes_def head_blocks_bytes)

text \<open>Recovery after a crash that leaves a prefix of the writes of a commit on the disk.\<close>

lemma recover_prefix:
  assumes r: "rebooted st (dapply ps D) r" and n: "length bl \<le> 30" and l: "log_ok r bl" and st: "unat st + 30 < 1000"
    and cs: "commit_list st bl v = ps @ qs" and h: "head_blocks (D st) = Some []" and len: "length (v st) = BSIZE"
    and v: "\<And>m. m \<notin> set bl \<Longrightarrow> D m = v m"
  shows "\<exists>u. recover_from_log r = Some u \<and> quiet u \<and> pinned u = {} \<and> lh u = [] \<and> head_blocks (disk u 1 st) = Some [] \<and>
    (qs \<noteq> [] \<and> (\<forall>m. m \<notin> log_area st \<longrightarrow> disk u 1 m = D m) \<or> (\<forall>m. m \<notin> log_area st \<longrightarrow> disk u 1 m = v m))"
proof -
  have r': "quiet r" "pinned r = {}" "log_dev r = 1" "log_start r = st" "disk r 1 = dapply ps D" using r by (simp_all add: rebooted_def)
  have l0: "log_ok r []" using l by (simp add: log_ok_def apart_def)
  have nst: "m \<noteq> st" if "m \<notin> log_area st" for m using that by auto
  have "head_blocks (disk r 1 st) = Some [] \<and> qs \<noteq> [] \<and> (\<forall>m. m \<notin> log_area st \<longrightarrow> disk r 1 m = D m) \<or>
    head_blocks (disk r 1 st) = Some [] \<and> (\<forall>m. m \<notin> log_area st \<longrightarrow> disk r 1 m = (if m \<in> set bl then v m else D m)) \<or>
    head_blocks (disk r 1 st) = Some bl \<and> (\<forall>k<length bl. disk r 1 (st + 1 + of_nat k) = v (bl ! k)) \<and>
      (\<forall>m. m \<notin> log_area st \<union> set bl \<longrightarrow> disk r 1 m = D m)" (is "?nothing \<or> ?finished \<or> ?redo")
  proof (cases "bl = []")
    case True
    then have "ps = []" using cs by (simp add: commit_list_def)
    with True h r'(5) show ?thesis by simp
  next
    case False
    then have "commit_writes (log_start r) bl v = ps @ qs" using cs r'(4) by (simp add: commit_list_def)
    then show ?thesis using crash_disk [OF n l, of v ps qs D] h len unfolding r'(4,5) by blast
  qed
  then show ?thesis
  proof (elim disjE)
    assume ?nothing
    with recover_disk [OF r'(1,2) l0, of v] r'(4) nst show ?thesis by auto
  next
    assume ?finished
    moreover have "(if m \<in> set bl then v m else D m) = v m" for m using v by simp
    ultimately show ?thesis using recover_disk [OF r'(1,2) l0, of v] r'(4) nst by auto
  next
    assume ?redo
    with recover_disk [OF r'(1,2) l, of v] r'(4) nst v show ?thesis by auto
  qed
qed

text \<open>A freshly made disk whose log starts at block 2, as \<^verbatim>\<open>mkfs.c\<close> places it.\<close>

definition boot_log :: "(u32 \<Rightarrow> u8 list) \<Rightarrow> 'z \<Rightarrow> 'z log_scheme" where
  "boot_log D z = boot_bio D (log_ext 2 30 0 False 1 [] z)"

lemma boot_log_fields:
  "log_start (boot_log D z) = 2" "log_size (boot_log D z) = 30" "outstanding (boot_log D z) = 0" "\<not> committing (boot_log D z)"
  "log_dev (boot_log D z) = 1" "lh (boot_log D z) = []" "held (boot_log D z) = []" "disk (boot_log D z) = (\<lambda>d. D)"
  by (simp_all add: boot_log_def boot_bio_def binit_def)

lemma boot_log_quiet:
  assumes "\<forall>n<FSSIZE. length (D n) = BSIZE"
  shows "quiet (boot_log D z)" and "blk (boot_log D z) = D" and "pinned (boot_log D z) = {}"
  by (simp_all add: boot_log_def boot_bio_quiet [OF assms])

lemma boot_log_idle:
  assumes "\<forall>n<FSSIZE. length (D n) = BSIZE" and "head_blocks (D 2) = Some []"
  shows "log_idle (boot_log D z)"
  unfolding log_idle_def boot_log_fields using boot_log_quiet [OF assms(1), of z] assms(2) by (simp add: boot_log_fields)

lemma boot_log_rebooted:
  assumes "\<forall>n<FSSIZE. length (D n) = BSIZE"
  shows "rebooted 2 D (boot_log D z)"
  unfolding rebooted_def boot_log_fields using boot_log_quiet [OF assms, of z] by simp

lemma head_blocks_zero: "head_blocks (replicate 512 0) = Some []"
  by (simp add: head_blocks_def get32_def get16_def get_array_def LOGSIZE_def MAXOPBLOCKS_def)

text \<open>C18: transactions are atomic across crashes. A transaction over blocks outside of the log, started while the log is idle,
  runs to its end, leaves the log idle and gives the blocks the contents that its writes say. Wherever a crash
  interrupts its block writes \<open>cs\<close>, recovery at the next start of the machine succeeds and leaves on the disk, outside of the log,
  either what was there before the transaction or the whole of its effect; and if all of \<open>cs\<close> reached the disk, the effect.\<close>

theorem transaction_atomic:
  fixes s :: "'z log_scheme"
  assumes i: "log_idle s" and w: "\<forall>(n, d)\<in>set ws. n < FSSIZE \<and> length d = BSIZE \<and> n \<notin> log_area (log_start s)"
    and c: "card (fst ` set ws) \<le> 28"
  shows "\<exists>t cs. transaction ws s = Some t \<and> log_idle t \<and> dtrace t = dtrace s @ map (Pair 1) cs \<and>
    (\<forall>n. n \<notin> log_area (log_start s) \<longrightarrow> blk t n = dapply ws (blk s) n) \<and>
    (\<forall>ps qs (r :: 'z log_scheme). cs = ps @ qs \<and> rebooted (log_start s) (dapply ps (disk s 1)) r \<longrightarrow>
      (\<exists>u. recover_from_log r = Some u \<and> lh u = [] \<and> head_blocks (disk u 1 (log_start s)) = Some [] \<and>
        (qs \<noteq> [] \<and> (\<forall>n. n \<notin> log_area (log_start s) \<longrightarrow> disk u 1 n = disk s 1 n) \<or>
         (\<forall>n. n \<notin> log_area (log_start s) \<longrightarrow> disk u 1 n = dapply ws (disk s 1) n))))"
proof -
  let ?st = "log_start s" let ?s = "s\<lparr>outstanding := 1\<rparr>" let ?v = "dapply ws (disk s 1)"
  have i': "quiet s" "pinned s = {}" "lh s = []" "log_dev s = 1" "log_size s = 30" "LLog \<notin> set (held s)" "unat ?st + 30 < 1000"
    "head_blocks (disk s 1 ?st) = Some []" "\<not> committing s" using i by (simp_all add: log_idle_def)
  have b: "blk s = disk s 1" by (rule idle_coherent [OF i'(1,2)])
  have ws: "n < FSSIZE \<and> length d = BSIZE \<and> n \<notin> log_area ?st" if "(n, d) \<in> set ws" for n d using bspec [OF w that] by simp
  have ws1: "\<forall>(n, d)\<in>set ws. n < FSSIZE \<and> length d = BSIZE" by (clarify, drule ws) simp
  have ws2: "n < FSSIZE \<and> n \<notin> log_area ?st" if "n \<in> fst ` set ws" for n
  proof -
    from that obtain d where "(n, d) \<in> set ws" by auto
    with ws show ?thesis by blast
  qed
  obtain u where u: "write_all txn_write ws ?s = Some u" "quiet u" "blk u = ?v" "distinct (lh u)" "set (lh u) = fst ` set ws"
    "pinned u = set (lh u)" "txn_frame ?s u"
    using txn_writes_spec [of ?s ws, OF _ ws1] c i'(1,2,3,5,6) b by auto
  have n: "length (lh u) \<le> 30" using c u(5) distinct_card [OF u(4)] by simp
  have f: "log_start u = ?st" "log_dev u = 1" "outstanding u = 1" "\<not> committing u" "LLog \<notin> set (held u)" "held u = held s"
    "log_size u = 30" "disk u = disk s" "dtrace u = dtrace s" using u(7) i' by (simp_all add: txn_frame_def)
  have bl: "\<forall>b\<in>set (lh u). b < FSSIZE \<and> b \<notin> log_area ?st" using ws2 u(5) by blast
  have l: "log_ok r (lh u)" if "log_dev r = 1" "log_start r = ?st" for r :: "'z log_scheme" using log_okI [of r "lh u"] that bl n i'(7) by simp
  let ?cs = "commit_list ?st (lh u) ?v"
  obtain t where t: "end_op u = Some t" "quiet t" "pinned t = {}" "lh t = []" "outstanding t = 0" "\<not> committing t" "held t = held u"
    "log_dev t = log_dev u" "log_start t = log_start u" "log_size t = log_size u" "blk t = dapply ?cs ?v"
    "disk t = (disk u)(1 := dapply ?cs (disk u 1))" "dtrace t = dtrace u @ map (Pair 1) ?cs"
    using end_op_spec [OF u(2,6,4) l [OF f(2,1)] f(3,4,5)] u(3) f(1) by auto
  have st: "?st \<notin> set (lh u)" using bl log_area_head [of ?st] by blast
  have len: "length (?v ?st) = BSIZE" using length_blk [OF u(2), of ?st] log_slot_bound [OF i'(7), of 0] u(3) by simp
  have v: "disk s 1 m = ?v m" if "m \<notin> set (lh u)" for m using that u(5) dapply_other [of m ws "disk s 1"] by simp
  have idle: "log_idle t" unfolding log_idle_def using t i' f commit_list_head [where D = "disk s 1" and v = ?v, OF st i'(8) len] by simp
  have view: "blk t m = dapply ws (blk s) m" if "m \<notin> log_area ?st" for m
    using commit_list_view [OF n that, of ?v ?v] t(11) b by simp
  have run: "transaction ws s = Some t" using begin_op_idle [OF i] u(1) t(1) by (simp add: transaction_def)
  have crash: "\<exists>u. recover_from_log r = Some u \<and> lh u = [] \<and> head_blocks (disk u 1 ?st) = Some [] \<and>
      (qs \<noteq> [] \<and> (\<forall>n. n \<notin> log_area ?st \<longrightarrow> disk u 1 n = disk s 1 n) \<or> (\<forall>n. n \<notin> log_area ?st \<longrightarrow> disk u 1 n = ?v n))"
    if "?cs = ps @ qs" "rebooted ?st (dapply ps (disk s 1)) r" for ps qs and r :: "'z log_scheme"
    using recover_prefix [where D = "disk s 1" and v = ?v, OF that(2) n l i'(7) that(1) i'(8) len v] that(2) by (auto simp: rebooted_def)
  have d: "dtrace t = dtrace s @ map (Pair 1) ?cs" using t(13) f(9) by simp
  show ?thesis
    by (rule exI [of _ t], rule exI [of _ ?cs], intro conjI allI impI)
      (rule run, rule idle, rule d, erule view, elim conjE, erule (1) crash)
qed

theorem transaction_atomic_witness:
  "\<exists>t u. transaction [(50, replicate 512 1), (51, replicate 512 2)] (boot_log (\<lambda>_. replicate 512 0) ()) = Some t \<and>
    log_idle t \<and> blk t 50 = replicate 512 1 \<and> recover_from_log (boot_log (\<lambda>_. replicate 512 0) ()) = Some u"
proof -
  let ?D = "\<lambda>_ :: u32. replicate 512 (0 :: u8)" let ?ws = "[(50 :: u32, replicate 512 (1 :: u8)), (51, replicate 512 2)]"
  have D: "\<forall>n<FSSIZE. length (?D n) = BSIZE" by (simp add: BSIZE_def)
  have a: "n \<notin> log_area 2" if "n = 50 \<or> n = 51" for n
  proof
    assume "n \<in> log_area 2"
    then obtain k where k: "k \<le> 30" "n = 2 + of_nat k" by (auto simp: log_area_def)
    then have "unat n = 2 + k" by (simp add: unat_word_ariths unat_of_nat take_bit_nat_eq_self)
    with that k(1) show False by auto
  qed
  have w: "\<forall>(n, d)\<in>set ?ws. n < FSSIZE \<and> length d = BSIZE \<and> n \<notin> log_area (log_start (boot_log ?D ()))"
    using a by (simp add: boot_log_fields FSSIZE_def BSIZE_def)
  have c: "card (fst ` set ?ws) \<le> 28" by simp
  obtain t cs where t: "transaction ?ws (boot_log ?D ()) = Some t" "log_idle t"
    "\<forall>n. n \<notin> log_area 2 \<longrightarrow> blk t n = dapply ?ws (blk (boot_log ?D ())) n"
    "\<forall>ps qs (r :: log). cs = ps @ qs \<and> rebooted 2 (dapply ps ?D) r \<longrightarrow> (\<exists>u. recover_from_log r = Some u)"
    using transaction_atomic [OF boot_log_idle [OF D head_blocks_zero] w c] unfolding boot_log_fields by (elim exE conjE) (rule that, assumption+, fast)
  have "\<exists>u. recover_from_log (boot_log ?D ()) = Some u"
    using t(4) [rule_format, of "[]" cs] boot_log_rebooted [OF D, of "()"] by simp
  moreover have "blk t 50 = replicate 512 1" using t(3) a [of 50] by simp
  ultimately show ?thesis using t(1,2) by blast
qed



end
