(* ===== verification/FsInv.thy ===== *)
theory FsInv
  imports Fs LogCrash
begin

text \<open>
  Blocks inside a transaction. \<open>in_txn k L s\<close>: the process is between \<open>begin_op\<close> and \<open>end_op\<close>, holds the buffers of the blocks
  \<open>L\<close>, and the log has room for \<open>k\<close> more writes. \<open>wrote k s t v\<close>: \<open>t\<close> follows \<open>s\<close> by at most \<open>k\<close> logged writes that make the blocks
  look like \<open>v\<close>; the disk is untouched. On these rest the specifications of \<open>bzero\<close>, \<open>balloc\<close>, \<open>bfree\<close> and \<open>iupdate\<close>.
\<close>

section \<open>Logged writes\<close>

definition in_txn :: "nat \<Rightarrow> u32 set \<Rightarrow> 'z log_scheme \<Rightarrow> bool" where
  "in_txn k L s \<longleftrightarrow> cache_ok s \<and> locks s = L \<and> card L \<le> 1 \<and> pinned s = set (lh s) \<and> distinct (lh s) \<and> length (lh s) + k \<le> 29 \<and>
     log_size s = 30 \<and> outstanding s \<ge> 1 \<and> LLog \<notin> set (held s)"

definition wrote :: "nat \<Rightarrow> 'z log_scheme \<Rightarrow> 'z log_scheme \<Rightarrow> (u32 \<Rightarrow> u8 list) \<Rightarrow> bool" where
  "wrote k s t v \<longleftrightarrow> cache_ok t \<and> locks t = locks s \<and> pinned t = set (lh t) \<and> distinct (lh t) \<and> length (lh t) \<le> length (lh s) + k \<and>
     cache_frame (s\<lparr>lh := lh t\<rparr>) t \<and> disk t = disk s \<and> dtrace t = dtrace s \<and> blk t = v \<and>
     (\<forall>j m. handle s j m \<longrightarrow> handle t j m \<and> bufs t ! j = bufs s ! j)"

lemma handle_locks: "cache_ok s \<Longrightarrow> handle s j m \<Longrightarrow> m \<in> locks s"
  unfolding handle_def holds_def locks_def bset_def by (drule cache_okD(1)) auto

lemma wrote_trans:
  assumes "wrote k s t v" and "wrote l t u w"
  shows "wrote (k + l) s u w"
proof -
  have "cache_frame (s\<lparr>lh := lh u\<rparr>) (t\<lparr>lh := lh u\<rparr>)" using assms(1) frame_lh [of "s\<lparr>lh := lh t\<rparr>" t "lh u"] by (simp add: wrote_def)
  moreover have "cache_frame (t\<lparr>lh := lh u\<rparr>) u" using assms(2) by (simp add: wrote_def)
  ultimately have "cache_frame (s\<lparr>lh := lh u\<rparr>) u" by (rule cache_frame_trans)
  moreover have "cache_ok u" "pinned u = set (lh u)" "distinct (lh u)" "locks u = locks s" "disk u = disk s" "dtrace u = dtrace s" "blk u = w"
    "length (lh u) \<le> length (lh s) + (k + l)" using assms unfolding wrote_def by (elim conjE, simp)+
  moreover have "handle u j m \<and> bufs u ! j = bufs s ! j" if "handle s j m" for j m
    using assms that unfolding wrote_def by metis
  ultimately show ?thesis unfolding wrote_def by blast
qed

lemma wrote_mono: "wrote k s t v \<Longrightarrow> k \<le> l \<Longrightarrow> wrote l s t v"
  by (auto simp: wrote_def)

lemma wrote_blk: "wrote k s t v \<Longrightarrow> blk t = v"
  by (simp add: wrote_def)

lemma in_txn_wrote:
  assumes "in_txn (k + l) L s" and "wrote k s t v"
  shows "in_txn l L t"
proof -
  have "cache_frame (s\<lparr>lh := lh t\<rparr>) t" using assms(2) by (simp add: wrote_def)
  from log_frame [OF this] assms show ?thesis by (auto simp: in_txn_def wrote_def)
qed

lemma in_txn_mono: "in_txn k L s \<Longrightarrow> l \<le> k \<Longrightarrow> in_txn l L s"
  by (auto simp: in_txn_def)

lemma fs_frame:
  assumes "cache_frame s t"
  shows "inodes t = inodes s" "sb t = sb s" "myproc t = myproc s"
  using assms by (auto simp: cache_frame_def)

lemma wrote_fs:
  fixes s :: "'z fs_scheme"
  assumes "wrote k s t v"
  shows "inodes t = inodes s" "sb t = sb s" "myproc t = myproc s" "held t = held s" "length (procs t) = length (procs s)"
proof -
  have f: "cache_frame (s\<lparr>lh := lh t\<rparr>) t" using assms by (simp add: wrote_def)
  from fs_frame [OF f] log_frame [OF f] f
  show "inodes t = inodes s" "sb t = sb s" "myproc t = myproc s" "held t = held s" "length (procs t) = length (procs s)"
    by (simp_all add: cache_frame_def woken_def)
qed

lemma bread_txn:
  assumes "in_txn (Suc k) L s" and "n < FSSIZE" and "n \<notin> L"
  shows "\<exists>i u. bread 1 n s = Some (i, u) \<and> after_bread s n i u"
proof -
  have "card (pinned s \<union> locks s) \<le> length (lh s) + card L"
    using assms(1) card_Un_le [of "set (lh s)" L] card_length [of "lh s"] by (simp add: in_txn_def)
  then have "card (pinned s \<union> locks s) < NBUF" using assms(1) by (simp add: in_txn_def NBUF_def)
  then show ?thesis using bread_spec [of s n] assms by (simp add: in_txn_def)
qed

lemma release_read:
  assumes i: "in_txn k L s" and n: "n \<notin> L" and u: "after_bread s n b u"
  shows "\<exists>t. brelse b u = Some t \<and> wrote 0 s t (blk s)"
proof -
  have h: "cache_ok u" "handle u b n" using u by (simp_all add: after_bread_def)
  have c: "n \<in> pinned u \<or> blk u n = disk u 1 n"
    using coherent [of s n] i n u by (auto simp: after_bread_def in_txn_def)
  obtain t where t: "brelse b u = Some t" "on_handle u b t" "blk t = blk u" "pinned t = pinned u" "locks t = locks u - {n}"
    "disk t = disk u" "dtrace t = dtrace u" using brelse_spec [OF h c] by blast
  have f: "cache_frame s t" using u t(2) by (auto simp: after_bread_def on_handle_def intro: cache_frame_trans)
  have l: "lh t = lh s" by (rule log_frame(6) [OF f])
  have keep: "handle t j m \<and> bufs t ! j = bufs s ! j" if "handle s j m" for j m
  proof -
    have "m \<in> L" using handle_locks [OF _ that] i by (auto simp: in_txn_def)
    with n have "m \<noteq> n" by blast
    moreover have "handle u j m" "bufs u ! j = bufs s ! j" using u that by (auto simp: after_bread_def)
    ultimately show ?thesis using t(2) handle_inj [OF h(2)] unfolding on_handle_def by metis
  qed
  have "s\<lparr>lh := lh s\<rparr> = s" by simp
  then show ?thesis using t i u n f l keep
    by (simp add: wrote_def after_bread_def on_handle_def in_txn_def)
qed

text \<open>Changing a block that the process holds and giving it to the log.\<close>

lemma modify_handle:
  assumes h: "cache_ok u" "handle u i n" and d: "length d = BSIZE" and p: "pinned u = set (lh u)" "distinct (lh u)" "length (lh u) < 29"
    and l: "log_size u = 30" "outstanding u \<ge> 1" "LLog \<notin> set (held u)"
  shows "\<exists>w t. log_write i (set_data i d u) = Some w \<and> brelse i w = Some t \<and> cache_ok t \<and> locks t = locks u - {n} \<and> lh t = absorb n (lh u) \<and>
    pinned t = set (lh t) \<and> cache_frame (u\<lparr>lh := lh t\<rparr>) t \<and> disk t = disk u \<and> dtrace t = dtrace u \<and> blk t = (blk u)(n := d) \<and>
    (\<forall>j m. i \<noteq> j \<longrightarrow> handle u j m \<longrightarrow> handle t j m \<and> bufs t ! j = bufs u ! j)"
proof -
  note v = set_data_spec [OF h d]
  let ?x = "absorb n (lh u)" let ?v = "(set_data i d u)\<lparr>lh := ?x\<rparr>"
  have fu: "cache_frame u (set_data i d u)" using v(1) by (simp add: on_handle_def)
  note f = log_frame [OF fu]
  have "blockno (bufs (set_data i d u) ! i) = n" using v(2) by (simp add: handle_def holds_def)
  then have w: "log_write i (set_data i d u) = Some (upd_buf i (\<lambda>c. c\<lparr>dirty := True\<rparr>) ?v)" (is "_ = Some ?w")
    using log_write_absorbs [of "set_data i d u" i] f p(3) l by (simp add: LOGSIZE_def MAXOPBLOCKS_def)
  have hv: "cache_ok ?v" "handle ?v i n" using v(1,2) by (simp_all add: on_handle_def)
  note m = mark_dirty_spec [OF hv]
  have ok: "cache_ok ?w" using m(1) unfolding on_handle_def by (rule conjunct1)
  have pin: "n \<in> pinned ?w" using m(5) by simp
  obtain t where t: "brelse i ?w = Some t" "on_handle ?w i t" "blk t = blk ?w" "pinned t = pinned ?w" "locks t = locks ?w - {n}"
    "disk t = disk ?w" "dtrace t = dtrace ?w"
    using brelse_spec [OF ok m(2) disjI1 [OF pin]] by blast
  have fr: "cache_frame (u\<lparr>lh := ?x\<rparr>) t"
    using cache_frame_trans [OF frame_lh [OF fu] cache_frame_trans [of _ ?w t]] m(1) t(2) by (simp add: on_handle_def)
  have lt: "lh t = ?x" using log_frame(6) [OF fr] by simp
  have keep: "handle t j k \<and> bufs t ! j = bufs u ! j" if "i \<noteq> j" "handle u j k" for j k
  proof -
    have 1: "handle ?v j k" "bufs ?v ! j = bufs u ! j" using v(1) that by (simp_all add: on_handle_def)
    then have "handle ?w j k" "bufs ?w ! j = bufs u ! j" using m(1) that(1) unfolding on_handle_def by metis+
    then show ?thesis using t(2) that(1) unfolding on_handle_def by metis
  qed
  have pt: "pinned t = set (lh t)" using t(4) m(5) v(5) p(1) lt by simp
  have "cache_ok t" using t(2) by (simp add: on_handle_def)
  moreover have "blk t = (blk u)(n := d)" using t(3) m(4) v(4) by simp
  moreover have "locks t = locks u - {n}" "disk t = disk u" "dtrace t = dtrace u" using t(5-7) m(6-8) v(6-8) by simp_all
  ultimately show ?thesis using w t(1) fr lt pt keep by (intro exI [of _ ?w] exI [of _ t]) simp
qed

text \<open>The same for a block just read.\<close>

lemma after_bread_txn:
  assumes i: "in_txn k L s" and u: "after_bread s n b u"
  shows "cache_ok u" "handle u b n" "pinned u = set (lh u)" "distinct (lh u)" "lh u = lh s" "log_size u = 30" "outstanding u \<ge> 1"
    "LLog \<notin> set (held u)" "data (bufs u ! b) = blk s n" "blk u = blk s" "locks u = insert n L"
proof -
  have f: "cache_frame s u" using u by (simp add: after_bread_def)
  show "cache_ok u" "handle u b n" "pinned u = set (lh u)" "distinct (lh u)" "lh u = lh s" "log_size u = 30" "outstanding u \<ge> 1"
    "LLog \<notin> set (held u)" "data (bufs u ! b) = blk s n" "blk u = blk s" "locks u = insert n L"
    using log_frame [OF f] u i by (simp_all add: after_bread_def in_txn_def)
qed

lemma length_absorb: "length (absorb n bl) \<le> Suc (length bl)"
  by (simp add: absorb_def)

lemma release_written:
  assumes i: "in_txn (Suc k) L s" and n: "n \<notin> L" and u: "after_bread s n b u" and d: "length d = BSIZE"
  shows "\<exists>w t. log_write b (set_data b d u) = Some w \<and> brelse b w = Some t \<and> wrote 1 s t ((blk s)(n := d))"
proof -
  note a = after_bread_txn [OF i u]
  have len: "length (lh u) < 29" using i a(5) by (simp add: in_txn_def)
  obtain w t where t: "log_write b (set_data b d u) = Some w" "brelse b w = Some t" "cache_ok t" "locks t = locks u - {n}"
    "lh t = absorb n (lh u)" "pinned t = set (lh t)" "cache_frame (u\<lparr>lh := lh t\<rparr>) t" "disk t = disk u" "dtrace t = dtrace u"
    "blk t = (blk u)(n := d)" "\<forall>j m. b \<noteq> j \<longrightarrow> handle u j m \<longrightarrow> handle t j m \<and> bufs t ! j = bufs u ! j"
    using modify_handle [OF a(1,2) d a(3,4) len a(6-8)] by blast
  have "cache_frame (s\<lparr>lh := lh t\<rparr>) (u\<lparr>lh := lh t\<rparr>)" using u by (intro frame_lh) (simp add: after_bread_def)
  then have "cache_frame (s\<lparr>lh := lh t\<rparr>) t" using t(7) by (rule cache_frame_trans)
  moreover have "handle t j m \<and> bufs t ! j = bufs s ! j" if "handle s j m" for j m
  proof -
    have "m \<in> L" using handle_locks [OF _ that] i by (auto simp: in_txn_def)
    then have "b \<noteq> j" using n handle_inj [OF a(2), of j m] u that by (auto simp: after_bread_def)
    moreover have "handle u j m" "bufs u ! j = bufs s ! j" using u that by (auto simp: after_bread_def)
    ultimately show ?thesis using t(11) by metis
  qed
  moreover have "locks t = locks s" using t(4) a(11) n i by (simp add: in_txn_def)
  moreover have "distinct (lh t)" "length (lh t) \<le> length (lh s) + 1" using t(5) a(4,5) length_absorb [of n "lh s"] distinct_absorb by simp_all
  moreover have "disk t = disk s" "dtrace t = dtrace s" using t(8,9) u by (simp_all add: after_bread_def)
  ultimately have "wrote 1 s t ((blk s)(n := d))" using t(3,6,10) a(10) unfolding wrote_def by simp
  with t(1,2) show ?thesis by blast
qed

lemma bzero_spec:
  assumes i: "in_txn (Suc k) L s" and n: "n < FSSIZE" "n \<notin> L"
  shows "\<exists>t. bzero 1 n s = Some t \<and> wrote 1 s t ((blk s)(n := replicate BSIZE 0))"
proof -
  obtain b u where u: "bread 1 n s = Some (b, u)" "after_bread s n b u" using bread_txn [OF i n] by blast
  obtain w t where "log_write b (set_data b (replicate BSIZE 0) u) = Some w" "brelse b w = Some t" "wrote 1 s t ((blk s)(n := replicate BSIZE 0))"
    using release_written [OF i n(2) u(2), of "replicate BSIZE 0"] by auto
  with u(1) show ?thesis by (simp add: bzero_def)
qed

section \<open>The bitmap\<close>

text \<open>Block \<open>b\<close> is marked as used in the bitmap block \<open>bs\<close>.\<close>

definition marked :: "u8 list \<Rightarrow> nat \<Rightarrow> bool" where
  "marked bs b \<longleftrightarrow> bit (bs ! (b div 8)) (b mod 8)"

definition mark :: "nat \<Rightarrow> u8 list \<Rightarrow> u8 list" where
  "mark b bs = bs[b div 8 := bs ! (b div 8) OR bit_mask b]"

definition unmark :: "nat \<Rightarrow> u8 list \<Rightarrow> u8 list" where
  "unmark b bs = bs[b div 8 := bs ! (b div 8) AND NOT (bit_mask b)]"

lemma bit_mask_iff: "bit (bit_mask b) j \<longleftrightarrow> j = b mod 8"
  by (auto simp: bit_mask_def push_bit_eq_mult bit_exp_iff)

lemma marked_test: "bs ! (b div 8) AND bit_mask b = 0 \<longleftrightarrow> \<not> marked bs b"
proof -
  have "bit_mask b = 2 ^ (b mod 8)" by (simp add: bit_mask_def push_bit_eq_mult)
  then show ?thesis by (simp add: marked_def and_exp_eq_0_iff_not_bit)
qed

lemma length_mark [simp]: "length (mark b bs) = length bs" "length (unmark b bs) = length bs"
  by (simp_all add: mark_def unmark_def)

lemma div_mod_8_inj: "a div 8 = b div 8 \<Longrightarrow> a mod 8 = b mod 8 \<Longrightarrow> a = (b :: nat)"
  by (metis div_mult_mod_eq)

lemma marked_mark: "b div 8 < length bs \<Longrightarrow> marked (mark b bs) c \<longleftrightarrow> c = b \<or> marked bs c"
  by (cases "c div 8 = b div 8") (auto simp: marked_def mark_def bit_or_iff bit_mask_iff dest: div_mod_8_inj)

lemma marked_unmark: "b div 8 < length bs \<Longrightarrow> marked (unmark b bs) c \<longleftrightarrow> c \<noteq> b \<and> marked bs c"
  by (cases "c div 8 = b div 8") (auto simp: marked_def unmark_def bit_and_iff bit_not_iff bit_mask_iff dest: div_mod_8_inj)

lemma unmark_mark:
  assumes "b div 8 < length bs" and "\<not> marked bs b"
  shows "unmark b (mark b bs) = bs"
proof -
  have "(bs ! (b div 8) OR bit_mask b) AND NOT (bit_mask b) = bs ! (b div 8)"
    using assms(2) by (intro bit_eqI) (auto simp: bit_simps bit_mask_iff marked_def)
  with assms(1) show ?thesis by (simp add: mark_def unmark_def)
qed

lemma all_from: "(\<forall>j. b \<le> j \<and> j < c \<longrightarrow> P j) \<longleftrightarrow> (b < c \<longrightarrow> P b) \<and> (\<forall>j. Suc b \<le> j \<and> j < c \<longrightarrow> P j)" for b c :: nat
  by (auto, metis Suc_leI le_neq_implies_less)

lemma balloc_scan_Some:
  "balloc_scan bs b k = Some c \<longleftrightarrow> b \<le> c \<and> c < b + k \<and> \<not> marked bs c \<and> (\<forall>j. b \<le> j \<and> j < c \<longrightarrow> marked bs j)"
proof (induction k arbitrary: b)
  case (Suc k)
  show ?case
  proof (cases "marked bs b")
    case True
    then have "balloc_scan bs b (Suc k) = balloc_scan bs (Suc b) k" by (simp add: marked_test)
    moreover have "b \<le> c \<and> \<not> marked bs c \<longleftrightarrow> Suc b \<le> c \<and> \<not> marked bs c" using True le_eq_less_or_eq by auto
    ultimately show ?thesis using Suc [of "Suc b"] True all_from [of b c "marked bs"] by auto
  next
    case False
    then have "balloc_scan bs b (Suc k) = Some b" by (simp add: marked_test)
    with False show ?thesis using le_less_linear [of c b] by auto
  qed
qed auto

lemma balloc_scan_None: "balloc_scan bs b k = None \<longleftrightarrow> (\<forall>j. b \<le> j \<and> j < b + k \<longrightarrow> marked bs j)"
proof (induction k arbitrary: b)
  case (Suc k)
  have "(\<forall>j. b \<le> j \<and> j < b + Suc k \<longrightarrow> marked bs j) \<longleftrightarrow> marked bs b \<and> (\<forall>j. Suc b \<le> j \<and> j < Suc b + k \<longrightarrow> marked bs j)"
    using all_from [of b "b + Suc k" "marked bs"] by simp
  with Suc show ?case by (simp add: marked_test)
qed auto

text \<open>The super block of a disk that the driver accepts.\<close>

definition sb_ok :: "'z fs_scheme \<Rightarrow> bool" where
  "sb_ok s \<longleftrightarrow> 0 < sb_size (sb s) \<and> sb_size (sb s) \<le> FSSIZE \<and> sb_bmapstart (sb s) < FSSIZE \<and> sb_bmapstart (sb s) \<noteq> 1"

abbreviation bmap_block :: "'z fs_scheme \<Rightarrow> u32" where
  "bmap_block s \<equiv> sb_bmapstart (sb s)"

lemma sb_ok_size: "sb_ok s \<Longrightarrow> 0 < unat (sb_size (sb s)) \<and> unat (sb_size (sb s)) \<le> 1000"
  by (auto simp: sb_ok_def FSSIZE_def word_le_nat_alt word_less_nat_alt)

lemma BBLOCK_bmap: "b < FSSIZE \<Longrightarrow> BBLOCK b (sb s) = bmap_block s"
  by (simp add: BBLOCK_def BPB_def FSSIZE_def div_word_less order_less_trans)

lemma balloc_rounds: "sb_ok s \<Longrightarrow> (unat (sb_size (sb s)) + unat BPB - 1) div unat BPB = Suc 0"
  using sb_ok_size [of s] by (simp add: BPB_def) (rule div_nat_eqI, auto)

lemma balloc_bits: "sb_ok s \<Longrightarrow> min (unat BPB) (unat (sb_size (sb s) - 0)) = unat (sb_size (sb s))"
  using sb_ok_size [of s] by (simp add: BPB_def)

lemma BBLOCK_0: "BBLOCK 0 (sb s) = bmap_block s"
  by (simp add: BBLOCK_def)

lemma balloc_spec:
  assumes i: "in_txn (k + 2) L s" and ok: "sb_ok s" and bm: "bmap_block s \<notin> L" and a: "a < sb_size (sb s)" "a \<notin> L" "a \<noteq> bmap_block s"
    and free: "\<not> marked (blk s (bmap_block s)) (unat a)" "\<forall>j<unat a. marked (blk s (bmap_block s)) j"
  shows "\<exists>t. balloc 1 s = Some (a, t) \<and>
    wrote 2 s t ((blk s)(bmap_block s := mark (unat a) (blk s (bmap_block s)), a := replicate BSIZE 0))"
proof -
  let ?b = "bmap_block s" let ?m = "blk s ?b"
  have i1: "in_txn (Suc (k + 1)) L s" and b: "?b < FSSIZE" using i ok by (simp_all add: sb_ok_def)
  obtain c u where u: "bread 1 ?b s = Some (c, u)" "after_bread s ?b c u" using bread_txn [OF i1 b bm] by blast
  note x = after_bread_txn [OF i1 u(2)]
  have len: "length ?m = BSIZE" using cache_ok_handle [OF x(1,2)] x(9) by (simp add: buf_ok_def)
  have scan: "balloc_scan ?m 0 (unat (sb_size (sb s))) = Some (unat a)"
    using free a(1) by (simp add: balloc_scan_Some word_less_nat_alt)
  obtain w t where t: "log_write c (set_data c (mark (unat a) ?m) u) = Some w" "brelse c w = Some t" "wrote 1 s t ((blk s)(?b := mark (unat a) ?m))"
    using release_written [OF i1 bm u(2), of "mark (unat a) ?m"] len by auto
  have "in_txn (Suc k) L t" using in_txn_wrote [of 1 "Suc k"] i t(3) by simp
  moreover have "a < FSSIZE" using a(1) ok unfolding sb_ok_def by (meson less_le_trans)
  ultimately obtain t' where t': "bzero 1 a t = Some t'" "wrote 1 t t' ((blk t)(a := replicate BSIZE 0))"
    using bzero_spec a(2) by blast
  have "wrote 2 s t' ((blk s)(?b := mark (unat a) ?m, a := replicate BSIZE 0))"
    using wrote_trans [OF t(3) t'(2)] wrote_blk [OF t(3)] by (simp add: numeral_2_eq_2)
  moreover have "sb u = sb s" using u(2) fs_frame by (auto simp: after_bread_def)
  ultimately show ?thesis
    using u(1) x(9) scan t(1,2) t'(1) balloc_bits [OF ok] unfolding balloc_def balloc_rounds [OF ok]
    by (simp add: BBLOCK_0 Let_def mark_def [symmetric])
qed

lemma balloc_full:
  assumes i: "in_txn (Suc k) L s" and ok: "sb_ok s" and bm: "bmap_block s \<notin> L" and full: "\<forall>j<unat (sb_size (sb s)). marked (blk s (bmap_block s)) j"
  shows "balloc 1 s = None"
proof -
  let ?b = "bmap_block s"
  obtain c u where u: "bread 1 ?b s = Some (c, u)" "after_bread s ?b c u" using bread_txn [OF i _ bm] ok by (auto simp: sb_ok_def)
  have scan: "balloc_scan (blk s ?b) 0 (unat (sb_size (sb s))) = None" using full by (simp add: balloc_scan_None)
  obtain t where "brelse c u = Some t" using release_read [OF i bm u(2)] by blast
  moreover have "sb u = sb s" using u(2) fs_frame by (auto simp: after_bread_def)
  ultimately show ?thesis
    using u(1) after_bread_txn(9) [OF i u(2)] scan balloc_bits [OF ok] unfolding balloc_def balloc_rounds [OF ok]
    by (simp add: BBLOCK_0 Let_def)
qed

lemma readsb_txn:
  assumes i: "in_txn (Suc k) L s" and n: "1 \<notin> L"
  shows "\<exists>t. readsb 1 s = Some (get_superblock (blk s 1), t) \<and> wrote 0 s t (blk s)"
proof -
  obtain c u where u: "bread 1 1 s = Some (c, u)" "after_bread s 1 c u" using bread_txn [OF i _ n] by (auto simp: FSSIZE_def)
  with release_read [OF i n u(2)] after_bread_txn(9) [OF i u(2)] show ?thesis by (auto simp: readsb_def)
qed

lemma bfree_spec:
  assumes i: "in_txn (Suc k) L s" and ok: "sb_ok s" and L: "bmap_block s \<notin> L" "1 \<notin> L" and sb: "get_superblock (blk s 1) = sb s" and a: "a < FSSIZE"
  shows "if marked (blk s (bmap_block s)) (unat a)
    then \<exists>t. bfree 1 a s = Some t \<and> wrote 1 s t ((blk s)(bmap_block s := unmark (unat a) (blk s (bmap_block s))))
    else bfree 1 a s = None"
proof -
  let ?b = "bmap_block s" let ?m = "blk s ?b"
  obtain r where r: "readsb 1 s = Some (sb s, r)" "wrote 0 s r (blk s)" using readsb_txn [OF i L(2)] sb by auto
  note f = wrote_fs [OF r(2)] and rb = wrote_blk [OF r(2)]
  have rr: "r\<lparr>sb := sb s\<rparr> = r" using f(2) by (intro fs.equality) simp_all
  have i1: "in_txn (Suc k) L r" using in_txn_wrote [of 0 "Suc k"] i r(2) by simp
  obtain c u where u: "bread 1 ?b r = Some (c, u)" "after_bread r ?b c u" using bread_txn [OF i1 _ L(1)] ok by (auto simp: sb_ok_def)
  note x = after_bread_txn [OF i1 u(2)]
  have len: "length ?m = BSIZE" using cache_ok_handle [OF x(1,2)] x(9) rb by (simp add: buf_ok_def)
  have bi: "unat (a mod BPB) = unat a" using a by (simp add: BPB_def FSSIZE_def unat_mod word_less_nat_alt)
  obtain w t where t: "log_write c (set_data c (unmark (unat a) ?m) u) = Some w" "brelse c w = Some t" "wrote 1 r t ((blk r)(?b := unmark (unat a) ?m))"
    using release_written [OF i1 L(1) u(2), of "unmark (unat a) ?m"] len by auto
  have "wrote 1 s t ((blk s)(?b := unmark (unat a) ?m))" using wrote_trans [OF r(2) t(3)] rb by simp
  moreover have "sb u = sb s" using u(2) fs_frame(2) [of r u] f(2) by (simp add: after_bread_def)
  moreover have "bfree 1 a s = (if marked ?m (unat a) then Option.bind (log_write c (set_data c (unmark (unat a) ?m) u)) (brelse c) else None)"
    using r(1) rr u(1) x(9) rb bi BBLOCK_bmap [OF a, of s] by (simp add: bfree_def Let_def marked_test unmark_def)
  ultimately show ?thesis using t(1,2) by simp
qed

lemma balloc_result:
  assumes i: "in_txn (k + 2) {} s" and ok: "sb_ok s" and m: "marked (blk s (bmap_block s)) (unat (bmap_block s))"
    and free: "\<exists>j<unat (sb_size (sb s)). \<not> marked (blk s (bmap_block s)) j"
  shows "\<exists>a t. balloc 1 s = Some (a, t) \<and> a < sb_size (sb s) \<and> a \<noteq> bmap_block s \<and> \<not> marked (blk s (bmap_block s)) (unat a) \<and>
    (\<forall>j<unat a. marked (blk s (bmap_block s)) j) \<and>
    wrote 2 s t ((blk s)(bmap_block s := mark (unat a) (blk s (bmap_block s)), a := replicate BSIZE 0))"
proof -
  let ?m = "blk s (bmap_block s)"
  define j where "j = (LEAST j. \<not> marked ?m j)"
  obtain j' where j': "j' < unat (sb_size (sb s))" "\<not> marked ?m j'" using free by blast
  have j: "\<not> marked ?m j" "\<forall>i<j. marked ?m i" "j \<le> j'"
    unfolding j_def using LeastI [of "\<lambda>j. \<not> marked ?m j", OF j'(2)] Least_le [of "\<lambda>j. \<not> marked ?m j", OF j'(2)]
      not_less_Least [of _ "\<lambda>j. \<not> marked ?m j"] by blast+
  let ?a = "of_nat j :: u32"
  have u: "unat ?a = j" using j(3) j'(1) sb_ok_size [OF ok] by (simp add: unat_of_nat take_bit_nat_eq_self)
  have a: "?a < sb_size (sb s)" "?a \<noteq> bmap_block s" using u j(1,3) j'(1) m by (auto simp: word_less_nat_alt)
  obtain t where t: "balloc 1 s = Some (?a, t)" "wrote 2 s t ((blk s)(bmap_block s := mark j ?m, ?a := replicate BSIZE 0))"
    using balloc_spec [OF i ok _ a(1) _ a(2)] u j by auto
  then show ?thesis using a u j by (intro exI [of _ ?a] exI [of _ t]) simp
qed

lemma length_blk_ok:
  assumes ok: "cache_ok s" and n: "n < FSSIZE"
  shows "length (blk s n) = BSIZE"
proof (cases "\<exists>i<length (bufs s). holds (bufs s ! i) n")
  case True
  then obtain i where i: "i < length (bufs s)" "holds (bufs s ! i) n" by blast
  then have "buf_ok (disk s 1) (bufs s ! i)" using cache_okD(1,3) [OF ok] by simp
  then show ?thesis using lblk_holds [OF cache_okD(2) [OF ok] i] by (simp add: blk_def buf_ok_def)
next
  case False
  then have "blk s n = disk s 1 n" unfolding blk_def by (intro lblk_disk) blast
  then show ?thesis using ok n by (simp add: cache_ok_def)
qed

lemma bitmap_length:
  assumes "in_txn k L s" and "sb_ok s" and "a < sb_size (sb s)"
  shows "unat a div 8 < length (blk s (bmap_block s))"
proof -
  have "length (blk s (bmap_block s)) = BSIZE" using assms(1,2) length_blk_ok [of s] by (simp add: in_txn_def sb_ok_def)
  moreover have "unat a < 1000" using assms(3) sb_ok_size [OF assms(2)] by (simp add: word_less_nat_alt)
  ultimately show ?thesis by (simp add: BSIZE_def)
qed

section \<open>A concrete file system\<close>

text \<open>The disk that \<^verbatim>\<open>mkfs.c\<close> makes, with nothing but its meta data: the super block, and the bits of the 59 meta data blocks.\<close>

definition boot_sb :: superblock where
  "boot_sb = \<lparr>sb_size = 1000, sb_nblocks = 941, sb_ninodes = 200, sb_nlog = 30, sb_logstart = 2, sb_inodestart = 32, sb_bmapstart = 58\<rparr>"

definition boot_disk :: "u32 \<Rightarrow> u8 list" where
  "boot_disk n = (if n = 1 then put_superblock boot_sb (replicate 512 0)
     else if n = 58 then replicate 7 255 @ 7 # replicate 504 0 else replicate 512 0)"

definition boot_fs :: "(u32 \<Rightarrow> u8 list) \<Rightarrow> inode list \<Rightarrow> 'z \<Rightarrow> 'z fs_scheme" where
  "boot_fs D ns z = (boot_log D (fs_ext boot_sb ns z))\<lparr>outstanding := 1\<rparr>"

lemma boot_fs_fields: "sb (boot_fs D ns z) = boot_sb" "inodes (boot_fs D ns z) = ns"
  by (simp_all add: boot_fs_def boot_log_def boot_bio_def binit_def)

lemma outstanding_update [simp]:
  "cache_ok (s\<lparr>outstanding := k\<rparr>) = cache_ok s" "locks (s\<lparr>outstanding := k\<rparr>) = locks s"
  by (simp_all add: cache_ok_def io_ready_def locks_def)

lemma boot_fs_txn:
  assumes "\<forall>n<FSSIZE. length (D n) = BSIZE"
  shows "in_txn 29 {} (boot_fs D ns z)" and "blk (boot_fs D ns z) = D"
  using boot_log_quiet [OF assms, of "fs_ext boot_sb ns z"] boot_log_fields [of D "fs_ext boot_sb ns z"]
  by (simp_all add: in_txn_def boot_fs_def quiet_def)

lemma boot_fs_sb: "sb_ok (boot_fs D ns z)"
  by (simp add: sb_ok_def boot_fs_fields boot_sb_def FSSIZE_def)

lemma boot_disk_length: "\<forall>n<FSSIZE. length (boot_disk n) = BSIZE"
  by (simp add: boot_disk_def put_superblock_def BSIZE_def)

lemma boot_disk_marks:
  assumes "j < 60"
  shows "marked (boot_disk 58) j \<longleftrightarrow> j < 59"
proof -
  have "list_all (\<lambda>j. marked (boot_disk 58) j = (j < 59)) [0..<60]" by code_simp
  with assms show ?thesis by (auto simp: list_all_iff)
qed

section \<open>Properties\<close>

text \<open>C21: the block allocator. \<open>balloc\<close> gives the first block whose bit is clear, sets exactly this bit, clears the block and changes
  nothing else; it panics exactly when all bits are set.\<close>

theorem balloc_correct:
  assumes i: "in_txn (k + 2) {} s" and ok: "sb_ok s" and m: "marked (blk s (bmap_block s)) (unat (bmap_block s))"
  shows "if \<exists>j<unat (sb_size (sb s)). \<not> marked (blk s (bmap_block s)) j
    then \<exists>a t. balloc 1 s = Some (a, t) \<and> in_txn k {} t \<and> a < sb_size (sb s) \<and> \<not> marked (blk s (bmap_block s)) (unat a) \<and>
      (\<forall>j<unat a. marked (blk s (bmap_block s)) j) \<and> blk t a = replicate BSIZE 0 \<and>
      (\<forall>j. marked (blk t (bmap_block s)) j \<longleftrightarrow> j = unat a \<or> marked (blk s (bmap_block s)) j) \<and>
      (\<forall>n. n \<noteq> a \<and> n \<noteq> bmap_block s \<longrightarrow> blk t n = blk s n) \<and> inodes t = inodes s
    else balloc 1 s = None"
proof (cases "\<exists>j<unat (sb_size (sb s)). \<not> marked (blk s (bmap_block s)) j")
  case True
  let ?m = "blk s (bmap_block s)"
  obtain a t where t: "balloc 1 s = Some (a, t)" "a < sb_size (sb s)" "a \<noteq> bmap_block s" "\<not> marked ?m (unat a)" "\<forall>j<unat a. marked ?m j"
    "wrote 2 s t ((blk s)(bmap_block s := mark (unat a) ?m, a := replicate BSIZE 0))"
    using balloc_result [OF i ok m True] by blast
  have "\<forall>j. marked (blk t (bmap_block s)) j \<longleftrightarrow> j = unat a \<or> marked ?m j"
    using wrote_blk [OF t(6)] t(3) marked_mark [OF bitmap_length [OF i ok t(2)]] by simp
  moreover have "in_txn k {} t" using in_txn_wrote [of 2 k] i t(6) by (simp add: ac_simps)
  ultimately show ?thesis unfolding if_P [OF True] using t(1-5) wrote_fs(1) [OF t(6)] wrote_blk [OF t(6)]
    by (intro exI [of _ a] exI [of _ t] conjI) simp_all
next
  case False
  then have "balloc 1 s = None" using balloc_full [of "k + 1" "{}" s] i ok by auto
  with False show ?thesis by simp
qed

theorem balloc_correct_witness:
  "\<exists>t. balloc 1 (boot_fs boot_disk [] ()) = Some (59, t) \<and> blk t 59 = replicate 512 0"
proof -
  let ?s = "boot_fs boot_disk [] ()"
  note b = boot_fs_txn [OF boot_disk_length, of "[]" "()"]
  note m = boot_disk_marks
  have e: "blk ?s (bmap_block ?s) = boot_disk 58" "unat (bmap_block ?s) = 58" "unat (sb_size (sb ?s)) = 1000"
    using b(2) by (simp_all add: boot_fs_fields boot_sb_def)
  have i: "in_txn (27 + 2) {} ?s" using b(1) by simp
  have n: "marked (boot_disk 58) 58" "\<exists>j<1000. \<not> marked (boot_disk 58) j" using m [of 58] m [of 59] by (auto intro: exI [of _ 59])
  obtain a t where t: "balloc 1 ?s = Some (a, t)" "\<not> marked (boot_disk 58) (unat a)" "\<forall>j<unat a. marked (boot_disk 58) j"
    "blk t a = replicate BSIZE 0"
    using balloc_correct [OF i boot_fs_sb, unfolded e if_P [OF n(2)], OF n(1)] by blast
  have "\<not> unat a < 59" "\<not> 59 < unat a" using t(2,3) m [of "unat a"] m [of 59] by auto
  then have "unat a = unat (59 :: u32)" by simp
  then have "a = 59" by (simp only: word_unat_eq_iff)
  with t show ?thesis by (auto simp: BSIZE_def)
qed

text \<open>C22: \<open>bfree\<close> undoes \<open>balloc\<close>: freeing the block that was just allocated restores the bitmap, so that of all blocks only the
  freed one has changed, to zeros; freeing it when it was not allocated panics.\<close>

theorem bfree_undoes_balloc:
  assumes i: "in_txn (k + 3) {} s" and ok: "sb_ok s" and sup: "get_superblock (blk s 1) = sb s" "marked (blk s (bmap_block s)) 1"
    and m: "marked (blk s (bmap_block s)) (unat (bmap_block s))" and a: "balloc 1 s = Some (a, t)"
  shows "(\<exists>u. bfree 1 a t = Some u \<and> in_txn k {} u \<and> blk u = (blk s)(a := replicate BSIZE 0)) \<and> bfree 1 a s = None"
proof -
  let ?b = "bmap_block s" let ?m = "blk s ?b"
  have i2: "in_txn (k + 1 + 2) {} s" using i by (simp add: numeral_3_eq_3 numeral_2_eq_2)
  have "\<exists>j<unat (sb_size (sb s)). \<not> marked ?m j"
    using balloc_full [of "k + 2" "{}" s] i ok a by (auto simp: numeral_3_eq_3)
  then have r: "a < sb_size (sb s)" "a \<noteq> ?b" "\<not> marked ?m (unat a)" "wrote 2 s t ((blk s)(?b := mark (unat a) ?m, a := replicate BSIZE 0))"
    using balloc_result [OF i2 ok m] a by auto
  note f = wrote_fs(2) [OF r(4)] and v = wrote_blk [OF r(4)]
  have t: "in_txn (Suc k) {} t" using in_txn_wrote [of 2 "Suc k"] i r(4) by (simp add: numeral_3_eq_3)
  have s: "in_txn (Suc k) {} s" by (rule in_txn_mono [OF i]) simp
  have lt: "a < FSSIZE" using r(1) ok unfolding sb_ok_def by (meson less_le_trans)
  have n1: "a \<noteq> 1" "?b \<noteq> 1" using sup(2) r(3) ok by (auto simp: sb_ok_def)
  have len: "unat a div 8 < length ?m" by (rule bitmap_length [OF i ok r(1)])
  have okt: "sb_ok t" "get_superblock (blk t 1) = sb t" "marked (blk t (bmap_block t)) (unat a)"
    using ok sup(1) v n1 f r(2) marked_mark [OF len] by (simp_all add: sb_ok_def)
  obtain u where u: "bfree 1 a t = Some u" "wrote 1 t u ((blk t)(?b := unmark (unat a) (blk t ?b)))"
    using bfree_spec [OF t okt(1) _ _ okt(2) lt] okt(3) f by auto
  have "blk u = (blk s)(a := replicate BSIZE 0)"
    using wrote_blk [OF u(2)] v r(2) unmark_mark [OF len r(3)] by (auto simp: fun_eq_iff)
  moreover have "in_txn k {} u" using in_txn_wrote [of 1 k] t u(2) by simp
  moreover have "bfree 1 a s = None" using bfree_spec [OF s ok _ _ sup(1) lt] r(3) by simp
  ultimately show ?thesis using u(1) by blast
qed

theorem bfree_undoes_balloc_witness:
  "\<exists>t u. balloc 1 (boot_fs boot_disk [] ()) = Some (59, t) \<and> bfree 1 59 t = Some u \<and> blk u = boot_disk"
proof -
  let ?s = "boot_fs boot_disk [] ()"
  note b = boot_fs_txn [OF boot_disk_length, of "[]" "()"]
  note m = boot_disk_marks
  have e: "bmap_block ?s = 58" "blk ?s = boot_disk" using b(2) by (simp_all add: boot_fs_fields boot_sb_def)
  have m58: "marked (blk ?s (bmap_block ?s)) (unat (bmap_block ?s))" "marked (blk ?s (bmap_block ?s)) 1" using m e by simp_all
  have sup: "get_superblock (blk ?s 1) = sb ?s" using e by (simp add: boot_disk_def get_superblock_put boot_fs_fields)
  have i: "in_txn (26 + 3) {} ?s" using b(1) by simp
  obtain t where t: "balloc 1 ?s = Some (59, t)"
    using balloc_spec [of 27 "{}" ?s 59] b(1) boot_fs_sb [of boot_disk "[]" "()"] m e by (auto simp: boot_fs_fields boot_sb_def)
  obtain u where u: "bfree 1 59 t = Some u" "blk u = (blk ?s)(59 := replicate BSIZE 0)"
    using bfree_undoes_balloc [OF i boot_fs_sb sup m58(2,1) t] by blast
  have "(blk ?s)(59 := replicate BSIZE 0) = boot_disk" using e by (auto simp: fun_eq_iff boot_disk_def BSIZE_def)
  with t u show ?thesis by auto
qed

end
