(* ===== verification/FsFile.thy ===== *)
theory FsFile
  imports FsInv
begin

text \<open>
  The contents of a file. \<open>amap as v bn\<close> is the address of block \<open>bn\<close> of the file with the address list \<open>as\<close> when the blocks look
  like \<open>v\<close>, 0 for a hole; \<open>fbyte as v k\<close> is byte \<open>k\<close> of the file, 0 in a hole. \<open>readi\<close> returns these bytes.
\<close>

section \<open>The block map of a file\<close>

definition amap :: "u32 list \<Rightarrow> (u32 \<Rightarrow> u8 list) \<Rightarrow> nat \<Rightarrow> u32" where
  "amap as v bn = (if bn < NDIRECT then as ! bn else if as ! NDIRECT = 0 then 0 else get32 (v (as ! NDIRECT)) (4 * (bn - NDIRECT)))"

definition fbyte :: "u32 list \<Rightarrow> (u32 \<Rightarrow> u8 list) \<Rightarrow> nat \<Rightarrow> u8" where
  "fbyte as v k = (if amap as v (k div BSIZE) = 0 then 0 else v (amap as v (k div BSIZE)) ! (k mod BSIZE))"

abbreviation ino_addrs :: "'z fs_scheme \<Rightarrow> nat \<Rightarrow> u32 list" where
  "ino_addrs s ip \<equiv> i_addrs (inodes s ! ip)"

text \<open>The first \<open>nb\<close> blocks of the file are all there.\<close>

definition mapped :: "u32 list \<Rightarrow> (u32 \<Rightarrow> u8 list) \<Rightarrow> nat \<Rightarrow> bool" where
  "mapped as v nb \<longleftrightarrow> nb \<le> MAXFILE \<and> as ! NDIRECT < FSSIZE \<and> (\<forall>bn<nb. amap as v bn \<noteq> 0 \<and> amap as v bn < FSSIZE)"

section \<open>Reading\<close>

lemma read_did:
  fixes s :: "'z fs_scheme"
  assumes q: "quiet s" and n: "n < FSSIZE"
  shows "\<exists>i u t. bread 1 n s = Some (i, u) \<and> data (bufs u ! i) = blk s n \<and> inodes u = inodes s \<and> brelse i u = Some t \<and> did s t []"
proof -
  obtain i u where u: "bread 1 n s = Some (i, u)" "after_bread s n i u"
    using q n bread_spec [of s n] by (auto simp: quiet_def)
  obtain t where "brelse i u = Some t" "did s t []" using after_bread_release [OF q u(2)] by blast
  then show ?thesis using u fs_frame(1) [of s u] by (auto simp: after_bread_def)
qed

lemma did_same:
  fixes s :: "'z fs_scheme"
  assumes "did s t []"
  shows "blk t = blk s" "inodes t = inodes s" "sb t = sb s" "pinned t = pinned s" "outstanding t = outstanding s" "quiet t"
proof -
  have f: "cache_frame s t" using assms by (simp add: did_def)
  show "blk t = blk s" "inodes t = inodes s" "sb t = sb s" "pinned t = pinned s" "outstanding t = outstanding s" "quiet t"
    using assms fs_frame [OF f] log_frame [OF f] by (simp_all add: did_def)
qed

lemma bmap_mapped:
  fixes s :: "'z fs_scheme"
  assumes q: "quiet s" and d: "i_dev (inodes s ! ip) = 1" and m: "mapped (ino_addrs s ip) (blk s) nb" and bn: "unat bn < nb"
  shows "\<exists>t. bmap ip bn s = Some (amap (ino_addrs s ip) (blk s) (unat bn), t) \<and> did s t []"
proof (cases "unat bn < NDIRECT")
  case True
  then show ?thesis using m bn did_refl [OF q] by (auto simp: bmap_def mapped_def amap_def Let_def)
next
  case False
  let ?a = "ino_addrs s ip ! NDIRECT"
  have a: "amap (ino_addrs s ip) (blk s) (unat bn) \<noteq> 0" "nb \<le> MAXFILE" "?a < FSSIZE" using m bn by (auto simp: mapped_def)
  then have n: "?a \<noteq> 0" "get32 (blk s ?a) (4 * (unat bn - NDIRECT)) \<noteq> 0" using False by (auto simp: amap_def split: if_splits)
  obtain i u t where u: "bread 1 ?a s = Some (i, u)" "data (bufs u ! i) = blk s ?a" "brelse i u = Some t" "did s t []"
    using read_did [OF q a(3)] by blast
  have "unat bn - NDIRECT < NINDIRECT" using bn a(2) False by (simp add: MAXFILE_def)
  then show ?thesis using False n u d by (auto simp: bmap_def amap_def Let_def)
qed

lemma div_word_block: "unat (off div of_nat BSIZE) = unat (off :: u32) div BSIZE"
  by (simp add: BSIZE_def unat_div)

lemma div_run:
  assumes "x mod B + i < (B :: nat)"
  shows "(x + i) div B = x div B" and "(x + i) mod B = x mod B + i"
proof -
  have e: "x + i = (x mod B + i) + (x div B) * B" using div_mult_mod_eq [of x B] by linarith
  have b: "B \<noteq> 0" using assms by auto
  show "(x + i) div B = x div B" unfolding e using assms div_mult_self1 [OF b, of "x mod B + i" "x div B"] by simp
  show "(x + i) mod B = x mod B + i" unfolding e using assms by (simp only: mod_mult_self1) simp
qed

text \<open>A run of bytes that stays inside one block.\<close>

lemma block_run:
  assumes "amap as v (o1 div BSIZE) \<noteq> 0" and "o1 mod BSIZE + m \<le> BSIZE" and "length (v (amap as v (o1 div BSIZE))) = BSIZE"
  shows "take m (drop (o1 mod BSIZE) (v (amap as v (o1 div BSIZE)))) = map (fbyte as v) [o1..<o1 + m]"
proof (rule nth_equalityI)
  show "length (take m (drop (o1 mod BSIZE) (v (amap as v (o1 div BSIZE))))) = length (map (fbyte as v) [o1..<o1 + m])"
    using assms by simp
  fix i assume "i < length (take m (drop (o1 mod BSIZE) (v (amap as v (o1 div BSIZE)))))"
  then have i: "i < m" by simp
  then have "o1 mod BSIZE + i < BSIZE" using assms(2) by simp
  note r = div_run [OF this]
  with i assms show "take m (drop (o1 mod BSIZE) (v (amap as v (o1 div BSIZE)))) ! i = map (fbyte as v) [o1..<o1 + m] ! i"
    by (simp add: fbyte_def r)
qed

declare readi_loop.simps [simp del] writei_loop.simps [simp del]

lemma readi_loop_spec:
  fixes s :: "'z fs_scheme"
  shows "quiet s \<Longrightarrow> i_dev (inodes s ! ip) = 1 \<Longrightarrow> mapped (ino_addrs s ip) (blk s) nb \<Longrightarrow> unat off + n \<le> nb * BSIZE \<Longrightarrow>
   \<exists>t. readi_loop ip off n s = Some (map (fbyte (ino_addrs s ip) (blk s)) [unat off..<unat off + n], t) \<and> did s t []"
proof (induction n arbitrary: off s rule: less_induct)
  case (less n)
  note 1 = less
  show ?case
  proof (cases "n = 0")
    case True
    then show ?thesis using did_refl [OF 1(2)] by (simp add: readi_loop.simps)
  next
    case False
    let ?as = "ino_addrs s ip" let ?a = "amap ?as (blk s) (unat off div BSIZE)" let ?o = "unat off mod BSIZE" let ?m = "min n (BSIZE - ?o)"
    have nb: "nb \<le> 140" using 1(4) by (simp add: mapped_def MAXFILE_def NDIRECT_def NINDIRECT_def BSIZE_def)
    have bn: "unat off div BSIZE < nb" using False 1(5) by (simp add: less_mult_imp_div_less)
    obtain t1 where t1: "bmap ip (off div of_nat BSIZE) s = Some (?a, t1)" "did s t1 []"
      using bmap_mapped [OF 1(2-4), of "off div of_nat BSIZE"] bn by (auto simp: div_word_block)
    note f1 = did_same [OF t1(2)]
    have a: "?a \<noteq> 0" "?a < FSSIZE" using 1(4) bn by (auto simp: mapped_def)
    obtain i u t2 where u: "bread 1 ?a t1 = Some (i, u)" "data (bufs u ! i) = blk t1 ?a" "inodes u = inodes t1" "brelse i u = Some t2" "did t1 t2 []"
      using read_did [OF f1(6) a(2)] by blast
    note f2 = did_same [OF u(5)]
    have o: "?o < BSIZE" "0 < ?m" "?o + ?m \<le> BSIZE" using False by (simp_all add: BSIZE_def)
    have off': "unat (off + of_nat ?m) = unat off + ?m"
      using 1(5) nb by (simp add: unat_word_ariths unat_of_nat take_bit_nat_eq_self BSIZE_def)
    obtain t3 where t3: "readi_loop ip (off + of_nat ?m) (n - ?m) t2 =
        Some (map (fbyte ?as (blk s)) [unat off + ?m..<unat off + n], t3)" "did t2 t3 []"
      using 1(1) [of "n - ?m" t2 "off + of_nat ?m"] 1(3-5) f1 f2 off' o(2) False by auto
    have "take ?m (drop ?o (blk s ?a)) = map (fbyte ?as (blk s)) [unat off..<unat off + ?m]"
      using block_run [OF a(1) o(3)] length_blk [OF 1(2) a(2)] by simp
    moreover have "[unat off..<unat off + n] = [unat off..<unat off + ?m] @ [unat off + ?m..<unat off + n]"
      using upt_add_eq_append [of "unat off" "unat off + ?m" "n - ?m"] by simp
    moreover have "did s t3 []" using did_trans [OF did_trans [OF t1(2) u(5)] t3(2)] by simp
    ultimately show ?thesis using False t1(1) u t3(1) f1 1(3) by (subst readi_loop.simps) (simp add: Let_def)
  qed
qed

text \<open>A regular file or directory whose size and blocks agree.\<close>

definition file_ok :: "'z fs_scheme \<Rightarrow> nat \<Rightarrow> bool" where
  "file_ok s ip \<longleftrightarrow> i_type (inodes s ! ip) \<noteq> T_DEV \<and> i_dev (inodes s ! ip) = 1 \<and> unat (i_size (inodes s ! ip)) \<le> MAXFILE * BSIZE \<and>
     mapped (ino_addrs s ip) (blk s) ((unat (i_size (inodes s ! ip)) + BSIZE - 1) div BSIZE)"

lemma ceil_block: "n \<le> ((n + BSIZE - 1) div BSIZE) * BSIZE"
  using div_mult_mod_eq [of "n + BSIZE - 1" BSIZE] mod_less_divisor [of BSIZE "n + BSIZE - 1"] by (simp add: BSIZE_def)

lemma maxfile: "MAXFILE * BSIZE = 71680"
  by (simp add: MAXFILE_def NDIRECT_def NINDIRECT_def BSIZE_def)

lemma sint_of_nat_small: "k < 2 ^ 31 \<Longrightarrow> sint (of_nat k :: u32) = int k"
  by (simp add: signed_of_nat signed_take_bit_int_eq_self)

lemma sint_small: "unat (n :: u32) < 2 ^ 31 \<Longrightarrow> sint n = int (unat n)"
  using sint_of_nat_small [of "unat n"] by simp

lemma word_overflow: "off + n < off \<longleftrightarrow> unat off + unat n \<ge> 2 ^ 32" for off n :: u32
proof (cases "unat off + unat n < 2 ^ 32")
  case True
  then have "unat (off + n) = unat off + unat n" by (simp add: unat_word_ariths)
  with True show ?thesis by (simp add: word_less_nat_alt)
next
  case False
  moreover have "unat off < 2 ^ 32" "unat n < 2 ^ 32" using unsigned_less [of off] unsigned_less [of n] by simp_all
  ultimately have "unat (off + n) = unat off + unat n - 2 ^ 32" by (simp add: unat_word_ariths le_mod_geq)
  with False \<open>unat n < 2 ^ 32\<close> show ?thesis by (simp add: word_less_nat_alt)
qed

section \<open>Properties\<close>

text \<open>C23: \<open>readi\<close> returns the bytes of the file: of a file whose blocks are all there, those from \<open>off\<close> on, at most \<open>n\<close> and
  none past the end of the file; an offset past the end, or an overflow of offset plus length, gives -1.
  The blocks and the inode stay as they are.\<close>

theorem readi_correct:
  fixes s :: "'z fs_scheme"
  assumes q: "quiet s" and f: "file_ok s ip" and sz_def: "sz = unat (i_size (inodes s ! ip))"
  shows "if unat off > sz \<or> unat off + unat n \<ge> 2 ^ 32 then readi dv ip off n s = Some (- 1, [], s)
    else \<exists>t. readi dv ip off n s = Some (int (min (unat n) (sz - unat off)),
        map (fbyte (ino_addrs s ip) (blk s)) [unat off..<min (unat off + unat n) sz], t) \<and>
      blk t = blk s \<and> inodes t = inodes s \<and> quiet t"
proof -
  have g: "i_type (inodes s ! ip) \<noteq> T_DEV" "i_dev (inodes s ! ip) = 1" "sz \<le> 71680"
    "mapped (ino_addrs s ip) (blk s) ((sz + BSIZE - 1) div BSIZE)" using f by (simp_all add: file_ok_def sz_def maxfile)
  note ov = word_overflow [of off n]
  show ?thesis
  proof (cases "unat off > sz \<or> unat off + unat n \<ge> 2 ^ 32")
    case True
    then have "off > i_size (inodes s ! ip) \<or> off + n < off" using ov by (auto simp: word_less_nat_alt sz_def)
    with True g(1) show ?thesis by (simp add: readi_def Let_def)
  next
    case False
    let ?n = "if off + n > i_size (inodes s ! ip) then i_size (inodes s ! ip) - off else n"
    have c: "\<not> (off > i_size (inodes s ! ip) \<or> off + n < off)" using False ov by (auto simp: word_less_nat_alt sz_def)
    have un: "unat ?n = min (unat n) (sz - unat off)"
      using False by (auto simp: word_less_nat_alt word_le_nat_alt unat_word_ariths unat_sub sz_def)
    have eq: "unat off + unat ?n = min (unat off + unat n) sz" unfolding un using False by (auto simp: min_def)
    have le: "unat off + unat ?n \<le> ((sz + BSIZE - 1) div BSIZE) * BSIZE" unfolding eq using ceil_block [of sz] by linarith
    obtain t where t: "readi_loop ip off (unat ?n) s =
        Some (map (fbyte (ino_addrs s ip) (blk s)) [unat off..<unat off + unat ?n], t)" "did s t []"
      using readi_loop_spec [OF q g(2,4) le] by blast
    have "sint ?n = int (unat ?n)" using un g(3) by (intro sint_small) simp
    then have "readi dv ip off n s = Some (int (unat ?n), map (fbyte (ino_addrs s ip) (blk s)) [unat off..<unat off + unat ?n], t)"
      using c t(1) g(1) by (simp add: readi_def Let_def)
    then have "readi dv ip off n s = Some (int (min (unat n) (sz - unat off)),
        map (fbyte (ino_addrs s ip) (blk s)) [unat off..<min (unat off + unat n) sz], t)" unfolding eq unfolding un .
    then show ?thesis unfolding if_not_P [OF False] using did_same [OF t(2)] by blast
  qed
qed

text \<open>A file of 600 bytes in blocks 59 and 60 of an otherwise empty disk.\<close>

definition ex_inode :: inode where
  "ex_inode = \<lparr>i_dev = 1, i_inum = 1, i_ref = 1, i_lock = \<lparr>sl_locked = True, sl_pid = 1\<rparr>, i_valid = True, i_type = T_FILE, i_major = 0,
     i_minor = 0, i_nlink = 1, i_size = 600, i_addrs = 59 # 60 # replicate 11 0\<rparr>"

definition ex_disk :: "u32 \<Rightarrow> u8 list" where
  "ex_disk n = (if n = 59 then replicate 512 3 else if n = 60 then replicate 512 4 else boot_disk n)"

lemma ex_disk_length: "\<forall>n<FSSIZE. length (ex_disk n) = BSIZE"
  using boot_disk_length by (simp add: ex_disk_def BSIZE_def)

lemma boot_fs_quiet:
  assumes "\<forall>n<FSSIZE. length (D n) = BSIZE"
  shows "quiet (boot_fs D ns z)"
  using boot_log_quiet(1) [OF assms] by (simp add: boot_fs_def)

theorem readi_correct_witness:
  "\<exists>t. readi \<lparr>dv_read = Map.empty, dv_write = Map.empty\<rparr> 0 510 100 (boot_fs ex_disk [ex_inode] ()) = Some (90, [3, 3] @ replicate 88 4, t)"
proof -
  let ?s = "boot_fs ex_disk [ex_inode] ()"
  note b = boot_fs_txn(2) [OF ex_disk_length, of "[ex_inode]" "()"]
  have "mapped (i_addrs ex_inode) ex_disk 2"
    by (auto simp: mapped_def less_2_cases_iff amap_def ex_inode_def NDIRECT_def MAXFILE_def FSSIZE_def)
  then have f: "file_ok ?s 0" by (simp add: file_ok_def boot_fs_fields b) (simp add: ex_inode_def T_DEV_def T_FILE_def MAXFILE_def NDIRECT_def NINDIRECT_def BSIZE_def)
  have fb: "fbyte (i_addrs ex_inode) ex_disk k = (if k < 512 then 3 else 4)" if "k < 600" for k
  proof -
    have "k div 512 = 0 \<or> k div 512 = 1" using that by auto
    then show ?thesis using that by (auto simp: fbyte_def amap_def ex_inode_def NDIRECT_def BSIZE_def ex_disk_def div_eq_0_iff)
  qed
  have m: "map (fbyte (i_addrs ex_inode) ex_disk) [510..<600] = [3, 3] @ replicate 88 4"
    by (rule nth_equalityI) (auto simp: fb nth_Cons' nth_append)
  have sz: "600 = unat (i_size (inodes ?s ! 0))" by (simp add: boot_fs_fields ex_inode_def)
  have e: "unat (510 :: u32) = 510" "unat (100 :: u32) = 100" "min (510 + 100) 600 = (600 :: nat)" "min 100 (600 - 510) = (90 :: nat)"
    "inodes ?s ! 0 = ex_inode" "int 90 = 90" by (simp_all add: boot_fs_fields)
  have c: "\<not> (510 > (600 :: nat) \<or> 510 + 100 \<ge> (2 :: nat) ^ 32)" by simp
  note r = readi_correct [OF boot_fs_quiet [OF ex_disk_length] f sz, where off = 510 and n = 100, unfolded e if_not_P [OF c] b m]
  then show ?thesis by blast
qed

lemma log_write_outside: "outstanding s = 0 \<Longrightarrow> log_write i s = None"
  by (simp add: log_write_def Let_def)

lemma balloc_outside:
  fixes s :: "'z fs_scheme"
  assumes q: "quiet s" and ok: "sb_ok s" and o: "outstanding s = 0"
  shows "balloc 1 s = None"
proof -
  let ?b = "bmap_block s"
  have b: "?b < FSSIZE" using ok by (simp add: sb_ok_def)
  obtain i u where u: "bread 1 ?b s = Some (i, u)" "after_bread s ?b i u" using q b bread_spec [of s ?b] by (auto simp: quiet_def)
  have f: "cache_frame s u" using u(2) by (simp add: after_bread_def)
  have n: "log_write i (set_data i x u) = None" for x
    by (rule log_write_outside) (use log_frame(3) [OF f] o in \<open>simp add: set_data_def upd_buf_def\<close>)
  obtain t where "brelse i u = Some t" using after_bread_release [OF q u(2)] by blast
  then show ?thesis using u(1) n fs_frame(2) [OF f] unfolding balloc_def balloc_rounds [OF ok]
    by (simp add: BBLOCK_0 Let_def split: option.split)
qed

text \<open>C25: a hole cannot be read outside of a transaction. When a block of the file is missing, \<open>readi\<close> allocates it; outside of
  \<open>begin_op\<close> and \<open>end_op\<close>, where \<open>fileread\<close> calls it, the allocation makes \<open>log_write\<close> panic. The root directory that \<^verbatim>\<open>mkfs.c\<close>
  makes has such a block when its entries fill their last block, since its size is then rounded up by a whole block.\<close>

theorem readi_hole_panics:
  fixes s :: "'z fs_scheme"
  assumes q: "quiet s" and ok: "sb_ok s" and o: "outstanding s = 0" and f: "i_type (inodes s ! ip) \<noteq> T_DEV" "i_dev (inodes s ! ip) = 1"
    and hole: "unat off div BSIZE < NDIRECT" "ino_addrs s ip ! (unat off div BSIZE) = 0"
    and off: "off < i_size (inodes s ! ip)" "0 < n" "unat off + unat n < 2 ^ 32"
  shows "readi dv ip off n s = None"
proof -
  let ?n = "if off + n > i_size (inodes s ! ip) then i_size (inodes s ! ip) - off else n"
  have "?n \<noteq> 0" using off(1,2) by auto
  then have "unat ?n \<noteq> 0" by (simp only: unat_eq_zero simp_thms)
  moreover have "bmap ip (off div of_nat BSIZE) s = None"
    using hole f(2) balloc_outside [OF q ok o] by (simp add: bmap_def div_word_block Let_def)
  ultimately have "readi_loop ip off (unat ?n) s = None" by (subst readi_loop.simps) simp
  moreover have "\<not> (off > i_size (inodes s ! ip) \<or> off + n < off)" using off(1,3) word_overflow [of off n] by auto
  ultimately show ?thesis using f(1) by (simp add: readi_def Let_def)
qed

theorem readi_hole_panics_witness:
  "readi \<lparr>dv_read = Map.empty, dv_write = Map.empty\<rparr> 0 512 16
     ((boot_fs boot_disk [ex_inode\<lparr>i_type := T_DIR, i_size := 1024, i_addrs := 59 # replicate 12 0\<rparr>] ())\<lparr>outstanding := 0\<rparr>) = None"
proof -
  let ?s = "(boot_fs boot_disk [ex_inode\<lparr>i_type := T_DIR, i_size := 1024, i_addrs := 59 # replicate 12 0\<rparr>] ())\<lparr>outstanding := 0\<rparr>"
  have "quiet ?s" "sb_ok ?s" using boot_fs_quiet [OF boot_disk_length] boot_fs_sb by (simp_all add: sb_ok_def)
  then show ?thesis
    by (rule readi_hole_panics) (simp_all add: boot_fs_fields ex_inode_def T_DIR_def T_DEV_def BSIZE_def NDIRECT_def)
qed

end
