(* ===== verification/File.thy ===== *)
theory File
  imports Fs Pipe
begin

text \<open>
  Open files, \<^verbatim>\<open>file.c\<close>, and the parts of \<^verbatim>\<open>pipe.c\<close> that create pipes and connect them to files. A \<^verbatim>\<open>struct file\<close>
  pointer is an index into \<^verbatim>\<open>ftable.file\<close>. The pipe in the page at address \<open>p\<close> is \<open>pipes s p\<close>. Reads and writes
  of a pipe are the segments of the theory \<^verbatim>\<open>Pipe\<close>; a segment that ends asleep gives \<open>None\<close> here.
\<close>

section \<open>State\<close>

datatype fdtype = FD_NONE | FD_PIPE | FD_INODE

record file_struct =
  f_type :: fdtype
  f_ref :: int
  f_readable :: bool
  f_writable :: bool
  f_pipe :: u32
  f_ip :: nat
  f_off :: u32

record files = fs +
  ftable :: "file_struct list"
  pipes :: "u32 \<Rightarrow> pipe"

definition upd_file :: "nat \<Rightarrow> (file_struct \<Rightarrow> file_struct) \<Rightarrow> 'z files_scheme \<Rightarrow> 'z files_scheme" where
  "upd_file f g s = s\<lparr>ftable := (ftable s)[f := g (ftable s ! f)]\<rparr>"

section \<open>Allocation and reference counts\<close>

definition filealloc :: "'z files_scheme \<Rightarrow> (nat option \<times> 'z files_scheme) option" where
  "filealloc s = do {
     s \<leftarrow> acquire LFtable s;
     case first_index (\<lambda>f. f_ref f = 0) (ftable s) of
       Some f \<Rightarrow> do {
         s \<leftarrow> release LFtable (upd_file f (\<lambda>x. x\<lparr>f_ref := 1\<rparr>) s);
         Some (Some f, s) }
     | None \<Rightarrow> do {
         s \<leftarrow> release LFtable s;
         Some (None, s) } }"

definition filedup :: "nat \<Rightarrow> 'z files_scheme \<Rightarrow> (nat \<times> 'z files_scheme) option" where
  "filedup f s = do {
     s \<leftarrow> acquire LFtable s;
     if f_ref (ftable s ! f) < 1 then None
     else do {
       s \<leftarrow> release LFtable (upd_file f (\<lambda>x. x\<lparr>f_ref := f_ref x + 1\<rparr>) s);
       Some (f, s) } }"

text \<open>\<^verbatim>\<open>pipeclose\<close> on the pipe in page \<open>p\<close>.\<close>

definition close_pipe :: "u32 \<Rightarrow> bool \<Rightarrow> 'z files_scheme \<Rightarrow> 'z files_scheme option" where
  "close_pipe p writable s = do {
     s \<leftarrow> acquire (LPipe p) s;
     let (q, free) = pipeclose writable (pipes s p);
     let s = s\<lparr>pipes := (pipes s)(p := q)\<rparr>;
     s \<leftarrow> wakeup (if writable then CPipeRead p else CPipeWrite p) s;
     s \<leftarrow> release (LPipe p) s;
     if free then kfree p s else Some s }"

definition fileclose :: "nat \<Rightarrow> 'z files_scheme \<Rightarrow> 'z files_scheme option" where
  "fileclose f s = do {
     s \<leftarrow> acquire LFtable s;
     if f_ref (ftable s ! f) < 1 then None
     else do {
       let s = upd_file f (\<lambda>x. x\<lparr>f_ref := f_ref x - 1\<rparr>) s;
       if f_ref (ftable s ! f) > 0 then release LFtable s
       else do {
         let ff = ftable s ! f;
         s \<leftarrow> release LFtable (upd_file f (\<lambda>x. x\<lparr>f_ref := 0, f_type := FD_NONE\<rparr>) s);
         case f_type ff of
           FD_PIPE \<Rightarrow> close_pipe (f_pipe ff) (f_writable ff) s
         | FD_INODE \<Rightarrow> do { s \<leftarrow> begin_op s; s \<leftarrow> iput (f_ip ff) s; end_op s }
         | FD_NONE \<Rightarrow> Some s } } }"

text \<open>\<open>pipealloc\<close>: the two files, or the failure and what it gives back.\<close>

definition pipealloc_bad :: "nat option \<Rightarrow> nat option \<Rightarrow> 'z files_scheme \<Rightarrow> ((nat \<times> nat) option \<times> 'z files_scheme) option" where
  "pipealloc_bad f0 f1 s = do {
     s \<leftarrow> (case f0 of None \<Rightarrow> Some s | Some f \<Rightarrow> fileclose f s);
     s \<leftarrow> (case f1 of None \<Rightarrow> Some s | Some f \<Rightarrow> fileclose f s);
     Some (None, s) }"

definition pipealloc :: "'z files_scheme \<Rightarrow> ((nat \<times> nat) option \<times> 'z files_scheme) option" where
  "pipealloc s = do {
     (f0, s) \<leftarrow> filealloc s;
     case f0 of None \<Rightarrow> pipealloc_bad None None s
     | Some r \<Rightarrow> do {
         (f1, s) \<leftarrow> filealloc s;
         case f1 of None \<Rightarrow> pipealloc_bad (Some r) None s
         | Some w \<Rightarrow> do {
             (p, s) \<leftarrow> kalloc s;
             if p = 0 then pipealloc_bad (Some r) (Some w) s
             else do {
               let s = s\<lparr>pipes := (pipes s)(p := pipe_init (pdata (pipes s p)))\<rparr>;
               let s = upd_file r (\<lambda>x. x\<lparr>f_type := FD_PIPE, f_readable := True, f_writable := False, f_pipe := p\<rparr>) s;
               let s = upd_file w (\<lambda>x. x\<lparr>f_type := FD_PIPE, f_readable := False, f_writable := True, f_pipe := p\<rparr>) s;
               Some (Some (r, w), s) } } } }"

section \<open>Reading and writing\<close>

definition filestat :: "nat \<Rightarrow> 'z files_scheme \<Rightarrow> (stat option \<times> 'z files_scheme) option" where
  "filestat f s =
     (let ff = ftable s ! f in
      if f_type ff = FD_INODE then do {
        s \<leftarrow> ilock (f_ip ff) s;
        let st = stati (f_ip ff) s;
        s \<leftarrow> iunlock (f_ip ff) s;
        Some (Some st, s) }
      else Some (None, s))"

definition read_pipe :: "u32 \<Rightarrow> u32 \<Rightarrow> int \<Rightarrow> 'z files_scheme \<Rightarrow> (int \<times> 'z files_scheme) option" where
  "read_pipe p addr n s = do {
     c \<leftarrow> cur_proc s;
     s \<leftarrow> acquire (LPipe p) s;
     case piperead (p_killed c) (nat n) (pipes s p) of
       (PReadRet r bs, q, wake) \<Rightarrow> do {
         s \<leftarrow> ustore_bytes (p_pgdir c) addr bs (s\<lparr>pipes := (pipes s)(p := q)\<rparr>);
         s \<leftarrow> (if wake then wakeup (CPipeWrite p) s else Some s);
         s \<leftarrow> release (LPipe p) s;
         Some (r, s) }
     | _ \<Rightarrow> None }"

definition write_pipe :: "u32 \<Rightarrow> u32 \<Rightarrow> int \<Rightarrow> 'z files_scheme \<Rightarrow> (int \<times> 'z files_scheme) option" where
  "write_pipe p addr n s = do {
     c \<leftarrow> cur_proc s;
     s \<leftarrow> acquire (LPipe p) s;
     bs \<leftarrow> uload_bytes (p_pgdir c) addr (nat n) s;
     case pipewrite (p_killed c) bs n (pipes s p) of
       (PWriteRet r, q, wake) \<Rightarrow> do {
         let s = s\<lparr>pipes := (pipes s)(p := q)\<rparr>;
         s \<leftarrow> (if wake then wakeup (CPipeRead p) s else Some s);
         s \<leftarrow> release (LPipe p) s;
         Some (r, s) }
     | _ \<Rightarrow> None }"

definition fileread :: "'z files_scheme devsw \<Rightarrow> nat \<Rightarrow> u32 \<Rightarrow> int \<Rightarrow> 'z files_scheme \<Rightarrow> (int \<times> 'z files_scheme) option" where
  "fileread dv f addr n s =
     (let ff = ftable s ! f in
      if \<not> f_readable ff then Some (- 1, s)
      else case f_type ff of
        FD_PIPE \<Rightarrow> read_pipe (f_pipe ff) addr n s
      | FD_INODE \<Rightarrow> do {
          c \<leftarrow> cur_proc s;
          s \<leftarrow> ilock (f_ip ff) s;
          (r, bs, s) \<leftarrow> readi dv (f_ip ff) (f_off (ftable s ! f)) (of_int n) s;
          s \<leftarrow> ustore_bytes (p_pgdir c) addr bs s;
          let s = (if r > 0 then upd_file f (\<lambda>x. x\<lparr>f_off := f_off x + of_int r\<rparr>) s else s);
          s \<leftarrow> iunlock (f_ip ff) s;
          Some (r, s) }
      | FD_NONE \<Rightarrow> None)"

text \<open>The loop of \<open>filewrite\<close> from byte \<open>i\<close> on: the number of bytes written when it stops.\<close>

definition max_write :: int where "max_write = ((LOGSIZE - 1 - 1 - 2) div 2) * 512"

partial_function (option) filewrite_loop ::
  "'z files_scheme devsw \<Rightarrow> nat \<Rightarrow> u32 \<Rightarrow> int \<Rightarrow> int \<Rightarrow> 'z files_scheme \<Rightarrow> (int \<times> 'z files_scheme) option" where
  "filewrite_loop dv f addr n i s =
     (if i < n then do {
        let n1 = (if n - i > max_write then max_write else n - i);
        c \<leftarrow> cur_proc s;
        s \<leftarrow> begin_op s;
        s \<leftarrow> ilock (f_ip (ftable s ! f)) s;
        bs \<leftarrow> uload_bytes (p_pgdir c) (addr + of_int i) (nat n1) s;
        (r, s) \<leftarrow> writei dv (f_ip (ftable s ! f)) bs (f_off (ftable s ! f)) s;
        let s = (if r > 0 then upd_file f (\<lambda>x. x\<lparr>f_off := f_off x + of_int r\<rparr>) s else s);
        s \<leftarrow> iunlock (f_ip (ftable s ! f)) s;
        s \<leftarrow> end_op s;
        if r < 0 then Some (i, s)
        else if r \<noteq> n1 then None
        else filewrite_loop dv f addr n (i + r) s }
      else Some (i, s))"

definition filewrite :: "'z files_scheme devsw \<Rightarrow> nat \<Rightarrow> u32 \<Rightarrow> int \<Rightarrow> 'z files_scheme \<Rightarrow> (int \<times> 'z files_scheme) option" where
  "filewrite dv f addr n s =
     (let ff = ftable s ! f in
      if \<not> f_writable ff then Some (- 1, s)
      else case f_type ff of
        FD_PIPE \<Rightarrow> write_pipe (f_pipe ff) addr n s
      | FD_INODE \<Rightarrow> do {
          (i, s) \<leftarrow> filewrite_loop dv f addr n 0 s;
          Some (if i = n then n else - 1, s) }
      | FD_NONE \<Rightarrow> None)"

end
