(* ===== verification/Sysarg.thy ===== *)
theory Sysarg
  imports Ptable
begin

text \<open>
  The arguments of system calls, the first half of \<^verbatim>\<open>syscall.c\<close>. The arguments are on the user stack above the
  saved program counter; every address is checked against the size of the process before it is used. A result
  \<open>None\<close> inside the pair is the return value -1; \<open>argstr\<close> returns the string itself, which the C code leaves in
  user memory.
\<close>

text \<open>The fields of \<^verbatim>\<open>struct trapframe\<close> by their offsets.\<close>

definition TF_EAX :: u32 where "TF_EAX = 28"
definition TF_ES :: u32 where "TF_ES = 40"
definition TF_DS :: u32 where "TF_DS = 44"
definition TF_EIP :: u32 where "TF_EIP = 56"
definition TF_CS :: u32 where "TF_CS = 60"
definition TF_EFLAGS :: u32 where "TF_EFLAGS = 64"
definition TF_ESP :: u32 where "TF_ESP = 68"
definition TF_SS :: u32 where "TF_SS = 72"
definition sizeof_trapframe :: u32 where "sizeof_trapframe = 76"

definition fetchint :: "u32 \<Rightarrow> 'z ptable_scheme \<Rightarrow> u32 option option" where
  "fetchint addr s = do {
     c \<leftarrow> cur_proc s;
     if addr \<ge> p_sz c \<or> addr + 4 > p_sz c then Some None
     else do {
       w \<leftarrow> uload32 (p_pgdir c) addr s;
       Some (Some w) } }"

text \<open>The scan for the terminating zero: at most \<open>k\<close> bytes from \<open>a\<close> on.\<close>

fun fetchstr_loop :: "u32 \<Rightarrow> u32 \<Rightarrow> nat \<Rightarrow> 'z ptable_scheme \<Rightarrow> u8 list option option" where
  "fetchstr_loop pgdir a 0 s = Some None"
| "fetchstr_loop pgdir a (Suc k) s = do {
     b \<leftarrow> uload pgdir a s;
     if b = 0 then Some (Some [])
     else do {
       r \<leftarrow> fetchstr_loop pgdir (a + 1) k s;
       Some (map_option (Cons b) r) } }"

definition fetchstr :: "u32 \<Rightarrow> 'z ptable_scheme \<Rightarrow> u8 list option option" where
  "fetchstr addr s = do {
     c \<leftarrow> cur_proc s;
     if addr \<ge> p_sz c then Some None
     else fetchstr_loop (p_pgdir c) addr (unat (p_sz c - addr)) s }"

definition argint :: "nat \<Rightarrow> 'z ptable_scheme \<Rightarrow> u32 option option" where
  "argint n s = do {
     c \<leftarrow> cur_proc s;
     fetchint (load32 (mem s) (p_tf c + TF_ESP) + 4 + 4 * of_nat n) s }"

definition argptr :: "nat \<Rightarrow> int \<Rightarrow> 'z ptable_scheme \<Rightarrow> u32 option option" where
  "argptr n sz s = do {
     r \<leftarrow> argint n s;
     case r of
       None \<Rightarrow> Some None
     | Some i \<Rightarrow> do {
         c \<leftarrow> cur_proc s;
         if sz < 0 \<or> i \<ge> p_sz c \<or> i + of_int sz > p_sz c then Some None else Some (Some i) } }"

definition argstr :: "nat \<Rightarrow> 'z ptable_scheme \<Rightarrow> u8 list option option" where
  "argstr n s = do {
     r \<leftarrow> argint n s;
     case r of None \<Rightarrow> Some None | Some addr \<Rightarrow> fetchstr addr s }"

section \<open>Bounds\<close>

lemma word_range:
  fixes i sz :: u32
  assumes "i < sz" and "sz \<le> 0x80000000" and "0 \<le> k" and "k < 2 ^ 31" and "i + of_int k \<le> sz"
  shows "unat i + nat k \<le> unat sz"
proof -
  have k: "of_int k = (of_nat (nat k) :: u32)" "nat k < 2 ^ 31" using assms(3,4) by simp_all
  have "unat i < 2 ^ 31" using assms(1,2) by (simp add: word_less_nat_alt word_le_nat_alt)
  then have "unat (i + of_int k) = unat i + nat k"
    unfolding k(1) using k(2) by (simp add: unat_word_ariths unat_of_nat take_bit_nat_eq_self)
  with assms(5) show ?thesis by (simp add: word_le_nat_alt)
qed

lemma fetchstr_loop_length: "fetchstr_loop d a k s = Some (Some bs) \<Longrightarrow> length bs < k"
  by (induction d a k s arbitrary: bs rule: fetchstr_loop.induct) (auto simp: bind_Some_iff split: if_splits)

text \<open>C24: the arguments of a system call stay inside the memory of the process. When \<open>argptr\<close> accepts a buffer of \<open>k\<close> bytes, the whole
  buffer lies below the size of the process, with no wrap around; when \<open>argstr\<close> accepts a string, the string and its
  terminating zero do.\<close>

theorem arg_bounds:
  assumes c: "cur_proc s = Some c" and sz: "p_sz c \<le> KERNBASE" and k: "k < 2 ^ 31"
  shows "(argptr n k s = Some (Some p) \<longrightarrow> 0 \<le> k \<and> unat p + nat k \<le> unat (p_sz c)) \<and>
    (argint n s = Some (Some a) \<and> argstr n s = Some (Some bs) \<longrightarrow> unat a + length bs < unat (p_sz c))"
proof (intro conjI impI)
  assume a: "argptr n k s = Some (Some p)"
  then obtain r where r: "argint n s = Some r" by (auto simp: argptr_def bind_Some_iff)
  with a obtain i where i: "r = Some i" by (cases r) (simp_all add: argptr_def)
  have "\<not> (k < 0 \<or> i \<ge> p_sz c \<or> i + of_int k > p_sz c) \<and> i = p"
    using a c unfolding argptr_def r i by (simp only: bind.bind_lunit option.case) (metis option.distinct(1) option.inject)
  then have p: "0 \<le> k" "p < p_sz c" "p + of_int k \<le> p_sz c" unfolding not_less not_le de_Morgan_disj by blast+
  then show "0 \<le> k" "unat p + nat k \<le> unat (p_sz c)"
    using word_range [OF p(2) _ p(1) k p(3)] sz by (simp_all add: KERNBASE_def)
next
  assume "argint n s = Some (Some a) \<and> argstr n s = Some (Some bs)"
  then have a: "a < p_sz c" "fetchstr_loop (p_pgdir c) a (unat (p_sz c - a)) s = Some (Some bs)"
    using c by (auto simp: argstr_def fetchstr_def split: if_splits)
  from fetchstr_loop_length [OF a(2)] show "unat a + length bs < unat (p_sz c)"
    using a(1) by (simp add: unat_sub word_less_nat_alt word_le_nat_alt)
qed

text \<open>A process of one page, whose stack holds the address 16.\<close>

definition arg_memory :: memory where
  "arg_memory = store32 (store32 (store32 (\<lambda>_. 0) 0x80400000 0x00401007) 0x80401000 0x00402007) 0x80402004 16"

definition arg_example :: ptable where
  "arg_example = \<lparr>held = [], mem = arg_memory, kend = 0x80108000, use_lock = True, freelist = 0, pg_refcount = (\<lambda>_. 0),
     kpgdir = 0, kdata = 0, cr3 = 0, gdt = [], ts = \<lparr>esp0 = 0, ss0 = 0, iomb = 0\<rparr>, ts_addr = 0, tr = 0,
     procs = [\<lparr>p_sz = 4096, p_pgdir = 0x80400000, p_kstack = 0, p_state = RUNNING, p_pid = 1, p_parent = None, p_tf = 0x80403000,
       p_context = 0, p_chan = None, p_killed = False, p_ofile = [], p_cwd = None, p_name = []\<rparr>],
     myproc = Some 0, initproc = Some 0, nextpid = 2, trapret = 0, forkret_pc = 0\<rparr>"

theorem arg_bounds_witness:
  "argptr 0 100 arg_example = Some (Some 16) \<and> 16 + nat 100 \<le> (4096 :: nat) \<and> argptr 0 5000 arg_example = Some None"
proof -
  have r: "argptr 0 100 arg_example = Some (Some 16)" "argptr 0 5000 arg_example = Some None" by code_simp+
  have c: "cur_proc arg_example = Some (procs arg_example ! 0)" "p_sz (procs arg_example ! 0) = 4096"
    by (simp_all add: cur_proc_def arg_example_def)
  show ?thesis using arg_bounds [OF c(1), of 100 0 16] r c(2) by (simp add: KERNBASE_def)
qed

end
