(* ===== verification/Exec.thy ===== *)
theory Exec
  imports File Sysarg
begin

text \<open>
  \<^verbatim>\<open>exec.c\<close>: load an ELF file into a new address space, build the initial stack and replace the image of the
  current process. \<^verbatim>\<open>goto bad\<close> is the value \<open>None\<close> inside the pair; \<open>exec_bad\<close> is the code at the label.
\<close>

section \<open>elf.h\<close>

definition ELF_MAGIC :: u32 where "ELF_MAGIC = 0x464C457F"
definition ELF_PROG_LOAD :: u32 where "ELF_PROG_LOAD = 1"
definition MAXARG :: nat where "MAXARG = 32"

record elfhdr =
  e_magic :: u32
  e_entry :: u32
  e_phoff :: u32
  e_phnum :: u16

definition sizeof_elfhdr :: nat where "sizeof_elfhdr = 52"

definition get_elfhdr :: "u8 list \<Rightarrow> elfhdr" where
  "get_elfhdr bs = \<lparr>e_magic = get32 bs 0, e_entry = get32 bs 24, e_phoff = get32 bs 28, e_phnum = get16 bs 44\<rparr>"

record proghdr =
  ph_type :: u32
  ph_off :: u32
  ph_vaddr :: u32
  ph_filesz :: u32
  ph_memsz :: u32

definition sizeof_proghdr :: nat where "sizeof_proghdr = 32"

definition get_proghdr :: "u8 list \<Rightarrow> proghdr" where
  "get_proghdr bs = \<lparr>ph_type = get32 bs 0, ph_off = get32 bs 4, ph_vaddr = get32 bs 8, ph_filesz = get32 bs 16,
     ph_memsz = get32 bs 20\<rparr>"

section \<open>exec\<close>

text \<open>\<^verbatim>\<open>readi\<close> to a kernel address, as \<^verbatim>\<open>loaduvm\<close> calls it.\<close>

definition readi_to :: "'z files_scheme devsw \<Rightarrow> nat \<Rightarrow> u32 \<Rightarrow> u32 \<Rightarrow> u32 \<Rightarrow> 'z files_scheme \<Rightarrow> (u32 \<times> 'z files_scheme) option" where
  "readi_to dv ip addr off n s = do {
     (r, bs, s) \<leftarrow> readi dv ip off n s;
     s \<leftarrow> ustore_bytes 0 addr bs s;
     Some (of_int r, s) }"

text \<open>The loop over the program headers, \<open>k\<close> of them from offset \<open>off\<close>.\<close>

fun exec_load ::
  "'z files_scheme devsw \<Rightarrow> nat \<Rightarrow> u32 \<Rightarrow> u32 \<Rightarrow> nat \<Rightarrow> u32 \<Rightarrow> 'z files_scheme \<Rightarrow> (u32 option \<times> 'z files_scheme) option" where
  "exec_load dv ip pgdir off 0 sz s = Some (Some sz, s)"
| "exec_load dv ip pgdir off (Suc k) sz s = do {
     (r, bs, s) \<leftarrow> readi dv ip off (of_nat sizeof_proghdr) s;
     if r \<noteq> int sizeof_proghdr then Some (None, s)
     else
       let ph = get_proghdr bs; off = off + of_nat sizeof_proghdr in
       if ph_type ph \<noteq> ELF_PROG_LOAD then exec_load dv ip pgdir off k sz s
       else if ph_memsz ph < ph_filesz ph then Some (None, s)
       else if ph_vaddr ph + ph_memsz ph < ph_vaddr ph then Some (None, s)
       else do {
         (sz, s) \<leftarrow> allocuvm pgdir sz (ph_vaddr ph + ph_memsz ph) s;
         if sz = 0 then Some (None, s)
         else if ph_vaddr ph mod PGSIZE \<noteq> 0 then Some (None, s)
         else do {
           (r, s) \<leftarrow> loaduvm (readi_to dv ip) pgdir (ph_vaddr ph) (ph_off ph) (ph_filesz ph) s;
           if r < 0 then Some (None, s) else exec_load dv ip pgdir off k sz s } } }"

text \<open>\<^verbatim>\<open>copyout\<close> of bytes that are not at a kernel address: the strings are in the old address space, the words of
  \<^verbatim>\<open>ustack\<close> on the kernel stack.\<close>

partial_function (option) copyout_bytes :: "u32 \<Rightarrow> u32 \<Rightarrow> u8 list \<Rightarrow> 'z vm_scheme \<Rightarrow> (int \<times> 'z vm_scheme) option" where
  "copyout_bytes pgdir va bs s =
     (if bs \<noteq> [] then do {
        let va0 = PGROUNDDOWN va;
        (pa0, s) \<leftarrow> uva2ka pgdir va0 s;
        if pa0 = 0 then Some (-1, s)
        else do {
          let n = min (length bs) (unat (PGSIZE - (va - va0)));
          s \<leftarrow> ustore_bytes 0 (pa0 + (va - va0)) (take n bs) s;
          copyout_bytes pgdir (va0 + PGSIZE) (drop n bs) s } }
      else Some (0, s))"

text \<open>Push the argument strings: the stack pointer and the addresses of the strings.\<close>

fun exec_args :: "u32 \<Rightarrow> nat \<Rightarrow> u8 list list \<Rightarrow> u32 \<Rightarrow> 'z vm_scheme \<Rightarrow> ((u32 \<times> u32 list) option \<times> 'z vm_scheme) option" where
  "exec_args pgdir argc [] sp s = Some (Some (sp, []), s)"
| "exec_args pgdir argc (str # argv) sp s =
     (if argc \<ge> MAXARG then Some (None, s)
      else do {
        let sp = (sp - (of_nat (length str) + 1)) AND NOT 3;
        (r, s) \<leftarrow> copyout_bytes pgdir sp (str @ [0]) s;
        if r < 0 then Some (None, s)
        else do {
          (q, s) \<leftarrow> exec_args pgdir (argc + 1) argv sp s;
          Some (map_option (\<lambda>(sp', ps). (sp', sp # ps)) q, s) } })"

text \<open>The program name: what follows the last slash, and \<^verbatim>\<open>safestrcpy\<close> into 16 bytes.\<close>

definition last_elem :: "u8 list \<Rightarrow> u8 list" where
  "last_elem path = rev (takeWhile (\<lambda>c. c \<noteq> slash) (rev path))"

definition copy_name :: "u8 list \<Rightarrow> u8 list \<Rightarrow> u8 list" where
  "copy_name new old = (let c = take 15 (takeWhile (\<lambda>b. b \<noteq> 0) new) @ [0] in c @ drop (length c) old)"

definition exec_bad :: "u32 \<Rightarrow> nat option \<Rightarrow> 'z files_scheme \<Rightarrow> (int \<times> 'z files_scheme) option" where
  "exec_bad pgdir ip s = do {
     s \<leftarrow> (if pgdir \<noteq> 0 then freevm pgdir s else Some s);
     s \<leftarrow> (case ip of None \<Rightarrow> Some s | Some ip \<Rightarrow> do { s \<leftarrow> iunlockput ip s; end_op s });
     Some (- 1, s) }"

text \<open>From the end of loading on: the two pages of the stack, the arguments, the new image.\<close>

definition exec_commit ::
  "u8 list \<Rightarrow> u8 list list \<Rightarrow> u32 \<Rightarrow> u32 \<Rightarrow> u32 \<Rightarrow> 'z files_scheme \<Rightarrow> (int \<times> 'z files_scheme) option" where
  "exec_commit path argv main_addr pgdir sz s = do {
     (sz, s) \<leftarrow> allocuvm pgdir (PGROUNDUP sz) (PGROUNDUP sz + 2 * PGSIZE) s;
     if sz = 0 then exec_bad pgdir None s
     else do {
       s \<leftarrow> clearpteu pgdir (sz - 2 * PGSIZE) s;
       (q, s) \<leftarrow> exec_args pgdir 0 argv sz s;
       case q of
         None \<Rightarrow> exec_bad pgdir None s
       | Some (sp, ps) \<Rightarrow> do {
           let argc = of_nat (length argv);
           let ustack = [0xFFFFFFFF, argc, sp - (argc + 1) * 4] @ ps @ [0];
           let sp = sp - (3 + argc + 1) * 4;
           (r, s) \<leftarrow> copyout_bytes pgdir sp (concat (map word_bytes ustack)) s;
           if r < 0 then exec_bad pgdir None s
           else do {
             p \<leftarrow> myproc s;
             let oldpgdir = p_pgdir (procs s ! p);
             let s = upd_proc p (\<lambda>c. c\<lparr>p_name := copy_name (last_elem path) (p_name c), p_pgdir := pgdir, p_sz := sz\<rparr>) s;
             let s = wr (p_tf (procs s ! p) + TF_EIP) main_addr s;
             let s = wr (p_tf (procs s ! p) + TF_ESP) sp s;
             s \<leftarrow> switchuvm (Some (p_kstack (procs s ! p), p_pgdir (procs s ! p))) s;
             s \<leftarrow> freevm oldpgdir s;
             Some (0, s) } } } }"

definition exec :: "'z files_scheme devsw \<Rightarrow> u8 list \<Rightarrow> u8 list list \<Rightarrow> 'z files_scheme \<Rightarrow> (int \<times> 'z files_scheme) option" where
  "exec dv path argv s = do {
     s \<leftarrow> begin_op s;
     (r, s) \<leftarrow> namei dv path s;
     case r of
       None \<Rightarrow> do { s \<leftarrow> end_op s; Some (- 1, s) }
     | Some ip \<Rightarrow> do {
         s \<leftarrow> ilock ip s;
         (r, bs, s) \<leftarrow> readi dv ip 0 (of_nat sizeof_elfhdr) s;
         let elf = get_elfhdr bs;
         if r \<noteq> int sizeof_elfhdr then exec_bad 0 (Some ip) s
         else if e_magic elf \<noteq> ELF_MAGIC then exec_bad 0 (Some ip) s
         else do {
           (pgdir, s) \<leftarrow> setupkvm s;
           if pgdir = 0 then exec_bad 0 (Some ip) s
           else do {
             (q, s) \<leftarrow> exec_load dv ip pgdir (e_phoff elf) (unat (e_phnum elf)) 0 s;
             case q of
               None \<Rightarrow> exec_bad pgdir (Some ip) s
             | Some sz \<Rightarrow> do {
                 s \<leftarrow> iunlockput ip s;
                 s \<leftarrow> end_op s;
                 exec_commit path argv (e_entry elf) pgdir sz s } } } } }"

end
