(* ===== verification/Proc.thy ===== *)
theory Proc
  imports Exec
begin

text \<open>
  Processes, \<^verbatim>\<open>proc.c\<close>: creation by \<open>userinit\<close>, \<open>fork\<close> and \<open>forkcow\<close>, termination by \<open>exit\<close>, \<open>wait\<close> and \<open>kill\<close>, the
  scheduler and sleeping. What a process does between two switches to the scheduler is one function on the
  state: \<open>exit\<close>, \<open>yield_enter\<close> and \<open>sleep_enter\<close> end at the switch in \<open>sched\<close>, \<open>sleep_exit\<close> starts after it. \<open>wait\<close> gives
  \<open>None\<close> where it would sleep.
\<close>

section \<open>State\<close>

record kernel = files +
  fork_first :: bool
  ticks :: u32
  addvirt :: u32
  addreal :: u32
  pages :: u32
  gpid :: int

section \<open>The current CPU\<close>

text \<open>\<open>mycpu\<close>: the index of the CPU with this APIC identifier; interrupts must be off.\<close>

definition mycpu :: "bool \<Rightarrow> u8 \<Rightarrow> u8 list \<Rightarrow> nat option" where
  "mycpu intr apicid ids = (if intr then None else first_index (\<lambda>a. a = apicid) ids)"

definition cpuid :: "bool \<Rightarrow> u8 \<Rightarrow> u8 list \<Rightarrow> nat option" where
  "cpuid intr apicid ids = mycpu intr apicid ids"

section \<open>Creating processes\<close>

definition sizeof_context :: u32 where "sizeof_context = 20"

definition allocproc :: "'z ptable_scheme \<Rightarrow> (nat option \<times> 'z ptable_scheme) option" where
  "allocproc s = do {
     s \<leftarrow> acquire LPtable s;
     case first_index (\<lambda>p. p_state p = UNUSED) (procs s) of
       None \<Rightarrow> do { s \<leftarrow> release LPtable s; Some (None, s) }
     | Some p \<Rightarrow> do {
         let s = upd_proc p (\<lambda>x. x\<lparr>p_state := EMBRYO, p_pid := nextpid s\<rparr>) s;
         let s = s\<lparr>nextpid := nextpid s + 1\<rparr>;
         s \<leftarrow> release LPtable s;
         (k, s) \<leftarrow> kalloc s;
         let s = upd_proc p (\<lambda>x. x\<lparr>p_kstack := k\<rparr>) s;
         if k = 0 then Some (None, upd_proc p (\<lambda>x. x\<lparr>p_state := UNUSED\<rparr>) s)
         else do {
           let sp = k + KSTACKSIZE - sizeof_trapframe;
           let s = upd_proc p (\<lambda>x. x\<lparr>p_tf := sp\<rparr>) s;
           let sp = sp - 4;
           let s = wr sp (trapret s) s;
           let sp = sp - sizeof_context;
           let s = upd_proc p (\<lambda>x. x\<lparr>p_context := sp\<rparr>) s;
           let s = s\<lparr>mem := memset (mem s) sp 0 sizeof_context\<rparr>;
           Some (Some p, wr (sp + 16) (forkret_pc s) s) } } }"

definition FL_IF :: u32 where "FL_IF = 0x200"

definition initcode_name :: "u8 list" where
  "initcode_name = [0x69, 0x6E, 0x69, 0x74, 0x63, 0x6F, 0x64, 0x65]"

text \<open>\<open>userinit\<close>; \<open>init\<close> and \<open>sz\<close> are the address and the size of the linked \<^verbatim>\<open>initcode\<close> binary. The selectors are
  half words whose padding is zero.\<close>

definition userinit :: "'z kernel_scheme devsw \<Rightarrow> u32 \<Rightarrow> u32 \<Rightarrow> 'z kernel_scheme \<Rightarrow> 'z kernel_scheme option" where
  "userinit dv init sz s = do {
     (r, s) \<leftarrow> allocproc s;
     p \<leftarrow> r;
     let s = s\<lparr>initproc := Some p\<rparr>;
     (d, s) \<leftarrow> setupkvm s;
     if d = 0 then None
     else do {
       let s = upd_proc p (\<lambda>x. x\<lparr>p_pgdir := d\<rparr>) s;
       s \<leftarrow> inituvm d init sz s;
       let s = upd_proc p (\<lambda>x. x\<lparr>p_sz := PGSIZE\<rparr>) s;
       let tf = p_tf (procs s ! p);
       let s = s\<lparr>mem := memset (mem s) tf 0 sizeof_trapframe\<rparr>;
       let s = wr (tf + TF_CS) (of_nat SEG_UCODE * 8 OR 3) s;
       let s = wr (tf + TF_DS) (of_nat SEG_UDATA * 8 OR 3) s;
       let s = wr (tf + TF_ES) (of_nat SEG_UDATA * 8 OR 3) s;
       let s = wr (tf + TF_SS) (of_nat SEG_UDATA * 8 OR 3) s;
       let s = wr (tf + TF_EFLAGS) FL_IF s;
       let s = wr (tf + TF_ESP) PGSIZE s;
       let s = wr (tf + TF_EIP) 0 s;
       let s = upd_proc p (\<lambda>x. x\<lparr>p_name := copy_name initcode_name (p_name x)\<rparr>) s;
       (cwd, s) \<leftarrow> namei dv [slash] s;
       let s = upd_proc p (\<lambda>x. x\<lparr>p_cwd := cwd\<rparr>) s;
       s \<leftarrow> acquire LPtable s;
       release LPtable (upd_proc p (\<lambda>x. x\<lparr>p_state := RUNNABLE\<rparr>) s) } }"

definition growproc :: "int \<Rightarrow> 'z ptable_scheme \<Rightarrow> (int \<times> 'z ptable_scheme) option" where
  "growproc n s = do {
     p \<leftarrow> myproc s;
     let c = procs s ! p;
     (ok, sz, s) \<leftarrow>
       (if n > 0 then do {
          (sz, s) \<leftarrow> allocuvm (p_pgdir c) (p_sz c) (p_sz c + of_int n) s;
          Some (sz \<noteq> 0, sz, s) }
        else if n < 0 then do {
          (sz, s) \<leftarrow> deallocuvm (p_pgdir c) (p_sz c) (p_sz c + of_int n) s;
          Some (sz \<noteq> 0, sz, s) }
        else Some (True, p_sz c, s));
     if \<not> ok then Some (- 1, s)
     else do {
       let s = upd_proc p (\<lambda>x. x\<lparr>p_sz := sz\<rparr>) s;
       s \<leftarrow> switchuvm (Some (p_kstack (procs s ! p), p_pgdir (procs s ! p))) s;
       Some (0, s) } }"

text \<open>The descriptors from \<open>i\<close> on: each open file gets one more reference.\<close>

fun dup_files :: "nat \<Rightarrow> nat \<Rightarrow> nat option list \<Rightarrow> 'z files_scheme \<Rightarrow> 'z files_scheme option" where
  "dup_files np i [] s = Some s"
| "dup_files np i (None # fs) s = dup_files np (i + 1) fs s"
| "dup_files np i (Some f # fs) s = do {
     (f, s) \<leftarrow> filedup f s;
     dup_files np (i + 1) fs (upd_proc np (\<lambda>x. x\<lparr>p_ofile := (p_ofile x)[i := Some f]\<rparr>) s) }"

text \<open>\<open>fork\<close> and \<open>forkcow\<close> are two copies of one text; they differ in the function that copies the address space.\<close>

definition fork_with ::
  "(u32 \<Rightarrow> u32 \<Rightarrow> 'z kernel_scheme \<Rightarrow> (u32 \<times> 'z kernel_scheme) option) \<Rightarrow> 'z kernel_scheme \<Rightarrow> (int \<times> 'z kernel_scheme) option" where
  "fork_with copy s = do {
     p \<leftarrow> myproc s;
     (r, s) \<leftarrow> allocproc s;
     case r of
       None \<Rightarrow> Some (- 1, s)
     | Some np \<Rightarrow> do {
         let c = procs s ! p;
         (d, s) \<leftarrow> copy (p_pgdir c) (p_sz c) s;
         let s = upd_proc np (\<lambda>x. x\<lparr>p_pgdir := d\<rparr>) s;
         if d = 0 then do {
           s \<leftarrow> kfree (p_kstack (procs s ! np)) s;
           Some (- 1, upd_proc np (\<lambda>x. x\<lparr>p_kstack := 0, p_state := UNUSED\<rparr>) s) }
         else do {
           let s = upd_proc np (\<lambda>x. x\<lparr>p_sz := p_sz c, p_parent := Some p\<rparr>) s;
           let tf = p_tf (procs s ! np);
           let s = s\<lparr>mem := memmove (mem s) tf (p_tf c) sizeof_trapframe\<rparr>;
           let s = wr (tf + TF_EAX) 0 s;
           s \<leftarrow> dup_files np 0 (p_ofile c) s;
           cwd \<leftarrow> p_cwd c;
           (cwd, s) \<leftarrow> idup cwd s;
           let s = upd_proc np (\<lambda>x. x\<lparr>p_cwd := Some cwd, p_name := copy_name (p_name c) (p_name x)\<rparr>) s;
           let pid = p_pid (procs s ! np);
           s \<leftarrow> acquire LPtable s;
           s \<leftarrow> release LPtable (upd_proc np (\<lambda>x. x\<lparr>p_state := RUNNABLE\<rparr>) s);
           Some (pid, s) } } }"

definition fork :: "'z kernel_scheme \<Rightarrow> (int \<times> 'z kernel_scheme) option" where
  "fork = fork_with copyuvm"

definition forkcow :: "'z kernel_scheme \<Rightarrow> (int \<times> 'z kernel_scheme) option" where
  "forkcow = fork_with copyuvmcow"

section \<open>The scheduler\<close>

text \<open>The checks of \<open>sched\<close>: the only lock that is held is \<open>ptable.lock\<close>, and the process is no longer running.\<close>

definition sched :: "'z ptable_scheme \<Rightarrow> 'z ptable_scheme option" where
  "sched s = do {
     p \<leftarrow> myproc s;
     if LPtable \<notin> set (held s) then None
     else if length (held s) \<noteq> 1 then None
     else if p_state (procs s ! p) = RUNNING then None
     else Some s }"

definition yield_enter :: "'z ptable_scheme \<Rightarrow> 'z ptable_scheme option" where
  "yield_enter s = do {
     s \<leftarrow> acquire LPtable s;
     p \<leftarrow> myproc s;
     sched (upd_proc p (\<lambda>x. x\<lparr>p_state := RUNNABLE\<rparr>) s) }"

definition yield_exit :: "'z ptable_scheme \<Rightarrow> 'z ptable_scheme option" where
  "yield_exit s = release LPtable s"

definition sleep_enter :: "chan \<Rightarrow> lock \<Rightarrow> 'z ptable_scheme \<Rightarrow> 'z ptable_scheme option" where
  "sleep_enter ch lk s = do {
     p \<leftarrow> myproc s;
     s \<leftarrow> (if lk \<noteq> LPtable then do { s \<leftarrow> acquire LPtable s; release lk s } else Some s);
     sched (upd_proc p (\<lambda>x. x\<lparr>p_chan := Some ch, p_state := SLEEPING\<rparr>) s) }"

definition sleep_exit :: "lock \<Rightarrow> 'z ptable_scheme \<Rightarrow> 'z ptable_scheme option" where
  "sleep_exit lk s = do {
     p \<leftarrow> myproc s;
     let s = upd_proc p (\<lambda>x. x\<lparr>p_chan := None\<rparr>) s;
     if lk \<noteq> LPtable then do { s \<leftarrow> release LPtable s; acquire lk s } else Some s }"

text \<open>One turn of the inner loop of \<open>scheduler\<close>. \<open>run\<close> is what the process does from \<^verbatim>\<open>swtch\<close> until it switches back.\<close>

definition scheduler_turn :: "('z ptable_scheme \<Rightarrow> 'z ptable_scheme option) \<Rightarrow> nat \<Rightarrow> 'z ptable_scheme \<Rightarrow> 'z ptable_scheme option" where
  "scheduler_turn run p s =
     (if p_state (procs s ! p) \<noteq> RUNNABLE then Some s
      else do {
        s \<leftarrow> switchuvm (Some (p_kstack (procs s ! p), p_pgdir (procs s ! p))) (s\<lparr>myproc := Some p\<rparr>);
        s \<leftarrow> run (upd_proc p (\<lambda>x. x\<lparr>p_state := RUNNING\<rparr>) s);
        Some ((switchkvm s)\<lparr>myproc := None\<rparr>) })"

fun scheduler_scan :: "('z ptable_scheme \<Rightarrow> 'z ptable_scheme option) \<Rightarrow> nat list \<Rightarrow> 'z ptable_scheme \<Rightarrow> 'z ptable_scheme option" where
  "scheduler_scan run [] s = Some s"
| "scheduler_scan run (p # ps) s = do {
     s \<leftarrow> scheduler_turn run p s;
     scheduler_scan run ps s }"

text \<open>One pass of the outer loop.\<close>

definition scheduler :: "('z ptable_scheme \<Rightarrow> 'z ptable_scheme option) \<Rightarrow> 'z ptable_scheme \<Rightarrow> 'z ptable_scheme option" where
  "scheduler run s = do {
     s \<leftarrow> acquire LPtable s;
     s \<leftarrow> scheduler_scan run [0..<NPROC] s;
     release LPtable s }"

definition forkret :: "'z kernel_scheme \<Rightarrow> 'z kernel_scheme option" where
  "forkret s = do {
     s \<leftarrow> release LPtable s;
     if fork_first s then do {
       s \<leftarrow> iinit ROOTDEV (s\<lparr>fork_first := False\<rparr>);
       initlog ROOTDEV s }
     else Some s }"

section \<open>Termination\<close>

definition kill :: "int \<Rightarrow> 'z ptable_scheme \<Rightarrow> (int \<times> 'z ptable_scheme) option" where
  "kill pid s = do {
     s \<leftarrow> acquire LPtable s;
     case first_index (\<lambda>p. p_pid p = pid) (procs s) of
       None \<Rightarrow> do { s \<leftarrow> release LPtable s; Some (- 1, s) }
     | Some p \<Rightarrow> do {
         s \<leftarrow> release LPtable (upd_proc p (\<lambda>x. x\<lparr>p_killed := True,
           p_state := (if p_state x = SLEEPING then RUNNABLE else p_state x)\<rparr>) s);
         Some (0, s) } }"

fun close_files :: "nat \<Rightarrow> nat \<Rightarrow> nat option list \<Rightarrow> 'z files_scheme \<Rightarrow> 'z files_scheme option" where
  "close_files p fd [] s = Some s"
| "close_files p fd (None # fs) s = close_files p (fd + 1) fs s"
| "close_files p fd (Some f # fs) s = do {
     s \<leftarrow> fileclose f s;
     close_files p (fd + 1) fs (upd_proc p (\<lambda>x. x\<lparr>p_ofile := (p_ofile x)[fd := None]\<rparr>) s) }"

text \<open>Pass the children of \<open>p\<close> to \<open>initproc\<close>.\<close>

fun reparent :: "nat \<Rightarrow> nat list \<Rightarrow> 'z ptable_scheme \<Rightarrow> 'z ptable_scheme" where
  "reparent p [] s = s"
| "reparent p (q # qs) s =
     (if p_parent (procs s ! q) = Some p then
        let s = upd_proc q (\<lambda>x. x\<lparr>p_parent := initproc s\<rparr>) s;
            s = (case initproc s of None \<Rightarrow> s
                 | Some i \<Rightarrow> if p_state (procs s ! q) = ZOMBIE then wakeup1 (CProc i) s else s)
        in reparent p qs s
      else reparent p qs s)"

definition exit :: "'z kernel_scheme \<Rightarrow> 'z kernel_scheme option" where
  "exit s = do {
     p \<leftarrow> myproc s;
     if Some p = initproc s then None
     else do {
       s \<leftarrow> close_files p 0 (p_ofile (procs s ! p)) s;
       s \<leftarrow> begin_op s;
       cwd \<leftarrow> p_cwd (procs s ! p);
       s \<leftarrow> iput cwd s;
       s \<leftarrow> end_op s;
       let s = upd_proc p (\<lambda>x. x\<lparr>p_cwd := None\<rparr>) s;
       s \<leftarrow> acquire LPtable s;
       let s = (case p_parent (procs s ! p) of None \<Rightarrow> s | Some q \<Rightarrow> wakeup1 (CProc q) s);
       let s = reparent p [0..<length (procs s)] s;
       sched (upd_proc p (\<lambda>x. x\<lparr>p_state := ZOMBIE\<rparr>) s) } }"

definition wait :: "'z ptable_scheme \<Rightarrow> (int \<times> 'z ptable_scheme) option" where
  "wait s = do {
     p \<leftarrow> myproc s;
     s \<leftarrow> acquire LPtable s;
     case first_index (\<lambda>x. p_parent x = Some p \<and> p_state x = ZOMBIE) (procs s) of
       Some q \<Rightarrow> do {
         let pid = p_pid (procs s ! q);
         s \<leftarrow> kfree (p_kstack (procs s ! q)) s;
         let s = upd_proc q (\<lambda>x. x\<lparr>p_kstack := 0\<rparr>) s;
         s \<leftarrow> freevm (p_pgdir (procs s ! q)) s;
         let s = upd_proc q (\<lambda>x. x\<lparr>p_pid := 0, p_parent := None, p_name := (p_name x)[0 := 0], p_killed := False,
           p_state := UNUSED\<rparr>) s;
         s \<leftarrow> release LPtable s;
         Some (pid, s) }
     | None \<Rightarrow>
         if (\<forall>x\<in>set (procs s). p_parent x \<noteq> Some p) \<or> p_killed (procs s ! p) then do {
           s \<leftarrow> release LPtable s;
           Some (- 1, s) }
         else None }"

section \<open>procdump\<close>

fun state_name :: "procstate \<Rightarrow> string" where
  "state_name UNUSED = ''unused''"
| "state_name EMBRYO = ''embryo''"
| "state_name SLEEPING = ''sleep ''"
| "state_name RUNNABLE = ''runble''"
| "state_name RUNNING = ''run   ''"
| "state_name ZOMBIE = ''zombie''"

text \<open>A line of the listing: the pid, the state, the name, and the call stack of a sleeping process.\<close>

definition procdump :: "'z ptable_scheme \<Rightarrow> (int \<times> string \<times> u8 list \<times> u32 list) list" where
  "procdump s = map (\<lambda>p. (p_pid p, state_name (p_state p), takeWhile (\<lambda>c. c \<noteq> 0) (p_name p),
       if p_state p = SLEEPING
       then takeWhile (\<lambda>pc. pc \<noteq> 0) (getcallerpcs (mem s) (load32 (mem s) (p_context p + 12) + 8)) else []))
     (filter (\<lambda>p. p_state p \<noteq> UNUSED) (procs s))"

end
