(* ===== verification/Console.thy ===== *)
theory Console
  imports Proc Ulib
begin

text \<open>
  The console, \<^verbatim>\<open>console.c\<close>, with the keyboard, \<^verbatim>\<open>kbd.c\<close> and \<^verbatim>\<open>kbd.h\<close>, and the serial port, \<^verbatim>\<open>uart.c\<close>. The screen is the video
  memory \<open>crt\<close> and the cursor \<open>crt_pos\<close> that the CRT controller keeps; what goes to the serial line is the list
  \<open>uart_out\<close>. The bytes that the keyboard controller and the serial port have ready are lists.
\<close>

section \<open>State\<close>

definition INPUT_BUF :: u32 where "INPUT_BUF = 128"
definition BACKSPACE :: int where "BACKSPACE = 0x100"

record console = kernel +
  cons_locking :: bool
  panicked :: bool
  crt :: "nat \<Rightarrow> u16"
  crt_pos :: nat
  uart :: bool
  uart_out :: "u8 list"
  uart_in :: "u8 list"
  input_buf :: "u8 list"
  input_r :: u32
  input_w :: u32
  input_e :: u32
  kbd_in :: "u8 list"
  kbd_shift :: u8

section \<open>Output\<close>

definition uartputc :: "int \<Rightarrow> 'z console_scheme \<Rightarrow> 'z console_scheme" where
  "uartputc c s = (if \<not> uart s then s else s\<lparr>uart_out := uart_out s @ [of_int c]\<rparr>)"

definition cgaputc :: "int \<Rightarrow> 'z console_scheme \<Rightarrow> 'z console_scheme option" where
  "cgaputc c s =
     (let s = (if c = 10 then s\<lparr>crt_pos := crt_pos s + (80 - crt_pos s mod 80)\<rparr>
               else if c = BACKSPACE then s\<lparr>crt_pos := crt_pos s - 1\<rparr>
               else s\<lparr>crt := (crt s)(crt_pos s := (of_int c AND 0xFF) OR 0x0700), crt_pos := crt_pos s + 1\<rparr>) in
      if crt_pos s > 25 * 80 then None
      else
        let s = (if crt_pos s div 80 \<ge> 24
                 then s\<lparr>crt_pos := crt_pos s - 80,
                        crt := (\<lambda>k. if crt_pos s - 80 \<le> k \<and> k < 24 * 80 then 0
                                    else if k < 23 * 80 then crt s (k + 80) else crt s k)\<rparr>
                 else s)
        in Some (s\<lparr>crt := (crt s)(crt_pos s := 0x20 OR 0x0700)\<rparr>))"

definition consputc :: "int \<Rightarrow> 'z console_scheme \<Rightarrow> 'z console_scheme option" where
  "consputc c s =
     (if panicked s then None
      else if c = BACKSPACE then cgaputc c (uartputc 8 (uartputc 32 (uartputc 8 s)))
      else cgaputc c (uartputc c s))"

fun consputs :: "u8 list \<Rightarrow> 'z console_scheme \<Rightarrow> 'z console_scheme option" where
  "consputs [] s = Some s"
| "consputs (c # cs) s = do { s \<leftarrow> consputc (uint c) s; consputs cs s }"

text \<open>\<^verbatim>\<open>printint\<close> of the kernel; its digits are \<^verbatim>\<open>0123456789abcdef\<close>.\<close>

definition cons_digits :: "u8 list" where
  "cons_digits = [48, 49, 50, 51, 52, 53, 54, 55, 56, 57, 97, 98, 99, 100, 101, 102]"

partial_function (option) cons_printint_buf :: "u32 \<Rightarrow> u32 \<Rightarrow> u8 list option" where
  "cons_printint_buf x base =
     (if base = 0 \<or> 16 \<le> unat (x mod base) then None
      else if x div base = 0 then Some [cons_digits ! unat (x mod base)]
      else do { bs \<leftarrow> cons_printint_buf (x div base) base; Some (cons_digits ! unat (x mod base) # bs) })"

definition cons_printint :: "u32 \<Rightarrow> u32 \<Rightarrow> bool \<Rightarrow> u8 list option" where
  "cons_printint xx base sg =
     (let neg = sg \<and> sint xx < 0; x = (if neg then - xx else xx) in
      do {
        buf \<leftarrow> cons_printint_buf x base;
        let buf = (if neg then buf @ [45] else buf);
        if 16 < length buf then None else Some (rev buf) })"

text \<open>The characters that \<open>cprintf\<close> puts out for a format and its arguments.\<close>

fun cprintf_chars :: "memory \<Rightarrow> u8 list \<Rightarrow> u32 list \<Rightarrow> u8 list option" where
  "cprintf_chars m [] ap = Some []"
| "cprintf_chars m [c] ap = Some (if c = 37 then [] else [c])"
| "cprintf_chars m (c # d # fmt) ap =
     (if c \<noteq> 37 then do { r \<leftarrow> cprintf_chars m (d # fmt) ap; Some (c # r) }
      else if d = 100 \<or> d = 120 \<or> d = 112 \<or> d = 115 then
        (case ap of [] \<Rightarrow> None
         | a # ap \<Rightarrow> do {
             out \<leftarrow> (if d = 100 then cons_printint a 10 True
                    else if d = 120 \<or> d = 112 then cons_printint a 16 False
                    else if a = 0 then Some null_string else put_string m a);
             r \<leftarrow> cprintf_chars m fmt ap;
             Some (out @ r) })
      else do {
        r \<leftarrow> cprintf_chars m fmt ap;
        Some ((if d = 37 then [d] else [37, d]) @ r) })"

definition cons_print :: "u8 list \<Rightarrow> 'z console_scheme \<Rightarrow> 'z console_scheme option" where
  "cons_print cs s = do {
     let locking = cons_locking s;
     s \<leftarrow> (if locking then acquire LCons s else Some s);
     s \<leftarrow> consputs cs s;
     if locking then release LCons s else Some s }"

definition cprintf :: "u8 list \<Rightarrow> u32 list \<Rightarrow> 'z console_scheme \<Rightarrow> 'z console_scheme option" where
  "cprintf fmt ap s = do {
     cs \<leftarrow> cprintf_chars (mem s) fmt ap;
     cons_print cs s }"

definition chars :: "string \<Rightarrow> u8 list" where
  "chars = map of_char"

text \<open>\<open>panic\<close>: what it prints; it does not return. \<open>v\<close> is the address of its argument on the stack.\<close>

definition panic :: "u32 \<Rightarrow> u8 list \<Rightarrow> u32 \<Rightarrow> 'z console_scheme \<Rightarrow> 'z console_scheme option" where
  "panic apicid msg v s = do {
     let s = s\<lparr>cons_locking := False\<rparr>;
     s \<leftarrow> cprintf (chars ''lapicid %d: panic: '') [apicid] s;
     s \<leftarrow> cprintf msg [] s;
     s \<leftarrow> cprintf [10] [] s;
     pcs \<leftarrow> those (map (\<lambda>pc. cprintf_chars (mem s) (chars '' %p'') [pc]) (getcallerpcs (mem s) v));
     s \<leftarrow> cons_print (concat pcs) s;
     Some (s\<lparr>panicked := True\<rparr>) }"

section \<open>The keyboard\<close>

definition SHIFT :: u8 where "SHIFT = 1"
definition CTL :: u8 where "CTL = 2"
definition ALT :: u8 where "ALT = 4"
definition CAPSLOCK :: u8 where "CAPSLOCK = 8"
definition NUMLOCK :: u8 where "NUMLOCK = 16"
definition SCROLLLOCK :: u8 where "SCROLLLOCK = 32"
definition E0ESC :: u8 where "E0ESC = 64"

definition shiftcode :: "u8 \<Rightarrow> u8" where
  "shiftcode d = (if d = 0x1D \<or> d = 0x9D then CTL else if d = 0x2A \<or> d = 0x36 then SHIFT
     else if d = 0x38 \<or> d = 0xB8 then ALT else 0)"

definition togglecode :: "u8 \<Rightarrow> u8" where
  "togglecode d = (if d = 0x3A then CAPSLOCK else if d = 0x45 then NUMLOCK else if d = 0x46 then SCROLLLOCK else 0)"

text \<open>A key map: the first entries as a list, the designated ones as pairs, zero elsewhere.\<close>

definition keymap :: "u8 list \<Rightarrow> (u8 \<times> u8) list \<Rightarrow> u8 \<Rightarrow> u8" where
  "keymap low ext d =
     (if unat d < length low then low ! unat d else case map_of ext d of Some c \<Rightarrow> c | None \<Rightarrow> 0)"

definition normalmap :: "u8 \<Rightarrow> u8" where
  "normalmap = keymap
   [0, 0x1B, 0x31, 0x32, 0x33, 0x34, 0x35, 0x36, 0x37, 0x38, 0x39, 0x30, 0x2D, 0x3D, 0x08, 0x09,
    0x71, 0x77, 0x65, 0x72, 0x74, 0x79, 0x75, 0x69, 0x6F, 0x70, 0x5B, 0x5D, 0x0A, 0, 0x61, 0x73,
    0x64, 0x66, 0x67, 0x68, 0x6A, 0x6B, 0x6C, 0x3B, 0x27, 0x60, 0, 0x5C, 0x7A, 0x78, 0x63, 0x76,
    0x62, 0x6E, 0x6D, 0x2C, 0x2E, 0x2F, 0, 0x2A, 0, 0x20, 0, 0, 0, 0, 0, 0,
    0, 0, 0, 0, 0, 0, 0, 0x37, 0x38, 0x39, 0x2D, 0x34, 0x35, 0x36, 0x2B, 0x31,
    0x32, 0x33, 0x30, 0x2E]
   [(0x9C, 0x0A), (0xB5, 0x2F), (0xC8, 0xE2), (0xD0, 0xE3), (0xC9, 0xE6), (0xD1, 0xE7), (0xCB, 0xE4), (0xCD, 0xE5), (0x97, 0xE0), (0xCF, 0xE1), (0xD2, 0xE8), (0xD3, 0xE9)]"

definition shiftmap :: "u8 \<Rightarrow> u8" where
  "shiftmap = keymap
   [0, 0x1B, 0x21, 0x40, 0x23, 0x24, 0x25, 0x5E, 0x26, 0x2A, 0x28, 0x29, 0x5F, 0x2B, 0x08, 0x09,
    0x51, 0x57, 0x45, 0x52, 0x54, 0x59, 0x55, 0x49, 0x4F, 0x50, 0x7B, 0x7D, 0x0A, 0, 0x41, 0x53,
    0x44, 0x46, 0x47, 0x48, 0x4A, 0x4B, 0x4C, 0x3A, 0x22, 0x7E, 0, 0x7C, 0x5A, 0x58, 0x43, 0x56,
    0x42, 0x4E, 0x4D, 0x3C, 0x3E, 0x3F, 0, 0x2A, 0, 0x20, 0, 0, 0, 0, 0, 0,
    0, 0, 0, 0, 0, 0, 0, 0x37, 0x38, 0x39, 0x2D, 0x34, 0x35, 0x36, 0x2B, 0x31,
    0x32, 0x33, 0x30, 0x2E]
   [(0x9C, 0x0A), (0xB5, 0x2F), (0xC8, 0xE2), (0xD0, 0xE3), (0xC9, 0xE6), (0xD1, 0xE7), (0xCB, 0xE4), (0xCD, 0xE5), (0x97, 0xE0), (0xCF, 0xE1), (0xD2, 0xE8), (0xD3, 0xE9)]"

definition ctlmap :: "u8 \<Rightarrow> u8" where
  "ctlmap = keymap
   [0, 0, 0, 0, 0, 0, 0, 0, 0, 0, 0, 0, 0, 0, 0, 0,
    0x11, 0x17, 0x05, 0x12, 0x14, 0x19, 0x15, 0x09, 0x0F, 0x10, 0, 0, 0x0D, 0, 0x01, 0x13,
    0x04, 0x06, 0x07, 0x08, 0x0A, 0x0B, 0x0C, 0, 0, 0, 0, 0x1C, 0x1A, 0x18, 0x03, 0x16,
    0x02, 0x0E, 0x0D, 0, 0, 0xEF]
   [(0x9C, 0x0D), (0xB5, 0xEF), (0xC8, 0xE2), (0xD0, 0xE3), (0xC9, 0xE6), (0xD1, 0xE7), (0xCB, 0xE4), (0xCD, 0xE5), (0x97, 0xE0), (0xCF, 0xE1), (0xD2, 0xE8), (0xD3, 0xE9)]"

text \<open>\<open>kbdgetc\<close>: -1 when the controller has no data; 0 for a key that gives no character.\<close>

definition kbdgetc :: "'z console_scheme \<Rightarrow> int \<times> 'z console_scheme" where
  "kbdgetc s = (case kbd_in s of
     [] \<Rightarrow> (- 1, s)
   | d # ds \<Rightarrow>
       let s = s\<lparr>kbd_in := ds\<rparr>; sh = kbd_shift s in
       if d = 0xE0 then (0, s\<lparr>kbd_shift := sh OR E0ESC\<rparr>)
       else if d AND 0x80 \<noteq> 0 then
         let d = (if sh AND E0ESC \<noteq> 0 then d else d AND 0x7F)
         in (0, s\<lparr>kbd_shift := sh AND NOT (shiftcode d OR E0ESC)\<rparr>)
       else
         let (d, sh) = (if sh AND E0ESC \<noteq> 0 then (d OR 0x80, sh AND NOT E0ESC) else (d, sh));
             sh = (sh OR shiftcode d) XOR togglecode d;
             m = sh AND (CTL OR SHIFT);
             c = (if m = 0 then normalmap d else if m = SHIFT then shiftmap d else ctlmap d);
             c = (if sh AND CAPSLOCK \<noteq> 0
                  then if 97 \<le> c \<and> c \<le> 122 then c - 32 else if 65 \<le> c \<and> c \<le> 90 then c + 32 else c
                  else c)
         in (uint c, s\<lparr>kbd_shift := sh\<rparr>))"

definition uartgetc :: "'z console_scheme \<Rightarrow> int \<times> 'z console_scheme" where
  "uartgetc s =
     (if \<not> uart s then (- 1, s)
      else case uart_in s of [] \<Rightarrow> (- 1, s) | c # cs \<Rightarrow> (uint c, s\<lparr>uart_in := cs\<rparr>))"

section \<open>Input\<close>

text \<open>\<open>C('U')\<close>: take characters back up to the start of the line.\<close>

partial_function (option) kill_line :: "'z console_scheme \<Rightarrow> 'z console_scheme option" where
  "kill_line s =
     (if input_e s \<noteq> input_w s \<and> input_buf s ! unat ((input_e s - 1) mod INPUT_BUF) \<noteq> 10 then do {
        s \<leftarrow> consputc BACKSPACE (s\<lparr>input_e := input_e s - 1\<rparr>);
        kill_line s }
      else Some s)"

text \<open>One character that arrives.\<close>

definition console_char :: "int \<Rightarrow> 'z console_scheme \<Rightarrow> 'z console_scheme option" where
  "console_char c s =
     (if c = 16 then Some s
      else if c = 21 then kill_line s
      else if c = 8 \<or> c = 127 then
        (if input_e s \<noteq> input_w s then consputc BACKSPACE (s\<lparr>input_e := input_e s - 1\<rparr>) else Some s)
      else if c \<noteq> 0 \<and> input_e s - input_r s < INPUT_BUF then do {
        let c = (if c = 13 then 10 else c);
        let s = s\<lparr>input_buf := (input_buf s)[unat (input_e s mod INPUT_BUF) := of_int c], input_e := input_e s + 1\<rparr>;
        s \<leftarrow> consputc c s;
        if c = 10 \<or> c = 4 \<or> input_e s = input_r s + INPUT_BUF
        then wakeup CInput (s\<lparr>input_w := input_e s\<rparr>)
        else Some s }
      else Some s)"

text \<open>The loop of \<open>consoleintr\<close>; the result also says whether \<open>C('P')\<close> asked for a process listing.\<close>

partial_function (option) consoleintr_loop ::
  "('z console_scheme \<Rightarrow> int \<times> 'z console_scheme) \<Rightarrow> bool \<Rightarrow> 'z console_scheme \<Rightarrow> (bool \<times> 'z console_scheme) option" where
  "consoleintr_loop getc dump s =
     (let (c, s) = getc s in
      if c \<ge> 0 then do {
        s \<leftarrow> console_char c s;
        consoleintr_loop getc (dump \<or> c = 16) s }
      else Some (dump, s))"

text \<open>The result carries the lines of the listing, if there is one.\<close>

definition consoleintr ::
  "('z console_scheme \<Rightarrow> int \<times> 'z console_scheme) \<Rightarrow> 'z console_scheme
   \<Rightarrow> ((int \<times> string \<times> u8 list \<times> u32 list) list \<times> 'z console_scheme) option" where
  "consoleintr getc s = do {
     s \<leftarrow> acquire LCons s;
     (dump, s) \<leftarrow> consoleintr_loop getc False s;
     s \<leftarrow> release LCons s;
     Some (if dump then procdump s else [], s) }"

definition kbdintr ::
  "'z console_scheme \<Rightarrow> ((int \<times> string \<times> u8 list \<times> u32 list) list \<times> 'z console_scheme) option" where
  "kbdintr s = consoleintr kbdgetc s"

definition uartintr ::
  "'z console_scheme \<Rightarrow> ((int \<times> string \<times> u8 list \<times> u32 list) list \<times> 'z console_scheme) option" where
  "uartintr s = consoleintr uartgetc s"

section \<open>The device\<close>

text \<open>The loop of \<open>consoleread\<close>: \<open>n\<close> bytes are still wanted, \<open>some\<close> says whether one was read already. The result
  says whether the loop was left because the process was killed, and has the bytes copied out.\<close>

fun consoleread_loop :: "bool \<Rightarrow> nat \<Rightarrow> bool \<Rightarrow> 'z console_scheme \<Rightarrow> (bool \<times> u8 list \<times> 'z console_scheme) option" where
  "consoleread_loop dead 0 some s = Some (False, [], s)"
| "consoleread_loop dead (Suc n) some s =
     (if input_r s = input_w s then if dead then Some (True, [], s) else None
      else
        let c = input_buf s ! unat (input_r s mod INPUT_BUF); s' = s\<lparr>input_r := input_r s + 1\<rparr> in
        if c = 4 then Some (False, [], if some then s else s')
        else if c = 10 then Some (False, [c], s')
        else do {
          (k, bs, s) \<leftarrow> consoleread_loop dead n True s';
          Some (k, c # bs, s) })"

definition consoleread :: "nat \<Rightarrow> u32 \<Rightarrow> 'z console_scheme \<Rightarrow> (int \<times> u8 list \<times> 'z console_scheme) option" where
  "consoleread ip n s = do {
     s \<leftarrow> iunlock ip s;
     c \<leftarrow> cur_proc s;
     s \<leftarrow> acquire LCons s;
     (k, bs, s) \<leftarrow> consoleread_loop (p_killed c) (nat (sint n)) False s;
     s \<leftarrow> release LCons s;
     s \<leftarrow> ilock ip s;
     Some (if k then - 1 else int (length bs), bs, s) }"

definition consolewrite :: "nat \<Rightarrow> u8 list \<Rightarrow> 'z console_scheme \<Rightarrow> (int \<times> 'z console_scheme) option" where
  "consolewrite ip buf s = do {
     s \<leftarrow> iunlock ip s;
     s \<leftarrow> acquire LCons s;
     s \<leftarrow> consputs buf s;
     s \<leftarrow> release LCons s;
     s \<leftarrow> ilock ip s;
     Some (int (length buf), s) }"

definition CONSOLE :: nat where "CONSOLE = 1"

text \<open>The table \<^verbatim>\<open>devsw\<close> after \<open>consoleinit\<close>: the console is the only device.\<close>

definition console_devsw :: "'z console_scheme devsw" where
  "console_devsw = \<lparr>dv_read = (\<lambda>major. if major = CONSOLE then Some consoleread else None),
     dv_write = (\<lambda>major. if major = CONSOLE then Some consolewrite else None)\<rparr>"

definition consoleinit :: "'z console_scheme \<Rightarrow> 'z console_scheme" where
  "consoleinit s = s\<lparr>cons_locking := True\<rparr>"

end
