(* ===== verification/Sysfile.thy ===== *)
theory Sysfile
  imports Exec
begin

text \<open>
  The file system calls, \<^verbatim>\<open>sysfile.c\<close>. Every call returns the value that goes to \<^verbatim>\<open>eax\<close>. Null pointers are \<open>None\<close>.
\<close>

section \<open>Descriptors\<close>

definition argfd :: "nat \<Rightarrow> 'z files_scheme \<Rightarrow> (nat \<times> nat) option option" where
  "argfd n s = do {
     r \<leftarrow> argint n s;
     case r of
       None \<Rightarrow> Some None
     | Some w \<Rightarrow> do {
         c \<leftarrow> cur_proc s;
         let fd = sint w;
         if fd < 0 \<or> fd \<ge> int NOFILE then Some None
         else Some (map_option (Pair (nat fd)) (p_ofile c ! nat fd)) } }"

definition set_ofile :: "nat \<Rightarrow> nat \<Rightarrow> nat option \<Rightarrow> 'z ptable_scheme \<Rightarrow> 'z ptable_scheme" where
  "set_ofile p fd f = upd_proc p (\<lambda>c. c\<lparr>p_ofile := (p_ofile c)[fd := f]\<rparr>)"

definition fdalloc :: "nat \<Rightarrow> 'z files_scheme \<Rightarrow> (int \<times> 'z files_scheme) option" where
  "fdalloc f s = do {
     p \<leftarrow> myproc s;
     case first_index (\<lambda>x. x = None) (p_ofile (procs s ! p)) of
       None \<Rightarrow> Some (- 1, s)
     | Some fd \<Rightarrow> Some (int fd, set_ofile p fd (Some f) s) }"

definition sys_dup :: "'z files_scheme \<Rightarrow> (int \<times> 'z files_scheme) option" where
  "sys_dup s = do {
     r \<leftarrow> argfd 0 s;
     case r of
       None \<Rightarrow> Some (- 1, s)
     | Some (_, f) \<Rightarrow> do {
         (fd, s) \<leftarrow> fdalloc f s;
         if fd < 0 then Some (- 1, s)
         else do { (_, s) \<leftarrow> filedup f s; Some (fd, s) } } }"

text \<open>The arguments that \<open>sys_read\<close> and \<open>sys_write\<close> share: the file, the buffer and the count.\<close>

definition arg_rw :: "'z files_scheme \<Rightarrow> (nat \<times> u32 \<times> int) option option" where
  "arg_rw s = do {
     r \<leftarrow> argfd 0 s;
     case r of
       None \<Rightarrow> Some None
     | Some (_, f) \<Rightarrow> do {
         n \<leftarrow> argint 2 s;
         case n of
           None \<Rightarrow> Some None
         | Some n \<Rightarrow> do {
             p \<leftarrow> argptr 1 (sint n) s;
             Some (map_option (\<lambda>p. (f, p, sint n)) p) } } }"

definition sys_read :: "'z files_scheme devsw \<Rightarrow> 'z files_scheme \<Rightarrow> (int \<times> 'z files_scheme) option" where
  "sys_read dv s = do {
     r \<leftarrow> arg_rw s;
     case r of None \<Rightarrow> Some (- 1, s) | Some (f, p, n) \<Rightarrow> fileread dv f p n s }"

definition sys_write :: "'z files_scheme devsw \<Rightarrow> 'z files_scheme \<Rightarrow> (int \<times> 'z files_scheme) option" where
  "sys_write dv s = do {
     r \<leftarrow> arg_rw s;
     case r of None \<Rightarrow> Some (- 1, s) | Some (f, p, n) \<Rightarrow> filewrite dv f p n s }"

definition sys_close :: "'z files_scheme \<Rightarrow> (int \<times> 'z files_scheme) option" where
  "sys_close s = do {
     r \<leftarrow> argfd 0 s;
     case r of
       None \<Rightarrow> Some (- 1, s)
     | Some (fd, f) \<Rightarrow> do {
         p \<leftarrow> myproc s;
         s \<leftarrow> fileclose f (set_ofile p fd None s);
         Some (0, s) } }"

definition sizeof_stat :: int where "sizeof_stat = 20"

definition store_stat :: "u32 \<Rightarrow> u32 \<Rightarrow> stat \<Rightarrow> 'z vm_scheme \<Rightarrow> 'z vm_scheme option" where
  "store_stat pgdir st x s = do {
     s \<leftarrow> ustore_bytes pgdir st [ucast (st_type x), ucast (drop_bit 8 (st_type x))] s;
     s \<leftarrow> ustore32 pgdir (st + 4) (st_dev x) s;
     s \<leftarrow> ustore32 pgdir (st + 8) (st_ino x) s;
     s \<leftarrow> ustore_bytes pgdir (st + 12) [ucast (st_nlink x), ucast (drop_bit 8 (st_nlink x))] s;
     ustore32 pgdir (st + 16) (st_size x) s }"

definition sys_fstat :: "'z files_scheme \<Rightarrow> (int \<times> 'z files_scheme) option" where
  "sys_fstat s = do {
     r \<leftarrow> argfd 0 s;
     case r of
       None \<Rightarrow> Some (- 1, s)
     | Some (_, f) \<Rightarrow> do {
         st \<leftarrow> argptr 1 sizeof_stat s;
         case st of
           None \<Rightarrow> Some (- 1, s)
         | Some st \<Rightarrow> do {
             c \<leftarrow> cur_proc s;
             (x, s) \<leftarrow> filestat f s;
             case x of
               None \<Rightarrow> Some (- 1, s)
             | Some x \<Rightarrow> do { s \<leftarrow> store_stat (p_pgdir c) st x s; Some (0, s) } } } }"

section \<open>Links\<close>

text \<open>The label \<^verbatim>\<open>bad\<close> of \<open>sys_link\<close>.\<close>

definition link_bad :: "nat \<Rightarrow> 'z files_scheme \<Rightarrow> (int \<times> 'z files_scheme) option" where
  "link_bad ip s = do {
     s \<leftarrow> ilock ip s;
     s \<leftarrow> iupdate ip (upd_inode ip (\<lambda>n. n\<lparr>i_nlink := i_nlink n - 1\<rparr>) s);
     s \<leftarrow> iunlockput ip s;
     s \<leftarrow> end_op s;
     Some (- 1, s) }"

definition do_link :: "'z files_scheme devsw \<Rightarrow> u8 list \<Rightarrow> u8 list \<Rightarrow> 'z files_scheme \<Rightarrow> (int \<times> 'z files_scheme) option" where
  "do_link dv old new s = do {
     s \<leftarrow> begin_op s;
     (r, s) \<leftarrow> namei dv old s;
     case r of
       None \<Rightarrow> do { s \<leftarrow> end_op s; Some (- 1, s) }
     | Some ip \<Rightarrow> do {
         s \<leftarrow> ilock ip s;
         if i_type (inodes s ! ip) = T_DIR then do {
           s \<leftarrow> iunlockput ip s;
           s \<leftarrow> end_op s;
           Some (- 1, s) }
         else do {
           s \<leftarrow> iupdate ip (upd_inode ip (\<lambda>n. n\<lparr>i_nlink := i_nlink n + 1\<rparr>) s);
           s \<leftarrow> iunlock ip s;
           (r, s) \<leftarrow> nameiparent dv new s;
           case r of
             None \<Rightarrow> link_bad ip s
           | Some (dp, name) \<Rightarrow> do {
               s \<leftarrow> ilock dp s;
               (k, s) \<leftarrow> (if i_dev (inodes s ! dp) \<noteq> i_dev (inodes s ! ip) then Some (- 1, s)
                        else dirlink dv dp name (i_inum (inodes s ! ip)) s);
               s \<leftarrow> iunlockput dp s;
               if k < 0 then link_bad ip s
               else do {
                 s \<leftarrow> iput ip s;
                 s \<leftarrow> end_op s;
                 Some (0, s) } } } } }"

definition sys_link :: "'z files_scheme devsw \<Rightarrow> 'z files_scheme \<Rightarrow> (int \<times> 'z files_scheme) option" where
  "sys_link dv s = do {
     old \<leftarrow> argstr 0 s;
     case old of
       None \<Rightarrow> Some (- 1, s)
     | Some old \<Rightarrow> do {
         new \<leftarrow> argstr 1 s;
         case new of None \<Rightarrow> Some (- 1, s) | Some new \<Rightarrow> do_link dv old new s } }"

partial_function (option) isdirempty_from :: "'z files_scheme devsw \<Rightarrow> nat \<Rightarrow> u32 \<Rightarrow> 'z files_scheme \<Rightarrow> (bool \<times> 'z files_scheme) option" where
  "isdirempty_from dv dp off s =
     (if off < i_size (inodes s ! dp) then do {
        (r, bs, s) \<leftarrow> readi dv dp off (of_nat sizeof_dirent) s;
        if r \<noteq> int sizeof_dirent then None
        else if de_inum (get_dirent bs) \<noteq> 0 then Some (False, s)
        else isdirempty_from dv dp (off + of_nat sizeof_dirent) s }
      else Some (True, s))"

definition isdirempty :: "'z files_scheme devsw \<Rightarrow> nat \<Rightarrow> 'z files_scheme \<Rightarrow> (bool \<times> 'z files_scheme) option" where
  "isdirempty dv dp s = isdirempty_from dv dp (2 * of_nat sizeof_dirent) s"

definition dot :: "u8 list" where "dot = [0x2E]"
definition dotdot :: "u8 list" where "dotdot = [0x2E, 0x2E]"

definition unlink_bad :: "nat \<Rightarrow> 'z files_scheme \<Rightarrow> (int \<times> 'z files_scheme) option" where
  "unlink_bad dp s = do {
     s \<leftarrow> iunlockput dp s;
     s \<leftarrow> end_op s;
     Some (- 1, s) }"

text \<open>\<open>sys_unlink\<close> once the entry at \<open>off\<close> of \<open>dp\<close> was found to be \<open>ip\<close>.\<close>

definition unlink_entry :: "'z files_scheme devsw \<Rightarrow> nat \<Rightarrow> nat \<Rightarrow> u32 \<Rightarrow> 'z files_scheme \<Rightarrow> (int \<times> 'z files_scheme) option" where
  "unlink_entry dv dp ip off s = do {
     s \<leftarrow> ilock ip s;
     if sint (i_nlink (inodes s ! ip)) < 1 then None
     else do {
       (ok, s) \<leftarrow> (if i_type (inodes s ! ip) = T_DIR then isdirempty dv ip s else Some (True, s));
       if \<not> ok then do {
         s \<leftarrow> iunlockput ip s;
         unlink_bad dp s }
       else do {
         (k, s) \<leftarrow> writei dv dp (replicate sizeof_dirent 0) off s;
         if k \<noteq> int sizeof_dirent then None
         else do {
           s \<leftarrow> (if i_type (inodes s ! ip) = T_DIR
                then iupdate dp (upd_inode dp (\<lambda>n. n\<lparr>i_nlink := i_nlink n - 1\<rparr>) s) else Some s);
           s \<leftarrow> iunlockput dp s;
           s \<leftarrow> iupdate ip (upd_inode ip (\<lambda>n. n\<lparr>i_nlink := i_nlink n - 1\<rparr>) s);
           s \<leftarrow> iunlockput ip s;
           s \<leftarrow> end_op s;
           Some (0, s) } } } }"

definition sys_unlink :: "'z files_scheme devsw \<Rightarrow> 'z files_scheme \<Rightarrow> (int \<times> 'z files_scheme) option" where
  "sys_unlink dv s = do {
     path \<leftarrow> argstr 0 s;
     case path of
       None \<Rightarrow> Some (- 1, s)
     | Some path \<Rightarrow> do {
         s \<leftarrow> begin_op s;
         (r, s) \<leftarrow> nameiparent dv path s;
         case r of
           None \<Rightarrow> do { s \<leftarrow> end_op s; Some (- 1, s) }
         | Some (dp, name) \<Rightarrow> do {
             s \<leftarrow> ilock dp s;
             if namecmp name dot \<or> namecmp name dotdot then unlink_bad dp s
             else do {
               (q, s) \<leftarrow> dirlookup dv dp name s;
               case q of
                 None \<Rightarrow> unlink_bad dp s
               | Some (ip, off) \<Rightarrow> unlink_entry dv dp ip off s } } } }"

section \<open>Creating and opening\<close>

definition create ::
  "'z files_scheme devsw \<Rightarrow> u8 list \<Rightarrow> u16 \<Rightarrow> u16 \<Rightarrow> u16 \<Rightarrow> 'z files_scheme \<Rightarrow> (nat option \<times> 'z files_scheme) option" where
  "create dv path ty major minor s = do {
     (r, s) \<leftarrow> nameiparent dv path s;
     case r of
       None \<Rightarrow> Some (None, s)
     | Some (dp, name) \<Rightarrow> do {
         s \<leftarrow> ilock dp s;
         (q, s) \<leftarrow> dirlookup dv dp name s;
         case q of
           Some (ip, _) \<Rightarrow> do {
             s \<leftarrow> iunlockput dp s;
             s \<leftarrow> ilock ip s;
             if ty = T_FILE \<and> i_type (inodes s ! ip) = T_FILE then Some (Some ip, s)
             else do { s \<leftarrow> iunlockput ip s; Some (None, s) } }
         | None \<Rightarrow> do {
             (ip, s) \<leftarrow> ialloc (i_dev (inodes s ! dp)) ty s;
             s \<leftarrow> ilock ip s;
             s \<leftarrow> iupdate ip (upd_inode ip (\<lambda>n. n\<lparr>i_major := major, i_minor := minor, i_nlink := 1\<rparr>) s);
             s \<leftarrow> (if ty = T_DIR then do {
                     s \<leftarrow> iupdate dp (upd_inode dp (\<lambda>n. n\<lparr>i_nlink := i_nlink n + 1\<rparr>) s);
                     (k, s) \<leftarrow> dirlink dv ip dot (i_inum (inodes s ! ip)) s;
                     if k < 0 then None
                     else do {
                       (k, s) \<leftarrow> dirlink dv ip dotdot (i_inum (inodes s ! dp)) s;
                       if k < 0 then None else Some s } }
                   else Some s);
             (k, s) \<leftarrow> dirlink dv dp name (i_inum (inodes s ! ip)) s;
             if k < 0 then None
             else do {
               s \<leftarrow> iunlockput dp s;
               Some (Some ip, s) } } } }"

definition open_fail :: "nat option \<Rightarrow> nat \<Rightarrow> 'z files_scheme \<Rightarrow> (int \<times> 'z files_scheme) option" where
  "open_fail f ip s = do {
     s \<leftarrow> (case f of None \<Rightarrow> Some s | Some f \<Rightarrow> fileclose f s);
     s \<leftarrow> iunlockput ip s;
     s \<leftarrow> end_op s;
     Some (- 1, s) }"

text \<open>\<open>sys_open\<close> with the inode found and locked.\<close>

definition open_inode :: "nat \<Rightarrow> int \<Rightarrow> 'z files_scheme \<Rightarrow> (int \<times> 'z files_scheme) option" where
  "open_inode ip omode s = do {
     (f, s) \<leftarrow> filealloc s;
     case f of
       None \<Rightarrow> open_fail None ip s
     | Some f \<Rightarrow> do {
         (fd, s) \<leftarrow> fdalloc f s;
         if fd < 0 then open_fail (Some f) ip s
         else do {
           s \<leftarrow> iunlock ip s;
           s \<leftarrow> end_op s;
           Some (fd, upd_file f (\<lambda>x. x\<lparr>f_type := FD_INODE, f_ip := ip, f_off := 0,
             f_readable := (omode AND O_WRONLY = 0),
             f_writable := (omode AND O_WRONLY \<noteq> 0 \<or> omode AND O_RDWR \<noteq> 0)\<rparr>) s) } } }"

definition do_open :: "'z files_scheme devsw \<Rightarrow> u8 list \<Rightarrow> int \<Rightarrow> 'z files_scheme \<Rightarrow> (int \<times> 'z files_scheme) option" where
  "do_open dv path omode s = do {
     s \<leftarrow> begin_op s;
     if omode AND O_CREATE \<noteq> 0 then do {
       (r, s) \<leftarrow> create dv path T_FILE 0 0 s;
       case r of
         None \<Rightarrow> do { s \<leftarrow> end_op s; Some (- 1, s) }
       | Some ip \<Rightarrow> open_inode ip omode s }
     else do {
       (r, s) \<leftarrow> namei dv path s;
       case r of
         None \<Rightarrow> do { s \<leftarrow> end_op s; Some (- 1, s) }
       | Some ip \<Rightarrow> do {
           s \<leftarrow> ilock ip s;
           if i_type (inodes s ! ip) = T_DIR \<and> omode \<noteq> O_RDONLY then do {
             s \<leftarrow> iunlockput ip s;
             s \<leftarrow> end_op s;
             Some (- 1, s) }
           else open_inode ip omode s } } }"

definition sys_open :: "'z files_scheme devsw \<Rightarrow> 'z files_scheme \<Rightarrow> (int \<times> 'z files_scheme) option" where
  "sys_open dv s = do {
     path \<leftarrow> argstr 0 s;
     case path of
       None \<Rightarrow> Some (- 1, s)
     | Some path \<Rightarrow> do {
         omode \<leftarrow> argint 1 s;
         case omode of None \<Rightarrow> Some (- 1, s) | Some omode \<Rightarrow> do_open dv path (sint omode) s } }"

text \<open>The end of \<open>sys_mkdir\<close> and \<open>sys_mknod\<close>, with the inode that \<open>create\<close> gave.\<close>

definition finish_create :: "nat option \<Rightarrow> 'z files_scheme \<Rightarrow> (int \<times> 'z files_scheme) option" where
  "finish_create r s = (case r of
       None \<Rightarrow> do { s \<leftarrow> end_op s; Some (- 1, s) }
     | Some ip \<Rightarrow> do { s \<leftarrow> iunlockput ip s; s \<leftarrow> end_op s; Some (0, s) })"

definition sys_mkdir :: "'z files_scheme devsw \<Rightarrow> 'z files_scheme \<Rightarrow> (int \<times> 'z files_scheme) option" where
  "sys_mkdir dv s = do {
     s \<leftarrow> begin_op s;
     path \<leftarrow> argstr 0 s;
     (r, s) \<leftarrow> (case path of None \<Rightarrow> Some (None, s) | Some path \<Rightarrow> create dv path T_DIR 0 0 s);
     finish_create r s }"

definition sys_mknod :: "'z files_scheme devsw \<Rightarrow> 'z files_scheme \<Rightarrow> (int \<times> 'z files_scheme) option" where
  "sys_mknod dv s = do {
     s \<leftarrow> begin_op s;
     path \<leftarrow> argstr 0 s;
     major \<leftarrow> (if path = None then Some None else argint 1 s);
     minor \<leftarrow> (if major = None then Some None else argint 2 s);
     (r, s) \<leftarrow> (case (path, major, minor) of
         (Some path, Some major, Some minor) \<Rightarrow> create dv path T_DEV (ucast major) (ucast minor) s
       | _ \<Rightarrow> Some (None, s));
     finish_create r s }"

definition sys_chdir :: "'z files_scheme devsw \<Rightarrow> 'z files_scheme \<Rightarrow> (int \<times> 'z files_scheme) option" where
  "sys_chdir dv s = do {
     p \<leftarrow> myproc s;
     s \<leftarrow> begin_op s;
     path \<leftarrow> argstr 0 s;
     (r, s) \<leftarrow> (case path of None \<Rightarrow> Some (None, s) | Some path \<Rightarrow> namei dv path s);
     case r of
       None \<Rightarrow> do { s \<leftarrow> end_op s; Some (- 1, s) }
     | Some ip \<Rightarrow> do {
         s \<leftarrow> ilock ip s;
         if i_type (inodes s ! ip) \<noteq> T_DIR then do {
           s \<leftarrow> iunlockput ip s;
           s \<leftarrow> end_op s;
           Some (- 1, s) }
         else do {
           s \<leftarrow> iunlock ip s;
           cwd \<leftarrow> p_cwd (procs s ! p);
           s \<leftarrow> iput cwd s;
           s \<leftarrow> end_op s;
           Some (0, upd_proc p (\<lambda>c. c\<lparr>p_cwd := Some ip\<rparr>) s) } } }"

section \<open>exec and pipe\<close>

text \<open>The argument vector: \<open>k\<close> pointers can still be stored.\<close>

fun fetch_argv :: "u32 \<Rightarrow> nat \<Rightarrow> 'z files_scheme \<Rightarrow> u8 list list option option" where
  "fetch_argv uargv 0 s = Some None"
| "fetch_argv uargv (Suc k) s = do {
     r \<leftarrow> fetchint uargv s;
     case r of
       None \<Rightarrow> Some None
     | Some uarg \<Rightarrow>
         if uarg = 0 then Some (Some [])
         else do {
           str \<leftarrow> fetchstr uarg s;
           case str of
             None \<Rightarrow> Some None
           | Some str \<Rightarrow> do {
               argv \<leftarrow> fetch_argv (uargv + 4) k s;
               Some (map_option (Cons str) argv) } } }"

definition sys_exec :: "'z files_scheme devsw \<Rightarrow> 'z files_scheme \<Rightarrow> (int \<times> 'z files_scheme) option" where
  "sys_exec dv s = do {
     path \<leftarrow> argstr 0 s;
     case path of
       None \<Rightarrow> Some (- 1, s)
     | Some path \<Rightarrow> do {
         uargv \<leftarrow> argint 1 s;
         case uargv of
           None \<Rightarrow> Some (- 1, s)
         | Some uargv \<Rightarrow> do {
             argv \<leftarrow> fetch_argv uargv MAXARG s;
             case argv of None \<Rightarrow> Some (- 1, s) | Some argv \<Rightarrow> exec dv path argv s } } }"

definition sys_pipe :: "'z files_scheme \<Rightarrow> (int \<times> 'z files_scheme) option" where
  "sys_pipe s = do {
     fd \<leftarrow> argptr 0 8 s;
     case fd of
       None \<Rightarrow> Some (- 1, s)
     | Some fd \<Rightarrow> do {
         (r, s) \<leftarrow> pipealloc s;
         case r of
           None \<Rightarrow> Some (- 1, s)
         | Some (rf1, wf1) \<Rightarrow> do {
             p \<leftarrow> myproc s;
             (fd0, s) \<leftarrow> fdalloc rf1 s;
             (fd1, s) \<leftarrow> (if fd0 < 0 then Some (- 1, s) else fdalloc wf1 s);
             if fd0 < 0 \<or> fd1 < 0 then do {
               let s = (if fd0 \<ge> 0 then set_ofile p (nat fd0) None s else s);
               s \<leftarrow> fileclose rf1 s;
               s \<leftarrow> fileclose wf1 s;
               Some (- 1, s) }
             else do {
               s \<leftarrow> ustore32 (p_pgdir (procs s ! p)) fd (of_int fd0) s;
               s \<leftarrow> ustore32 (p_pgdir (procs s ! p)) (fd + 4) (of_int fd1) s;
               Some (0, s) } } } }"

end
