(* ===== verification/Lapic.thy ===== *)
theory Lapic
  imports Prelude
begin

text \<open>
  The real time clock, the part of \<^verbatim>\<open>lapic.c\<close> that reads the date from the CMOS. The device is a function from the
  number of reads made so far and the register to the byte it returns; \<open>t\<close> counts the reads.
\<close>

section \<open>The code\<close>

record rtcdate =
  second :: u32
  minute :: u32
  hour :: u32
  day :: u32
  month :: u32
  year :: u32

type_synonym cmos = "nat \<Rightarrow> u8 \<Rightarrow> u8"

definition cmos_read :: "cmos \<Rightarrow> u8 \<Rightarrow> nat \<Rightarrow> u32 \<times> nat" where
  "cmos_read c reg t = (ucast (c t reg), t + 1)"

definition fill_rtcdate :: "cmos \<Rightarrow> nat \<Rightarrow> rtcdate \<times> nat" where
  "fill_rtcdate c t0 =
     (let (a, t1) = cmos_read c 0 t0; (b, t2) = cmos_read c 2 t1; (h, t3) = cmos_read c 4 t2;
          (d, t4) = cmos_read c 7 t3; (m, t5) = cmos_read c 8 t4; (y, t6) = cmos_read c 9 t5
      in (\<lparr>second = a, minute = b, hour = h, day = d, month = m, year = y\<rparr>, t6))"

text \<open>Read until no update is in progress and two readings agree.\<close>

partial_function (option) cmos_stable :: "cmos \<Rightarrow> nat \<Rightarrow> (rtcdate \<times> nat) option" where
  "cmos_stable c t =
     (let (t1, ta) = fill_rtcdate c t; (st, tb) = cmos_read c 0x0A ta in
      if st AND 0x80 \<noteq> 0 then cmos_stable c tb
      else let (t2, td) = fill_rtcdate c tb in
        if t1 = t2 then Some (t1, td) else cmos_stable c td)"

definition CONV :: "u32 \<Rightarrow> u32" where
  "CONV x = drop_bit 4 x * 10 + (x AND 0xF)"

definition cmostime :: "cmos \<Rightarrow> (rtcdate \<times> nat) option" where
  "cmostime c = do {
     let (sb, t) = cmos_read c 0x0B 0;
     let bcd = (sb AND 4 = 0);
     (t1, t) \<leftarrow> cmos_stable c t;
     let t1 = (if bcd then \<lparr>second = CONV (second t1), minute = CONV (minute t1), hour = CONV (hour t1),
       day = CONV (day t1), month = CONV (month t1), year = CONV (year t1)\<rparr> else t1);
     Some (t1\<lparr>year := year t1 + 2000\<rparr>, t) }"

section \<open>The date is the one the clock shows\<close>

text \<open>The value of a byte in binary coded decimal.\<close>

definition bcd_value :: "u8 \<Rightarrow> nat" where
  "bcd_value b = 10 * (unat b div 16) + unat b mod 16"

lemma CONV_bcd: "unat (CONV (ucast (b :: u8))) = bcd_value b"
proof -
  let ?w = "ucast b :: u32"
  have b: "unat b < 256" using unsigned_less [of b] by simp
  then have w: "unat ?w = unat b" by (simp add: unsigned_ucast_eq take_bit_nat_eq_self)
  have d: "drop_bit 4 ?w = ?w div 16" by (simp add: drop_bit_eq_div)
  have m: "?w AND 0xF = ?w mod 16"
  proof -
    have "(0xF :: u32) = mask 4" by (simp add: mask_eq_exp_minus_1)
    then have "?w AND 0xF = take_bit 4 ?w" by (simp add: take_bit_eq_mask)
    then show ?thesis by (simp add: take_bit_eq_mod)
  qed
  have u: "unat (?w div 16) = unat b div 16" "unat (?w mod 16) = unat b mod 16"
    by (simp_all add: unat_div unat_mod w)
  have "unat (?w div 16 * 10) = unat b div 16 * 10"
    using b by (simp add: unat_word_ariths u w)
  then show ?thesis using b unfolding CONV_def bcd_value_def d m
    by (simp add: unat_word_ariths u w)
qed

lemma fill_rtcdate_eq:
  "fill_rtcdate c t = (\<lparr>second = ucast (c t 0), minute = ucast (c (t + 1) 2), hour = ucast (c (t + 2) 4),
     day = ucast (c (t + 3) 7), month = ucast (c (t + 4) 8), year = ucast (c (t + 5) 9)\<rparr>, t + 6)"
  by (simp add: fill_rtcdate_def cmos_read_def Let_def numeral_eq_Suc)

text \<open>What \<open>cmos_stable\<close> waits for: two equal readings, the update flag clear in between.\<close>

definition stable_at :: "cmos \<Rightarrow> nat \<Rightarrow> bool" where
  "stable_at c t \<longleftrightarrow> c (t + 6) 0x0A AND 0x80 = 0 \<and> fst (fill_rtcdate c t) = fst (fill_rtcdate c (t + 7))"

lemma ucast_flag: "(ucast (b :: u8) :: u32) AND 0x80 = 0 \<longleftrightarrow> b AND 0x80 = 0"
  using and_exp_eq_0_iff_not_bit [of "ucast b :: u32" 7] and_exp_eq_0_iff_not_bit [of b 7]
  by (simp add: bit_ucast_iff)

lemma cmos_stable_step:
  "cmos_stable c t =
     (if stable_at c t then Some (fst (fill_rtcdate c t), t + 13)
      else cmos_stable c (if c (t + 6) 0x0A AND 0x80 = 0 then t + 13 else t + 7))"
  by (subst cmos_stable.simps)
    (simp add: fill_rtcdate_eq cmos_read_def stable_at_def Let_def ucast_flag numeral_eq_Suc)

lemma cmos_stable_returns:
  assumes "\<forall>t\<ge>t0. c t = r" and "r 0x0A AND 0x80 = 0"
  shows "\<exists>k\<ge>t. stable_at c k \<and> cmos_stable c t = Some (fst (fill_rtcdate c k), k + 13)"
proof (induction "t0 - t" arbitrary: t rule: less_induct)
  case less
  show ?case
  proof (cases "stable_at c t")
    case True
    then show ?thesis by (auto simp: cmos_stable_step [of c t])
  next
    case False
    have "t < t0"
    proof (rule ccontr)
      assume "\<not> t < t0"
      then have "c (t + i) = r" "c (i + t) = r" "c t = r" "c (Suc t) = r" "c (Suc (Suc t)) = r" for i
        using assms(1) by simp_all
      then show False using False assms(2) by (simp add: stable_at_def fill_rtcdate_eq)
    qed
    let ?t = "if c (t + 6) 0x0A AND 0x80 = 0 then t + 13 else t + 7"
    have "t0 - ?t < t0 - t" using \<open>t < t0\<close> by auto
    from less [OF this] False show ?thesis
      by (subst cmos_stable_step) (fastforce split: if_splits)
  qed
qed


definition clock_example :: cmos where
  "clock_example t reg = (if reg = 0x0B then 2 else if reg = 9 then 0x26 else if reg = 8 then 0x11 else if reg = 0 \<and> t < 3 then 0x59
     else if reg = 0x0A then 0x26 else 0)"

lemma clock_example_stable: "\<forall>t\<ge>3. clock_example t = clock_example 3"
  by (auto simp: clock_example_def fun_eq_iff)

lemma clock_example_flags: "clock_example 3 0x0A AND 0x80 = 0" "clock_example 0 0x0B AND 4 = 0"
  by (simp_all add: clock_example_def)


end
