(* ===== verification/Trap.thy ===== *)
theory Trap
  imports Console Sysfile Lapic
begin

text \<open>
  System calls that concern processes and memory, \<^verbatim>\<open>sysproc.c\<close>, the dispatch in \<^verbatim>\<open>syscall.c\<close> and the trap handler
  \<^verbatim>\<open>trap.c\<close>. A system call that does not return to its caller gives \<open>None\<close> in place of its value.
\<close>

section \<open>sysproc.c\<close>

definition sys_kill :: "'z console_scheme \<Rightarrow> (int \<times> 'z console_scheme) option" where
  "sys_kill s = do {
     pid \<leftarrow> argint 0 s;
     case pid of None \<Rightarrow> Some (- 1, s) | Some pid \<Rightarrow> kill (sint pid) s }"

definition sys_getpid :: "'z console_scheme \<Rightarrow> (int \<times> 'z console_scheme) option" where
  "sys_getpid s = do { c \<leftarrow> cur_proc s; Some (p_pid c, s) }"

definition sys_sbrk :: "'z console_scheme \<Rightarrow> (int \<times> 'z console_scheme) option" where
  "sys_sbrk s = do {
     n \<leftarrow> argint 0 s;
     case n of
       None \<Rightarrow> Some (- 1, s)
     | Some n \<Rightarrow> do {
         c \<leftarrow> cur_proc s;
         let addr = sint (p_sz c);
         (r, s) \<leftarrow> growproc (sint n) s;
         Some (if r < 0 then - 1 else addr, s) } }"

text \<open>\<open>sys_sleep\<close> on its first look at the clock; it sleeps, \<open>None\<close>, unless it returns at once.\<close>

definition sys_sleep :: "'z console_scheme \<Rightarrow> (int \<times> 'z console_scheme) option" where
  "sys_sleep s = do {
     n \<leftarrow> argint 0 s;
     case n of
       None \<Rightarrow> Some (- 1, s)
     | Some n \<Rightarrow> do {
         s \<leftarrow> acquire LTicks s;
         let ticks0 = ticks s;
         c \<leftarrow> cur_proc s;
         if ticks s - ticks0 < n then
           if p_killed c then do { s \<leftarrow> release LTicks s; Some (- 1, s) } else None
         else do { s \<leftarrow> release LTicks s; Some (0, s) } } }"

definition sys_uptime :: "'z console_scheme \<Rightarrow> (int \<times> 'z console_scheme) option" where
  "sys_uptime s = do {
     s \<leftarrow> acquire LTicks s;
     let xticks = ticks s;
     s \<leftarrow> release LTicks s;
     Some (sint xticks, s) }"

text \<open>\<open>sys_date\<close> goes on when \<open>argptr\<close> fails; the pointer is then what the stack held, \<open>junk\<close>.\<close>

definition date_bytes :: "rtcdate \<Rightarrow> u8 list" where
  "date_bytes d = concat (map word_bytes [second d, minute d, hour d, day d, month d, year d])"

definition sys_date :: "cmos \<Rightarrow> u32 \<Rightarrow> 'z console_scheme \<Rightarrow> (int \<times> 'z console_scheme) option" where
  "sys_date rtc junk s = do {
     r \<leftarrow> argptr 0 4 s;
     let p = (case r of None \<Rightarrow> junk | Some p \<Rightarrow> p);
     (d, _) \<leftarrow> cmostime rtc;
     c \<leftarrow> cur_proc s;
     s \<leftarrow> ustore_bytes (p_pgdir c) p (date_bytes d) s;
     Some (0, s) }"

definition sys_virt2real :: "'z console_scheme \<Rightarrow> (int \<times> 'z console_scheme) option" where
  "sys_virt2real s = do {
     c \<leftarrow> cur_proc s;
     r \<leftarrow> argptr 0 4 s;
     let s = (case r of None \<Rightarrow> s | Some p \<Rightarrow> s\<lparr>addreal := p\<rparr>);
     v \<leftarrow> uload (p_pgdir c) (addvirt s) s;
     s \<leftarrow> ustore (p_pgdir c) (addreal s) (v - ucast (p_pgdir c)) s;
     Some (sint (addreal s), s) }"

definition sys_num_pages :: "'z console_scheme \<Rightarrow> (int \<times> 'z console_scheme) option" where
  "sys_num_pages s = do {
     c \<leftarrow> cur_proc s;
     let s = s\<lparr>pages := p_sz c div 4096\<rparr>;
     Some (sint (pages s), s) }"

definition sys_forkcow :: "'z console_scheme \<Rightarrow> (int \<times> 'z console_scheme) option" where
  "sys_forkcow s = do {
     (pid, s) \<leftarrow> forkcow s;
     let s = s\<lparr>gpid := pid\<rparr>;
     Some (gpid s, s) }"

section \<open>syscall.c\<close>

definition returns :: "(int \<times> 's) option \<Rightarrow> (int option \<times> 's) option" where
  "returns m = do { (r, s) \<leftarrow> m; Some (Some r, s) }"

text \<open>The table \<^verbatim>\<open>syscalls\<close>.\<close>

definition syscalls :: "cmos \<Rightarrow> u32 \<Rightarrow> int \<Rightarrow> ('z console_scheme \<Rightarrow> (int option \<times> 'z console_scheme) option) option" where
  "syscalls rtc junk num =
     (if num = 1 then Some (\<lambda>s. returns (fork s))
      else if num = 2 then Some (\<lambda>s. do { s \<leftarrow> exit s; Some (None, s) })
      else if num = 3 then Some (\<lambda>s. returns (wait s))
      else if num = 4 then Some (\<lambda>s. returns (sys_pipe s))
      else if num = 5 then Some (\<lambda>s. returns (sys_read console_devsw s))
      else if num = 6 then Some (\<lambda>s. returns (sys_kill s))
      else if num = 7 then Some (\<lambda>s. returns (sys_exec console_devsw s))
      else if num = 8 then Some (\<lambda>s. returns (sys_fstat s))
      else if num = 9 then Some (\<lambda>s. returns (sys_chdir console_devsw s))
      else if num = 10 then Some (\<lambda>s. returns (sys_dup s))
      else if num = 11 then Some (\<lambda>s. returns (sys_getpid s))
      else if num = 12 then Some (\<lambda>s. returns (sys_sbrk s))
      else if num = 13 then Some (\<lambda>s. returns (sys_sleep s))
      else if num = 14 then Some (\<lambda>s. returns (sys_uptime s))
      else if num = 15 then Some (\<lambda>s. returns (sys_open console_devsw s))
      else if num = 16 then Some (\<lambda>s. returns (sys_write console_devsw s))
      else if num = 17 then Some (\<lambda>s. returns (sys_mknod console_devsw s))
      else if num = 18 then Some (\<lambda>s. returns (sys_unlink console_devsw s))
      else if num = 19 then Some (\<lambda>s. returns (sys_link console_devsw s))
      else if num = 20 then Some (\<lambda>s. returns (sys_mkdir console_devsw s))
      else if num = 21 then Some (\<lambda>s. returns (sys_close s))
      else if num = 22 then Some (\<lambda>s. returns (sys_date rtc junk s))
      else if num = 23 then Some (\<lambda>s. returns (sys_virt2real s))
      else if num = 24 then Some (\<lambda>s. returns (sys_num_pages s))
      else if num = 25 then Some (\<lambda>s. returns (sys_forkcow s))
      else None)"

text \<open>\<open>syscall\<close>; the result says whether the process is gone.\<close>

definition syscall :: "cmos \<Rightarrow> u32 \<Rightarrow> 'z console_scheme \<Rightarrow> (bool \<times> 'z console_scheme) option" where
  "syscall rtc junk s = do {
     p \<leftarrow> myproc s;
     let tf = p_tf (procs s ! p);
     let num = sint (load32 (mem s) (tf + TF_EAX));
     case syscalls rtc junk num of
       Some f \<Rightarrow> do {
         (r, s) \<leftarrow> f s;
         case r of
           None \<Rightarrow> Some (True, s)
         | Some r \<Rightarrow> Some (False, wr (p_tf (procs s ! p) + TF_EAX) (of_int r) s) }
     | None \<Rightarrow> do {
         pid \<leftarrow> cons_printint (of_int (p_pid (procs s ! p))) 10 True;
         n \<leftarrow> cons_printint (of_int num) 10 True;
         s \<leftarrow> cons_print (pid @ chars '' '' @ takeWhile (\<lambda>c. c \<noteq> 0) (p_name (procs s ! p)) @
           chars '': unknown sys call '' @ n @ [10]) s;
         Some (False, wr (tf + TF_EAX) 0xFFFFFFFF s) } }"

section \<open>trap.c\<close>

definition T_PGFLT :: u32 where "T_PGFLT = 14"
definition T_SYSCALL :: u32 where "T_SYSCALL = 64"
definition T_IRQ0 :: u32 where "T_IRQ0 = 32"
definition IRQ_TIMER :: u32 where "IRQ_TIMER = 0"
definition IRQ_KBD :: u32 where "IRQ_KBD = 1"
definition IRQ_COM1 :: u32 where "IRQ_COM1 = 4"
definition IRQ_IDE :: u32 where "IRQ_IDE = 14"
definition IRQ_SPURIOUS :: u32 where "IRQ_SPURIOUS = 31"
definition TF_TRAPNO :: u32 where "TF_TRAPNO = 48"

text \<open>\<open>tvinit\<close>; \<open>vectors\<close> is the generated table of entry points.\<close>

definition tvinit :: "(nat \<Rightarrow> u32) \<Rightarrow> gatedesc list" where
  "tvinit vectors = (map (\<lambda>i. SETGATE False (of_nat SEG_KCODE * 8) (vectors i) 0) [0..<256])
     [unat T_SYSCALL := SETGATE True (of_nat SEG_KCODE * 8) (vectors (unat T_SYSCALL)) DPL_USER]"

text \<open>How a trap ends: a return to the interrupted code, the end of the process, or a switch to the
  scheduler in \<open>yield\<close>, after which \<open>trap_resume\<close> goes on.\<close>

datatype trap_end = TReturn | TExit | TYield

definition exit_if_killed :: "u32 \<Rightarrow> 'z console_scheme \<Rightarrow> (bool \<times> 'z console_scheme) option" where
  "exit_if_killed tf s = (case myproc s of
       None \<Rightarrow> Some (False, s)
     | Some p \<Rightarrow>
         if p_killed (procs s ! p) \<and> load32 (mem s) (tf + TF_CS) AND 3 = 3 then do { s \<leftarrow> exit s; Some (True, s) }
         else Some (False, s))"

definition trap_syscall :: "cmos \<Rightarrow> u32 \<Rightarrow> u32 \<Rightarrow> 'z console_scheme \<Rightarrow> (trap_end \<times> 'z console_scheme) option" where
  "trap_syscall rtc junk tf s = do {
     p \<leftarrow> myproc s;
     if p_killed (procs s ! p) then do { s \<leftarrow> exit s; Some (TExit, s) }
     else do {
       (gone, s) \<leftarrow> syscall rtc junk (upd_proc p (\<lambda>x. x\<lparr>p_tf := tf\<rparr>) s);
       if gone then Some (TExit, s)
       else if p_killed (procs s ! p) then do { s \<leftarrow> exit s; Some (TExit, s) }
       else Some (TReturn, s) } }"

text \<open>The switch on the trap number. \<open>boot\<close> says whether this is CPU 0, \<open>cr2\<close> is the faulting address. The
  messages on the console are left out.\<close>

definition trap_switch :: "bool \<Rightarrow> u32 \<Rightarrow> u32 \<Rightarrow> 'z console_scheme \<Rightarrow> 'z console_scheme option" where
  "trap_switch boot cr2 tf s =
     (let no = load32 (mem s) (tf + TF_TRAPNO) in
      if no = T_PGFLT then do {
        (dead, s) \<leftarrow> pagefault (map_option (\<lambda>p. p_pgdir (procs s ! p)) (myproc s)) cr2 s;
        case myproc s of
          None \<Rightarrow> Some s
        | Some p \<Rightarrow> Some (if dead then upd_proc p (\<lambda>x. x\<lparr>p_killed := True\<rparr>) s else s) }
      else if no = T_IRQ0 + IRQ_TIMER then
        (if boot then do {
           s \<leftarrow> acquire LTicks s;
           s \<leftarrow> wakeup CTicks (s\<lparr>ticks := ticks s + 1\<rparr>);
           release LTicks s }
         else Some s)
      else if no = T_IRQ0 + IRQ_IDE then ideintr s
      else if no = T_IRQ0 + IRQ_IDE + 1 then Some s
      else if no = T_IRQ0 + IRQ_KBD then do { (_, s) \<leftarrow> kbdintr s; Some s }
      else if no = T_IRQ0 + IRQ_COM1 then do { (_, s) \<leftarrow> uartintr s; Some s }
      else if no = T_IRQ0 + 7 \<or> no = T_IRQ0 + IRQ_SPURIOUS then Some s
      else do {
        p \<leftarrow> myproc s;
        if load32 (mem s) (tf + TF_CS) AND 3 = 0 then None
        else Some (upd_proc p (\<lambda>x. x\<lparr>p_killed := True\<rparr>) s) })"

definition trap :: "cmos \<Rightarrow> u32 \<Rightarrow> bool \<Rightarrow> u32 \<Rightarrow> u32 \<Rightarrow> 'z console_scheme \<Rightarrow> (trap_end \<times> 'z console_scheme) option" where
  "trap rtc junk boot cr2 tf s =
     (if load32 (mem s) (tf + TF_TRAPNO) = T_SYSCALL then trap_syscall rtc junk tf s
      else do {
        let no = load32 (mem s) (tf + TF_TRAPNO);
        s \<leftarrow> trap_switch boot cr2 tf s;
        (gone, s) \<leftarrow> exit_if_killed tf s;
        if gone then Some (TExit, s)
        else case myproc s of
            Some p \<Rightarrow>
              if p_state (procs s ! p) = RUNNING \<and> no = T_IRQ0 + IRQ_TIMER
              then do { s \<leftarrow> yield_enter s; Some (TYield, s) }
              else do { (gone, s) \<leftarrow> exit_if_killed tf s; Some (if gone then TExit else TReturn, s) }
          | None \<Rightarrow> Some (TReturn, s) })"

definition trap_resume :: "u32 \<Rightarrow> 'z console_scheme \<Rightarrow> (trap_end \<times> 'z console_scheme) option" where
  "trap_resume tf s = do {
     s \<leftarrow> yield_exit s;
     (gone, s) \<leftarrow> exit_if_killed tf s;
     Some (if gone then TExit else TReturn, s) }"

end
