(* ===== verification/Spec2Isabelle.thy ===== *)
theory Spec2Isabelle
  imports VmProps Pipe Uprogs ShParse FsFile Trap
begin

text \<open>
  A verification library for the xv6 kernel of this repository, with its copy-on-write \<^verbatim>\<open>forkcow\<close>, and for the user
  library, the shell and some user programs. Sources are under \<^verbatim>\<open>src/xv6\<close>.

  \<^bold>\<open>Conventions.\<close> The kernel state is one record that grows layer by layer: held locks (\<^verbatim>\<open>kcpu\<close>), machine memory
  and free list (\<^verbatim>\<open>kmem\<close>), page tables and reference counts (\<^verbatim>\<open>vm\<close>), the process table (\<^verbatim>\<open>ptable\<close>), buffer cache and
  disk (\<^verbatim>\<open>bio\<close>), log (\<^verbatim>\<open>log\<close>), inodes (\<^verbatim>\<open>fs\<close>), open files and pipes (\<^verbatim>\<open>files\<close>), globals (\<^verbatim>\<open>kernel\<close>), console (\<^verbatim>\<open>console\<close>).
  Every operation is a function on any extension of the record it needs, from the state to an option of its
  result and the new state. \<open>None\<close> is a panic, an access outside an array or through a null pointer, a loop
  that does not end, or a wait that only another process can end. Pointers into tables are indices.
  Machine integers are words, so all arithmetic wraps around as in C; memory is a map from 32-bit
  addresses to bytes. Loops are structural recursion, functions with a measure, or \<open>partial_function (option)\<close>
  where the code may loop forever; no fuel is used except in the shell parser, whose fuel is proved
  sufficient.

  \<^bold>\<open>Theories.\<close>
  \<^item> \<^verbatim>\<open>Prelude\<close>: constants of \<^verbatim>\<open>param.h\<close> and \<^verbatim>\<open>memlayout.h\<close>, lemmas on options, tables and aligned addresses.
  \<^item> \<^verbatim>\<open>KString\<close> (\<^verbatim>\<open>string.c\<close>): the memory and string routines, each against what it promises.
  \<^item> \<^verbatim>\<open>Spinlock\<close> (\<^verbatim>\<open>spinlock.c\<close>): all CPUs interleaved at the atomic instructions, mutual exclusion, and the view of
    one CPU that the other theories use; \<open>lock_ops\<close> is the contract of both.
  \<^item> \<^verbatim>\<open>Kalloc\<close> (\<^verbatim>\<open>kalloc.c\<close>): the free list threaded through free pages.
  \<^item> \<^verbatim>\<open>Mmu\<close>, \<^verbatim>\<open>Vm\<close> (\<^verbatim>\<open>mmu.h\<close>, \<^verbatim>\<open>vm.c\<close>): page tables in memory and every operation on address spaces. \<^verbatim>\<open>PageTable\<close>, \<^verbatim>\<open>PageDir\<close>,
    \<^verbatim>\<open>CowSpec\<close>, \<^verbatim>\<open>Uvm\<close>, \<^verbatim>\<open>Aspace\<close>, \<^verbatim>\<open>Grow\<close>, \<^verbatim>\<open>Cow\<close>, \<^verbatim>\<open>ForkCow\<close> prove the invariant of page tables and reference counts and
    the refinement to the abstract map from virtual to physical pages; \<^verbatim>\<open>VmProps\<close> states the results.
  \<^item> \<^verbatim>\<open>Ptable\<close> (\<^verbatim>\<open>proc.h\<close>): the process table, wakeups, and access to user memory through the page table.
  \<^item> \<^verbatim>\<open>Pipe\<close> (\<^verbatim>\<open>pipe.c\<close>): the ring, all its threads interleaved between two sleeps; first-in first-out and wakeups.
  \<^item> \<^verbatim>\<open>Ondisk\<close> (\<^verbatim>\<open>fs.h\<close>): the bytes of super block, inodes and directory entries, with round trips.
  \<^item> \<^verbatim>\<open>Bio\<close> (\<^verbatim>\<open>sleeplock.c\<close>, \<^verbatim>\<open>ide.c\<close>, \<^verbatim>\<open>memide.c\<close>, \<^verbatim>\<open>bio.c\<close>), \<^verbatim>\<open>Log\<close> (\<^verbatim>\<open>log.c\<close>), \<^verbatim>\<open>Fs\<close> (\<^verbatim>\<open>fs.c\<close>): the file system from the disk to path
    names. \<^verbatim>\<open>BioInv\<close> shows that the cache is transparent and that both disk drivers meet one contract.
    \<^verbatim>\<open>LogInv\<close> describes the log by the sequences of block writes it makes, and \<^verbatim>\<open>LogCrash\<close> shows that a crash at any point of a
    commit, followed by recovery, leaves all of a transaction or nothing; a crash keeps a prefix of the block writes, each whole.
    \<^verbatim>\<open>FsInv\<close> has the block allocator inside a transaction, \<^verbatim>\<open>FsFile\<close> the contents of files as \<open>readi\<close> returns them.
  \<^item> \<^verbatim>\<open>File\<close> (\<^verbatim>\<open>file.c\<close>), \<^verbatim>\<open>Sysarg\<close>, \<^verbatim>\<open>Sysfile\<close>, \<^verbatim>\<open>Exec\<close> (\<^verbatim>\<open>syscall.c\<close>, \<^verbatim>\<open>sysfile.c\<close>, \<^verbatim>\<open>exec.c\<close>), \<^verbatim>\<open>Proc\<close> (\<^verbatim>\<open>proc.c\<close>), \<^verbatim>\<open>Console\<close>
    (\<^verbatim>\<open>console.c\<close>, \<^verbatim>\<open>kbd.c\<close>, \<^verbatim>\<open>uart.c\<close>), \<^verbatim>\<open>Lapic\<close> (the clock of \<^verbatim>\<open>lapic.c\<close>), \<^verbatim>\<open>Trap\<close> (\<^verbatim>\<open>sysproc.c\<close>, \<^verbatim>\<open>syscall.c\<close>, \<^verbatim>\<open>trap.c\<close>): the rest
    of the kernel, function by function.
  \<^item> \<^verbatim>\<open>Ulib\<close> (\<^verbatim>\<open>ulib.c\<close>, \<^verbatim>\<open>printf.c\<close>), \<^verbatim>\<open>Uprogs\<close> (\<^verbatim>\<open>grep.c\<close>, \<^verbatim>\<open>wc.c\<close>, \<^verbatim>\<open>cat.c\<close>, \<^verbatim>\<open>echo.c\<close>, \<^verbatim>\<open>ls.c\<close>), \<^verbatim>\<open>Sh\<close> and \<^verbatim>\<open>ShParse\<close> (\<^verbatim>\<open>sh.c\<close>):
    the user side; the parser of the shell is shown to return on every well formed line.

  \<^bold>\<open>Parameters.\<close> The table \<^verbatim>\<open>devsw\<close> of function pointers is an argument of the file system; \<^verbatim>\<open>Console\<close> gives the table the
  kernel installs. The code a process runs between two visits to the scheduler, the CMOS clock and the
  linked addresses \<^verbatim>\<open>end\<close>, \<^verbatim>\<open>data\<close>, \<^verbatim>\<open>trapret\<close>, \<^verbatim>\<open>forkret\<close> are arguments or fields of the state.

  \<^bold>\<open>Not modelled.\<close> Assembly (\<^verbatim>\<open>swtch.S\<close>, \<^verbatim>\<open>trapasm.S\<close>, \<^verbatim>\<open>entry.S\<close>, \<^verbatim>\<open>bootasm.S\<close>), the programming of interrupt controllers and
  of the serial port (\<^verbatim>\<open>ioapic.c\<close>, \<^verbatim>\<open>picirq.c\<close>, \<^verbatim>\<open>uartinit\<close>, \<^verbatim>\<open>lapicinit\<close>), the port protocol of the disk, \<^verbatim>\<open>vm2.c\<close> (an old copy
  that is not compiled), the test programs, and the argument handling of the user programs. Kernel code that sleeps
  is modelled up to the sleep, except for pipes and spin locks, which are modelled with all their threads.
\<close>

end
